(* ===== verification/IO_Prelude.thy ===== *)
theory IO_Prelude
  imports Main "HOL-Library.Word" "HOL-Library.Char_ord" "HOL-Library.List_Lexorder"
begin

text \<open>
  Shared vocabulary of the development.

  \<^item> A C++ \<open>char\<close> is an Isabelle \<open>char\<close> (both are eight bits), so \<open>std::string\<close>, C strings and
    raw byte buffers are all lists of \<open>char\<close>. A \<open>uint64_t\<close> is a \<open>64 word\<close>, a \<open>uint8_t\<close> an
    \<open>8 word\<close>.
  \<^item> Everything the program can do wrong (out-of-range memory access, an uninitialised read, a
    thrown exception, a wait that is not satisfied) is a value of \<open>io_error\<close>; a fallible operation
    returns \<open>io_error + 'a\<close> and is sequenced by \<open>bindE\<close>.
  \<^item> A heap block is a partial function from offsets to characters: \<open>None\<close> is a cell that was
    allocated by \<open>new char[n]\<close> and never written.
  \<^item> \<open>std::map\<close> is an association list sorted by key, because the program iterates over maps in
    key order.
\<close>

named_theorems io_simps "rewrite rules that carry the component proofs"

type_synonym u8 = "8 word"
type_synonym u64 = "64 word"
type_synonym bytes = "char list"
type_synonym mem = "nat \<rightharpoonup> char"

datatype io_error =
    Mem_Fault          \<comment> \<open>access outside a block, or of a cell never written\<close>
  | Null_Deref         \<comment> \<open>dereference of a null pointer or of an end iterator\<close>
  | Arith_Fault        \<comment> \<open>integer division by zero\<close>
  | Length_Error       \<comment> \<open>\<open>std::length_error\<close>\<close>
  | Would_Block        \<comment> \<open>a condition-variable wait whose predicate is false\<close>
  | Assert_Fail        \<comment> \<open>\<open>RAPIDJSON_ASSERT\<close>\<close>
  | Throw string       \<comment> \<open>an exception class of \<open>rtt_exceptions.h\<close> with its message\<close>

type_synonym 'a res = "io_error + 'a"

section \<open>Sequencing of fallible operations\<close>

definition bindE :: "'e + 'a \<Rightarrow> ('a \<Rightarrow> 'e + 'b) \<Rightarrow> 'e + 'b" where
  "bindE m f = (case m of Inl e \<Rightarrow> Inl e | Inr x \<Rightarrow> f x)"

lemma bindE_Inr [simp]: "bindE (Inr x) f = f x"
  by (simp add: bindE_def)

lemma bindE_Inl [simp]: "bindE (Inl e) f = Inl e"
  by (simp add: bindE_def)

lemma bindE_eq_Inr [io_simps]: "bindE m f = Inr y \<longleftrightarrow> (\<exists>x. m = Inr x \<and> f x = Inr y)"
  by (auto simp: bindE_def split: sum.splits)

lemma bindE_assoc: "bindE (bindE m f) g = bindE m (\<lambda>x. bindE (f x) g)"
  by (auto simp: bindE_def split: sum.splits)

section \<open>Memory blocks\<close>

definition mem_read :: "nat \<Rightarrow> mem \<Rightarrow> nat \<Rightarrow> nat \<Rightarrow> bytes res" where
  "mem_read cap m off len =
     (if off + len \<le> cap \<and> list_all (\<lambda>i. m i \<noteq> None) [off..<off + len]
      then Inr (map (\<lambda>i. the (m i)) [off..<off + len]) else Inl Mem_Fault)"

definition mem_write :: "nat \<Rightarrow> mem \<Rightarrow> nat \<Rightarrow> bytes \<Rightarrow> mem res" where
  "mem_write cap m off data =
     (if off + length data \<le> cap
      then Inr (\<lambda>i. if off \<le> i \<and> i < off + length data then Some (data ! (i - off)) else m i)
      else Inl Mem_Fault)"

definition mem_slice :: "bytes \<Rightarrow> nat \<Rightarrow> nat \<Rightarrow> bytes res" where
  "mem_slice data off len =
     (if off + len \<le> length data then Inr (take len (drop off data)) else Inl Mem_Fault)"

definition memcpy :: "nat \<Rightarrow> mem \<Rightarrow> nat \<Rightarrow> nat \<Rightarrow> mem \<Rightarrow> nat \<Rightarrow> nat \<Rightarrow> mem res" where
  "memcpy dcap dst doff scap src soff len =
     bindE (mem_read scap src soff len) (mem_write dcap dst doff)"

lemma mem_read_ok:
  assumes "off + len \<le> cap" and "map m [off..<off + len] = map Some xs"
  shows "mem_read cap m off len = Inr xs"
proof -
  have len: "length xs = len"
    using arg_cong [OF assms(2), of length] by simp
  have "m i = Some (xs ! (i - off))" if "off \<le> i" and "i < off + len" for i
    using arg_cong [OF assms(2), of "\<lambda>zs. zs ! (i - off)"] that len by simp
  then have "list_all (\<lambda>i. m i \<noteq> None) [off..<off + len]"
    and "map (\<lambda>i. the (m i)) [off..<off + len] = xs"
    using len by (auto simp: list_all_iff intro: nth_equalityI)
  with assms(1) show ?thesis by (simp add: mem_read_def)
qed

lemma mem_write_ok:
  "off + length data \<le> cap \<Longrightarrow> mem_write cap m off data =
     Inr (\<lambda>i. if off \<le> i \<and> i < off + length data then Some (data ! (i - off)) else m i)"
  by (simp add: mem_write_def)

lemma mem_slice_ok: "off + len \<le> length data \<Longrightarrow> mem_slice data off len = Inr (take len (drop off data))"
  by (simp add: mem_slice_def)

lemma mem_read_length: "mem_read cap m off len = Inr xs \<Longrightarrow> length xs = len"
  by (auto simp: mem_read_def split: if_splits)

section \<open>Machine integers\<close>

text \<open>A \<open>uint64_t\<close> as the eight bytes it occupies in memory, least significant first (the
  program copies the object representation, so both ends must be little-endian).\<close>

definition le_bytes :: "nat \<Rightarrow> nat \<Rightarrow> bytes" where
  "le_bytes k n = map (\<lambda>i. char_of (n div 256 ^ i)) [0..<k]"

fun le_value :: "bytes \<Rightarrow> nat" where
  "le_value [] = 0"
| "le_value (c # cs) = of_char c + 256 * le_value cs"

definition u64_bytes :: "u64 \<Rightarrow> bytes" where
  "u64_bytes w = le_bytes 8 (unat w)"

definition bytes_u64 :: "bytes \<Rightarrow> u64" where
  "bytes_u64 bs = word_of_nat (le_value bs)"

lemma length_le_bytes [simp]: "length (le_bytes k n) = k"
  by (simp add: le_bytes_def)

lemma length_u64_bytes [simp]: "length (u64_bytes w) = 8"
  by (simp add: u64_bytes_def)

lemma le_bytes_Suc: "le_bytes (Suc k) n = char_of n # le_bytes k (n div 256)"
  by (simp add: le_bytes_def map_Suc_upt [symmetric] upt_rec [of 0] div_mult2_eq del: upt_Suc)

lemma le_value_le_bytes: "le_value (le_bytes k n) = n mod 256 ^ k"
proof (induction k arbitrary: n)
  case 0
  show ?case by (simp add: le_bytes_def)
next
  case (Suc k)
  have "n mod 256 + 256 * (n div 256 mod 256 ^ k) = n mod 256 ^ Suc k"
    by (simp add: mod_mult2_eq)
  with Suc show ?case by (simp add: le_bytes_Suc of_char_of)
qed

lemma bytes_u64_inverse [simp]: "bytes_u64 (u64_bytes w) = w"
proof -
  have "unat w < 256 ^ 8"
    using unsigned_less [of w] by simp
  then show ?thesis
    by (simp add: bytes_u64_def u64_bytes_def le_value_le_bytes)
qed

lemma unat_u64_of_nat [io_simps]: "k < 2 ^ 64 \<Longrightarrow> unat (word_of_nat k :: u64) = k"
  by (simp add: unat_of_nat)

lemma le_value_bound: "le_value bs < 256 ^ length bs"
proof (induction bs)
  case (Cons c cs)
  have "of_char c + 256 * le_value cs < 256 + 256 * le_value cs"
    using nat_of_char_less_256 [of c] by (simp only: add_less_cancel_right)
  also have "\<dots> \<le> 256 * 256 ^ length cs"
    using mult_le_mono2 [of "Suc (le_value cs)" "256 ^ length cs" 256] Cons by simp
  finally show ?case by simp
qed simp

lemma le_bytes_le_value: "le_bytes (length cs) (le_value cs) = cs"
proof (induction cs)
  case (Cons c cs)
  have lt: "of_char c < (256 :: nat)" by (rule nat_of_char_less_256)
  then have "(of_char c + 256 * le_value cs) div 256 = le_value cs" by linarith
  moreover have "char_of (of_char c + 256 * le_value cs) = c"
    using lt char_of_mod_256 [of "of_char c + 256 * le_value cs"] by (simp del: char_of_mod_256)
  ultimately show ?case using Cons by (simp add: le_bytes_Suc)
qed (simp add: le_bytes_def)

lemma u64_bytes_inverse: "length bs = 8 \<Longrightarrow> u64_bytes (bytes_u64 bs) = bs"
  using le_value_bound [of bs] le_bytes_le_value [of bs]
  by (simp add: bytes_u64_def u64_bytes_def unat_u64_of_nat)

lemma unat_u64_max: "unat (-1 :: u64) = 2 ^ 64 - 1"
  by (simp add: unsigned_minus_1_eq_mask mask_eq_exp_minus_1)

definition umod :: "u64 \<Rightarrow> u64 \<Rightarrow> u64 res" where
  "umod a b = (if b = 0 then Inl Arith_Fault else Inr (a mod b))"

definition udiv :: "u64 \<Rightarrow> u64 \<Rightarrow> u64 res" where
  "udiv a b = (if b = 0 then Inl Arith_Fault else Inr (a div b))"

text \<open>Transfer of the \<open>uint64_t\<close> comparisons and of arithmetic that does not wrap to naturals.\<close>

lemma unat_u64_sub [io_simps]: "(b :: u64) \<le> a \<Longrightarrow> unat (a - b) = unat a - unat b"
  by (rule unat_sub)

lemma unat_u64_add [io_simps]:
  "unat (a :: u64) + unat b < 2 ^ 64 \<Longrightarrow> unat (a + b) = unat a + unat b"
  by (simp add: unat_word_ariths)

end
