(* ===== verification/Ring.thy ===== *)
theory Ring
  imports IO_Prelude
begin

text \<open>
  Cells read and written around the end of a block of \<open>N\<close> characters: \<open>ring\<close> is the content of
  \<open>k\<close> consecutive cells from \<open>s\<close> on, \<open>ring_upd\<close> the effect of storing a byte string there. The
  lemmas reduce both to at most two straight copies, which is how \<open>cycle_buffer.cpp\<close> does them.
\<close>

section \<open>Rings of cells\<close>

definition ring :: "nat \<Rightarrow> mem \<Rightarrow> nat \<Rightarrow> nat \<Rightarrow> char option list" where
  "ring N m s k = map (\<lambda>i. m ((s + i) mod N)) [0..<k]"

lemma length_ring [simp]: "length (ring N m s k) = k"
  by (simp add: ring_def)

lemma nth_ring [simp]: "i < k \<Longrightarrow> ring N m s k ! i = m ((s + i) mod N)"
  by (simp add: ring_def)

lemma mod_advance: "k \<le> n \<Longrightarrow> ((a + k) mod N + (n - k)) mod N = (a + n) mod (N :: nat)"
proof -
  assume "k \<le> n"
  moreover have "((a + k) mod N + (n - k)) mod N = (a + k + (n - k)) mod N" by (rule mod_add_left_eq)
  ultimately show ?thesis by simp
qed

lemma ring_append: "ring N m s (j + k) = ring N m s j @ ring N m ((s + j) mod N) k"
proof (rule nth_equalityI)
  fix i assume "i < length (ring N m s (j + k))"
  moreover have "(s + i) mod N = ((s + j) mod N + (i - j)) mod N" if "\<not> i < j"
    using that by (simp only: mod_advance not_less)
  ultimately show "ring N m s (j + k) ! i = (ring N m s j @ ring N m ((s + j) mod N) k) ! i"
    by (simp add: nth_append)
qed simp

lemma ring_contiguous: "s + k \<le> N \<Longrightarrow> ring N m s k = map m [s..<s + k]"
  by (rule nth_equalityI) auto

lemma ring_split:
  "s \<le> N \<Longrightarrow> k \<le> N \<Longrightarrow> N < s + k \<Longrightarrow> ring N m s k = map m [s..<N] @ map m [0..<s + k - N]"
proof (rule nth_equalityI)
  fix i assume a: "s \<le> N" "k \<le> N" "N < s + k" "i < length (ring N m s k)"
  show "ring N m s k ! i = (map m [s..<N] @ map m [0..<s + k - N]) ! i"
  proof (cases "s + i < N")
    case False
    with a have "(s + i) mod N = s + i - N" by (simp add: mod_if)
    moreover have "\<not> i < N - s" and "s + i - N = i - (N - s)" using a(1) False by arith+
    ultimately show ?thesis using a by (simp add: nth_append)
  next
    case True
    then have "i < N - s" by arith
    with True a show ?thesis by (simp add: nth_append)
  qed
qed simp

lemma ring_take: "j \<le> k \<Longrightarrow> ring N m s j = take j (ring N m s k)"
  by (rule nth_equalityI) auto

lemma ring_drop: "j \<le> k \<Longrightarrow> ring N m ((s + j) mod N) (k - j) = drop j (ring N m s k)"
  by (rule nth_equalityI) (auto simp: mod_add_left_eq add.assoc)

lemma mod_add_inj:
  assumes "a < N" and "b < N" and "(s + a) mod N = (s + b) mod N"
  shows "a = (b :: nat)"
  using assms
proof (induction a b rule: linorder_wlog)
  case (le a b)
  then have "N dvd (s + b) - (s + a)"
    by (intro mod_eq_dvd_iff_nat [THEN iffD1]) simp_all
  with le show ?case by (auto dest: dvd_imp_le)
qed simp

text \<open>\<open>ring_upd\<close>: the block \<open>m'\<close> is \<open>m\<close> with \<open>data\<close> stored from \<open>s\<close> on, around the ring.\<close>

definition ring_upd :: "nat \<Rightarrow> mem \<Rightarrow> nat \<Rightarrow> bytes \<Rightarrow> mem \<Rightarrow> bool" where
  "ring_upd N m s data m' \<longleftrightarrow>
     (\<forall>i<length data. m' ((s + i) mod N) = Some (data ! i)) \<and>
     (\<forall>a. (\<forall>i<length data. a \<noteq> (s + i) mod N) \<longrightarrow> m' a = m a)"

lemma ring_upd_append:
  assumes "ring_upd N m ((s + k) mod N) data m'" and "k + length data \<le> N"
    and "ring N m s k = map Some q"
  shows "ring N m' s (k + length data) = map Some (q @ data)"
proof (rule nth_equalityI)
  have len: "length q = k" using assms(3) by (metis length_map length_ring)
  then show "length (ring N m' s (k + length data)) = length (map Some (q @ data))" by simp
  fix i assume "i < length (ring N m' s (k + length data))"
  then have i: "i < k + length data" by simp
  show "ring N m' s (k + length data) ! i = map Some (q @ data) ! i"
  proof (cases "i < k")
    case True
    have "(s + i) mod N \<noteq> ((s + k) mod N + j) mod N" if "j < length data" for j
      using mod_add_inj [of i N "k + j" s] True that assms(2) by (auto simp: mod_add_left_eq add.assoc)
    with assms(1) have "m' ((s + i) mod N) = m ((s + i) mod N)" by (simp add: ring_upd_def)
    also have "\<dots> = Some (q ! i)"
      using arg_cong [OF assms(3), of "\<lambda>xs. xs ! i"] True len by simp
    finally show ?thesis using i True len by (simp add: nth_append)
  next
    case False
    then obtain j where j: "i = k + j" by (metis le_iff_add not_less)
    with i have "m' (((s + k) mod N + j) mod N) = Some (data ! j)"
      using assms(1) by (simp add: ring_upd_def)
    then show ?thesis using i j len by (simp add: nth_append mod_add_left_eq add.assoc)
  qed
qed

lemma ring_upd_contiguous:
  "s + length data \<le> N \<Longrightarrow> ring_upd N m s data
     (\<lambda>i. if s \<le> i \<and> i < s + length data then Some (data ! (i - s)) else m i)"
proof -
  assume a: "s + length data \<le> N"
  have "\<exists>i<length data. a = (s + i) mod N" if "s \<le> a" "a < s + length data" for a
    using that a by (intro exI [of _ "a - s"]) auto
  then have "\<not> (s \<le> a \<and> a < s + length data)" if "\<forall>i<length data. a \<noteq> (s + i) mod N" for a
    using that by blast
  then show ?thesis using a by (auto simp: ring_upd_def)
qed

lemma ring_upd_split:
  assumes "s < N" and "N < s + length data" and "length data \<le> N"
  shows "ring_upd N m s data
    (\<lambda>i. if i < length data - (N - s) then Some (data ! (N - s + i))
         else if s \<le> i \<and> i < N then Some (data ! (i - s)) else m i)"
    (is "ring_upd N m s data ?m")
  unfolding ring_upd_def
proof (intro conjI allI impI)
  fix i assume i: "i < length data"
  show "?m ((s + i) mod N) = Some (data ! i)"
  proof (cases "s + i < N")
    case True
    then have "\<not> s + i < length data - (N - s)" using assms by arith
    with True show ?thesis by simp
  next
    case False
    with i assms have "(s + i) mod N = s + i - N" and "s + i - N = i - (N - s)"
      by (auto simp: mod_if)
    then have "(s + i) mod N = i - (N - s)" by simp
    moreover have "i - (N - s) < length data - (N - s)" and "N - s + (i - (N - s)) = i"
      using i False assms by arith+
    ultimately show ?thesis by simp
  qed
next
  fix a assume na: "\<forall>i<length data. a \<noteq> (s + i) mod N"
  have "\<not> (s \<le> a \<and> a < N)"
  proof
    assume a: "s \<le> a \<and> a < N"
    then have "a - s < length data" and "a = (s + (a - s)) mod N" using assms by auto
    with na show False by blast
  qed
  moreover have "\<not> a < length data - (N - s)"
  proof
    assume a: "a < length data - (N - s)"
    then have "(s + (N - s + a)) mod N = a" using assms by simp
    moreover have "N - s + a < length data" using a by arith
    ultimately show False using na by metis
  qed
  ultimately show "?m a = m a" by auto
qed

end
