(* ===== verification/Byte_Queue.thy ===== *)
theory Byte_Queue
  imports IO_Prelude
begin

text \<open>
  The interface between the ring buffer and its clients (the send, receive and per-message buffers
  of a connection): a first-in-first-out queue of bytes. The locale \<open>byte_queue\<close> names what a client
  calls and the laws it relies on; \<open>run_ops\<close> and \<open>spec_run\<close> say what a whole sequence of calls does,
  on the implementation and on the abstract byte string.
\<close>

datatype queue_op = Put bytes | Get u64

text \<open>A client's calls on an implementation: the byte strings the reads return, and the buffer.\<close>

fun run_ops :: "('b \<Rightarrow> bytes \<Rightarrow> (u64 \<times> 'b) res) \<Rightarrow> ('b \<Rightarrow> u64 \<Rightarrow> (u64 \<times> bytes \<times> 'b) res) \<Rightarrow>
    queue_op list \<Rightarrow> 'b \<Rightarrow> (bytes list \<times> 'b) res" where
  "run_ops put get [] b = Inr ([], b)"
| "run_ops put get (Put d # ops) b = bindE (put b d) (\<lambda>(_, b'). run_ops put get ops b')"
| "run_ops put get (Get k # ops) b =
     bindE (get b k) (\<lambda>(_, d, b'). bindE (run_ops put get ops b') (\<lambda>(ds, b''). Inr (d # ds, b'')))"

text \<open>The same calls on a byte string.\<close>

fun spec_run :: "queue_op list \<Rightarrow> bytes \<Rightarrow> (bytes list \<times> bytes) res" where
  "spec_run [] q = Inr ([], q)"
| "spec_run (Put d # ops) q = spec_run ops (q @ d)"
| "spec_run (Get k # ops) q =
     (if unat k \<le> length q
      then bindE (spec_run ops (drop (unat k) q)) (\<lambda>(ds, q'). Inr (take (unat k) q # ds, q'))
      else Inl Would_Block)"

text \<open>The content stays within \<open>limit\<close> bytes.\<close>

fun within :: "nat \<Rightarrow> queue_op list \<Rightarrow> bytes \<Rightarrow> bool" where
  "within limit [] q \<longleftrightarrow> True"
| "within limit (Put d # ops) q \<longleftrightarrow> length q + length d \<le> limit \<and> within limit ops (q @ d)"
| "within limit (Get k # ops) q \<longleftrightarrow> (unat k \<le> length q \<longrightarrow> within limit ops (drop (unat k) q))"

fun puts :: "queue_op list \<Rightarrow> bytes" where
  "puts [] = []"
| "puts (Put d # ops) = d @ puts ops"
| "puts (Get k # ops) = puts ops"

text \<open>No byte is lost, duplicated or reordered by the abstract queue.\<close>

lemma spec_run_fifo: "spec_run ops q = Inr (ds, q') \<Longrightarrow> concat ds @ q' = q @ puts ops"
proof (induction ops q arbitrary: ds q' rule: spec_run.induct)
  case (3 k ops q)
  then obtain es where "spec_run ops (drop (unat k) q) = Inr (es, q')" "unat k \<le> length q"
    "ds = take (unat k) q # es"
    by (auto simp: bindE_eq_Inr split: if_splits)
  with "3.IH" [of es q'] show ?case
    by simp
qed auto

locale byte_queue =
  fixes repr :: "'b \<Rightarrow> bytes \<Rightarrow> bool"
    and put :: "'b \<Rightarrow> bytes \<Rightarrow> (u64 \<times> 'b) res"
    and get :: "'b \<Rightarrow> u64 \<Rightarrow> (u64 \<times> bytes \<times> 'b) res"
    and count :: "'b \<Rightarrow> u64"
    and limit :: nat
  assumes put_ok: "repr b q \<Longrightarrow> length q + length d \<le> limit \<Longrightarrow>
      \<exists>b'. put b d = Inr (word_of_nat (length d), b') \<and> repr b' (q @ d)"
    and get_ok: "repr b q \<Longrightarrow> unat k \<le> length q \<Longrightarrow>
      \<exists>b'. get b k = Inr (k, take (unat k) q, b') \<and> repr b' (drop (unat k) q)"
    and get_blocks: "repr b q \<Longrightarrow> length q < unat k \<Longrightarrow> get b k = Inl Would_Block"
    and count_ok: "repr b q \<Longrightarrow> unat (count b) = length q"
    and repr_unique: "repr b q \<Longrightarrow> repr b q' \<Longrightarrow> q = q'"
begin

lemma drain:
  assumes "repr b q"
  shows "\<exists>b'. get b (count b) = Inr (count b, q, b') \<and> repr b' []"
  using get_ok [OF assms, of "count b"] count_ok [OF assms] by simp

lemma put_get:
  assumes "repr b []" and "length d \<le> limit" and "unat k = length d"
  shows "\<exists>b' b''. put b d = Inr (k, b') \<and> get b' k = Inr (k, d, b'') \<and> repr b'' []"
proof -
  have k: "word_of_nat (length d) = k" using assms(3) by (simp flip: assms(3))
  obtain b' where "put b d = Inr (k, b')" "repr b' d"
    using put_ok [OF assms(1), of d] assms(2) k by auto
  with get_ok [of b' d k] assms(3) show ?thesis by auto
qed

lemma run_ops_refines:
  "repr b q \<Longrightarrow> within limit ops q \<Longrightarrow>
   (case spec_run ops q of
      Inl e \<Rightarrow> run_ops put get ops b = Inl e
    | Inr (ds, q') \<Rightarrow> \<exists>b'. run_ops put get ops b = Inr (ds, b') \<and> repr b' q')"
proof (induction ops q arbitrary: b rule: spec_run.induct)
  case (2 d ops q)
  then obtain b' where "put b d = Inr (word_of_nat (length d), b')" "repr b' (q @ d)"
    using put_ok [of b q d] by auto
  with "2.IH" [of b'] "2.prems"(2) show ?case by (auto split: sum.splits)
next
  case (3 k ops q)
  show ?case
  proof (cases "unat k \<le> length q")
    case True
    then obtain b' where "get b k = Inr (k, take (unat k) q, b')" "repr b' (drop (unat k) q)"
      using get_ok [OF "3.prems"(1)] by auto
    with "3.IH" [OF True, of b'] "3.prems"(2) True show ?thesis
      by (auto split: sum.splits)
  next
    case False
    with get_blocks [OF "3.prems"(1), of k] show ?thesis by simp
  qed
qed simp

end

end
