(* ===== verification/Cycle_Buffer.thy ===== *)
theory Cycle_Buffer
  imports Ring Byte_Queue
begin

text \<open>
  The growing ring buffer of \<open>cycle_buffer.h\<close> and \<open>cycle_buffer.cpp\<close>. The fields keep the
  source's \<open>uint64_t\<close> width, so every subtraction and addition below wraps as it does in C++;
  \<open>cells\<close> is the block \<open>buffer_\<close> of \<open>n_size\<close> characters.

  A wait on \<open>cv_\<close> whose predicate is false is the error \<open>Would_Block\<close>: the calling thread stays
  inside the operation and the buffer is unchanged. The contract every operation is proved
  against is a first-in-first-out queue of bytes (locale \<open>byte_queue\<close>); \<open>timer_\<close>, which only
  \<open>can_remove\<close> reads, is left to the timer component.
\<close>

section \<open>State\<close>

record cycle_buffer =
  r_pos :: u64            \<comment> \<open>read position\<close>
  w_pos :: u64            \<comment> \<open>write position\<close>
  n_size :: u64           \<comment> \<open>\<open>n_\<close>, the buffer size\<close>
  remain_space :: u64
  cells :: mem            \<comment> \<open>\<open>buffer_\<close>\<close>

definition cb_new :: "u64 \<Rightarrow> cycle_buffer" where
  "cb_new n = \<lparr>r_pos = 0, w_pos = 0, n_size = n, remain_space = n, cells = Map.empty\<rparr>"

definition cb_size :: "cycle_buffer \<Rightarrow> u64" where
  "cb_size cb = n_size cb - remain_space cb"

definition cb_reset :: "cycle_buffer \<Rightarrow> cycle_buffer" where
  "cb_reset cb = cb\<lparr>r_pos := 0, w_pos := 0, remain_space := n_size cb\<rparr>"

definition cb_can_read_n :: "cycle_buffer \<Rightarrow> u64 \<Rightarrow> bool" where
  "cb_can_read_n cb len \<longleftrightarrow> len \<le> n_size cb - remain_space cb"

section \<open>Operations\<close>

text \<open>Reads of the block \<open>buffer_\<close> at an offset.\<close>

definition cb_copy_out :: "cycle_buffer \<Rightarrow> u64 \<Rightarrow> u64 \<Rightarrow> bytes res" where
  "cb_copy_out cb off len = mem_read (unat (n_size cb)) (cells cb) (unat off) (unat len)"

definition cb_copy_in :: "cycle_buffer \<Rightarrow> mem \<Rightarrow> u64 \<Rightarrow> bytes \<Rightarrow> mem res" where
  "cb_copy_in cb m off data = mem_write (unat (n_size cb)) m (unat off) data"

text \<open>\<open>cycle_buffer::peek\<close>: the value returned and the bytes copied to \<open>data\<close>.\<close>

definition cb_peek :: "cycle_buffer \<Rightarrow> u64 \<Rightarrow> (u64 \<times> bytes) res" where
  "cb_peek cb len =
    (if \<not> len \<le> n_size cb - remain_space cb then Inl Would_Block
     else if w_pos cb \<le> r_pos cb \<and> 0 < n_size cb - remain_space cb then
       (if r_pos cb \<le> n_size cb - len then
          bindE (cb_copy_out cb (r_pos cb) len) (\<lambda>d. Inr (len, d))
        else
          (let first_n = n_size cb - r_pos cb in
           bindE (cb_copy_out cb (r_pos cb) first_n) (\<lambda>d1.
           bindE (cb_copy_out cb 0 (len - first_n)) (\<lambda>d2. Inr (len, d1 @ d2)))))
     else if r_pos cb < w_pos cb then
       bindE (cb_copy_out cb (r_pos cb) len) (\<lambda>d. Inr (len, d))
     else Inr (len, []))"

text \<open>\<open>cycle_buffer::read(char*, uint64_t)\<close>: the value returned, the bytes copied to \<open>data\<close> and
  the buffer left behind.\<close>

definition cb_read :: "cycle_buffer \<Rightarrow> u64 \<Rightarrow> (u64 \<times> bytes \<times> cycle_buffer) res" where
  "cb_read cb len =
    (if \<not> len \<le> n_size cb - remain_space cb then Inl Would_Block
     else if w_pos cb \<le> r_pos cb \<and> 0 < n_size cb - remain_space cb then
       (if r_pos cb \<le> n_size cb - len then
          bindE (cb_copy_out cb (r_pos cb) len) (\<lambda>d.
          bindE (umod (r_pos cb + len) (n_size cb)) (\<lambda>r.
            Inr (len, d, cb\<lparr>r_pos := r, remain_space := remain_space cb + len\<rparr>)))
        else
          (let first_n = n_size cb - r_pos cb in
           bindE (cb_copy_out cb (r_pos cb) first_n) (\<lambda>d1.
           bindE (cb_copy_out cb 0 (len - first_n)) (\<lambda>d2.
             Inr (len, d1 @ d2,
               cb\<lparr>r_pos := len - first_n, remain_space := remain_space cb + len\<rparr>)))))
     else if r_pos cb < w_pos cb then
       bindE (cb_copy_out cb (r_pos cb) len) (\<lambda>d.
         Inr (len, d, cb\<lparr>r_pos := r_pos cb + len, remain_space := remain_space cb + len\<rparr>))
     else Inr (0, [], cb))"

text \<open>\<open>cycle_buffer::realloc\<close>: grow the block to at least twice its size when \<open>len\<close> more bytes do
  not fit, moving the content to the front.\<close>

definition cb_realloc :: "cycle_buffer \<Rightarrow> u64 \<Rightarrow> cycle_buffer res" where
  "cb_realloc cb len =
    (if len \<le> remain_space cb then Inr cb
     else bindE (udiv len (n_size cb)) (\<lambda>quot.
       let new_n = n_size cb * (quot + 2); havesize = cb_size cb in
       bindE
        (if r_pos cb < w_pos cb then
           memcpy (unat new_n) Map.empty 0
             (unat (n_size cb)) (cells cb) (unat (r_pos cb)) (unat havesize)
         else if 0 < havesize then
           (let first_n = n_size cb - r_pos cb in
            bindE (memcpy (unat new_n) Map.empty 0
                     (unat (n_size cb)) (cells cb) (unat (r_pos cb)) (unat first_n)) (\<lambda>m.
            if first_n < havesize then
              memcpy (unat new_n) m (unat first_n)
                (unat (n_size cb)) (cells cb) 0 (unat (havesize - first_n))
            else Inr m))
         else Inr Map.empty) (\<lambda>newbuffer.
       Inr \<lparr>r_pos = 0, w_pos = havesize, n_size = new_n, remain_space = new_n - havesize,
            cells = newbuffer\<rparr>)))"

text \<open>\<open>cycle_buffer::write\<close>: \<open>cb_put\<close> is its second critical section, after \<open>realloc\<close> and the wait.\<close>

definition cb_put :: "cycle_buffer \<Rightarrow> bytes \<Rightarrow> cycle_buffer res" where
  "cb_put cb data =
    (let len = word_of_nat (length data) :: u64 in
     bindE
      (if r_pos cb \<le> w_pos cb \<and> 0 < remain_space cb then
         (if w_pos cb \<le> n_size cb - len then
            bindE (cb_copy_in cb (cells cb) (w_pos cb) data) (\<lambda>m.
            bindE (umod (w_pos cb + len) (n_size cb)) (\<lambda>w. Inr (m, w)))
          else
            (let first_n = n_size cb - w_pos cb in
             bindE (mem_slice data 0 (unat first_n)) (\<lambda>d1.
             bindE (cb_copy_in cb (cells cb) (w_pos cb) d1) (\<lambda>m1.
             bindE (mem_slice data (unat first_n) (unat (len - first_n))) (\<lambda>d2.
             bindE (cb_copy_in cb m1 0 d2) (\<lambda>m2. Inr (m2, len - first_n)))))))
       else if w_pos cb < r_pos cb then
         bindE (cb_copy_in cb (cells cb) (w_pos cb) data) (\<lambda>m. Inr (m, w_pos cb + len))
       else Inr (cells cb, w_pos cb))
      (\<lambda>(m, w). Inr (cb\<lparr>cells := m, w_pos := w, remain_space := remain_space cb - len\<rparr>)))"

definition cb_write :: "cycle_buffer \<Rightarrow> bytes \<Rightarrow> (u64 \<times> cycle_buffer) res" where
  "cb_write cb data =
    (let len = word_of_nat (length data) :: u64 in
     bindE (cb_realloc cb len) (\<lambda>cb1.
     if len \<le> remain_space cb1 then bindE (cb_put cb1 data) (\<lambda>cb2. Inr (len, cb2))
     else Inl Would_Block))"

section \<open>Representation invariant\<close>

abbreviation cb_max :: nat where "cb_max \<equiv> 3 * 2 ^ 61"

definition cb_wf :: "cycle_buffer \<Rightarrow> bool" where
  "cb_wf cb \<longleftrightarrow> r_pos cb < n_size cb \<and> remain_space cb \<le> n_size cb \<and> unat (n_size cb) \<le> cb_max \<and>
     unat (w_pos cb) = (unat (r_pos cb) + unat (cb_size cb)) mod unat (n_size cb)"

definition cb_repr :: "cycle_buffer \<Rightarrow> bytes \<Rightarrow> bool" where
  "cb_repr cb q \<longleftrightarrow> cb_wf cb \<and>
     ring (unat (n_size cb)) (cells cb) (unat (r_pos cb)) (unat (cb_size cb)) = map Some q"

lemma cb_repr_wf: "cb_repr cb q \<Longrightarrow> cb_wf cb"
  by (simp add: cb_repr_def)

lemma cb_repr_size: "cb_repr cb q \<Longrightarrow> unat (cb_size cb) = length q"
  unfolding cb_repr_def by (metis length_map length_ring)

lemma unat_cb_size: "cb_wf cb \<Longrightarrow> unat (cb_size cb) = unat (n_size cb) - unat (remain_space cb)"
  by (simp add: cb_wf_def cb_size_def io_simps)

lemma cb_repr_bounds:
  assumes "cb_repr cb q"
  shows "unat (r_pos cb) < unat (n_size cb)" and "length q \<le> unat (n_size cb)"
    and "unat (remain_space cb) = unat (n_size cb) - length q"
    and "unat (n_size cb) \<le> cb_max"
    and "unat (w_pos cb) = (unat (r_pos cb) + length q) mod unat (n_size cb)"
    and "ring (unat (n_size cb)) (cells cb) (unat (r_pos cb)) (length q) = map Some q"
    and "unat (n_size cb - remain_space cb) = length q"
proof -
  have wf: "cb_wf cb" and sz: "unat (cb_size cb) = length q"
    using assms cb_repr_wf cb_repr_size by auto
  show "unat (r_pos cb) < unat (n_size cb)" "unat (n_size cb) \<le> cb_max"
    and "unat (w_pos cb) = (unat (r_pos cb) + length q) mod unat (n_size cb)"
    using wf sz by (simp_all add: cb_wf_def word_less_nat_alt)
  show "ring (unat (n_size cb)) (cells cb) (unat (r_pos cb)) (length q) = map Some q"
    using assms sz by (simp add: cb_repr_def)
  show "unat (n_size cb - remain_space cb) = length q" using sz by (simp add: cb_size_def)
  from wf have "unat (remain_space cb) \<le> unat (n_size cb)"
    by (simp add: cb_wf_def word_le_nat_alt)
  with sz unat_cb_size [OF wf] show "length q \<le> unat (n_size cb)"
    and "unat (remain_space cb) = unat (n_size cb) - length q" by simp_all
qed

lemma cb_reprI:
  assumes "unat (r_pos cb) < unat (n_size cb)" and "length q \<le> unat (n_size cb)"
    and "unat (remain_space cb) = unat (n_size cb) - length q" and "unat (n_size cb) \<le> cb_max"
    and "unat (w_pos cb) = (unat (r_pos cb) + length q) mod unat (n_size cb)"
    and "ring (unat (n_size cb)) (cells cb) (unat (r_pos cb)) (length q) = map Some q"
  shows "cb_repr cb q"
proof -
  have le: "remain_space cb \<le> n_size cb" using assms by (simp add: word_le_nat_alt)
  then have "unat (cb_size cb) = length q"
    using assms by (simp add: cb_size_def io_simps)
  with assms le show ?thesis by (simp add: cb_repr_def cb_wf_def word_less_nat_alt)
qed

text \<open>Where the content lies: before the end of the block, or wrapped around it.\<close>

lemma ring_position:
  assumes "(R::nat) < N" and "S \<le> N" and "W = (R + S) mod N"
  shows "R < W \<Longrightarrow> W = R + S" and "W \<le> R \<Longrightarrow> 0 < S \<Longrightarrow> W + N = R + S"
    and "W = R \<longleftrightarrow> S = 0 \<or> S = N"
proof -
  show "R < W \<Longrightarrow> W = R + S"
  proof (cases "R + S < N")
    case False
    assume "R < W"
    moreover have "W = R + S - N" using False assms by (simp add: mod_if)
    ultimately show ?thesis using assms by simp
  qed (use assms in simp)
  show w: "W \<le> R \<Longrightarrow> 0 < S \<Longrightarrow> W + N = R + S"
    using assms by (cases "R + S < N") (auto simp: mod_if)
  show "W = R \<longleftrightarrow> S = 0 \<or> S = N"
    using assms w by (cases "S = 0") auto
qed

section \<open>Reading\<close>

lemma cb_copy_out_contiguous:
  assumes "cb_repr cb q" and "unat (r_pos cb) + k \<le> unat (n_size cb)" and "k \<le> length q"
    and "unat len = k"
  shows "cb_copy_out cb (r_pos cb) len = Inr (take k q)"
proof -
  have "ring (unat (n_size cb)) (cells cb) (unat (r_pos cb)) k = map Some (take k q)"
    using cb_repr_bounds(6) [OF assms(1)] ring_take [OF assms(3)] by (simp add: take_map)
  then show ?thesis
    using assms(2,4) by (simp add: cb_copy_out_def mem_read_ok ring_contiguous)
qed

lemma cb_copy_out_wrapped:
  assumes "cb_repr cb q" and "unat (n_size cb) < unat (r_pos cb) + k" and "k \<le> length q"
    and "unat a = unat (n_size cb) - unat (r_pos cb)" and "unat b = k - unat a"
  shows "cb_copy_out cb (r_pos cb) a = Inr (take (unat a) q)"
    and "cb_copy_out cb 0 b = Inr (drop (unat a) (take k q))"
proof -
  let ?N = "unat (n_size cb)" and ?R = "unat (r_pos cb)"
  note bs = cb_repr_bounds [OF assms(1)]
  show "cb_copy_out cb (r_pos cb) a = Inr (take (unat a) q)"
    using assms bs(1) by (intro cb_copy_out_contiguous) simp_all
  have "map (cells cb) [?R..<?N] @ map (cells cb) [0..<?R + k - ?N] = map Some (take k q)"
    using bs(1,2,6) assms(2,3) ring_take [OF assms(3)] ring_split [of ?R ?N k "cells cb"]
    by (simp add: take_map)
  then have "map (cells cb) [0..<?R + k - ?N] = drop (?N - ?R) (map Some (take k q))"
    by (metis append_eq_conv_conj diff_zero length_map length_upt)
  moreover have "?R + k - ?N = unat b" using assms(2,4,5) bs(1) by simp
  ultimately have "map (cells cb) [0..<0 + unat b] = map Some (drop (unat a) (take k q))"
    using assms(4) by (simp add: drop_map)
  moreover have "unat b \<le> ?N" using assms(3,5) bs(2) by simp
  ultimately show "cb_copy_out cb 0 b = Inr (drop (unat a) (take k q))"
    unfolding cb_copy_out_def by (intro mem_read_ok) simp_all
qed

lemma cb_repr_advance:
  assumes "cb_repr cb q" and "k \<le> length q"
    and "unat r = (unat (r_pos cb) + k) mod unat (n_size cb)" and "unat s = unat (remain_space cb) + k"
  shows "cb_repr (cb\<lparr>r_pos := r, remain_space := s\<rparr>) (drop k q)"
proof (rule cb_reprI)
  let ?cb = "cb\<lparr>r_pos := r, remain_space := s\<rparr>" and ?N = "unat (n_size cb)"
  note bs = cb_repr_bounds [OF assms(1)]
  show "unat (r_pos ?cb) < unat (n_size ?cb)" using assms(3) bs(1) by simp
  show "length (drop k q) \<le> unat (n_size ?cb)" using bs(2) by simp
  show "unat (remain_space ?cb) = unat (n_size ?cb) - length (drop k q)"
    using assms bs(2,3) by simp
  show "unat (n_size ?cb) \<le> cb_max" using bs(4) by simp
  have "((unat (r_pos cb) + k) mod ?N + (length q - k)) mod ?N = (unat (r_pos cb) + length q) mod ?N"
    using assms(2) by (rule mod_advance)
  then show "unat (w_pos ?cb) = (unat (r_pos ?cb) + length (drop k q)) mod unat (n_size ?cb)"
    using bs(5) assms(3) by simp
  show "ring (unat (n_size ?cb)) (cells ?cb) (unat (r_pos ?cb)) (length (drop k q)) = map Some (drop k q)"
    using bs(6) assms(2,3) ring_drop [OF assms(2)] by (simp add: drop_map)
qed

lemma cb_read_ok:
  assumes "cb_repr cb q" and "unat len \<le> length q"
  shows "\<exists>cb'. cb_read cb len = Inr (len, take (unat len) q, cb') \<and> cb_repr cb' (drop (unat len) q) \<and>
           n_size cb' = n_size cb"
proof -
  let ?N = "unat (n_size cb)" and ?R = "unat (r_pos cb)" and ?W = "unat (w_pos cb)" and ?k = "unat len"
  note bs = cb_repr_bounds [OF assms(1)]
  note pos = ring_position [OF bs(1,2,5)]
  have wait: "len \<le> n_size cb - remain_space cb" using assms(2) bs(7) by (simp add: word_le_nat_alt)
  have len_n: "len \<le> n_size cb" using assms(2) bs(2) by (simp add: word_le_nat_alt)
  have rem: "unat (remain_space cb + len) = unat (remain_space cb) + ?k"
    using assms(2) bs(2,3,4) by (intro unat_u64_add) simp
  have adv: "unat (r_pos cb + len) = ?R + ?k"
    using assms(2) bs(1,2,4) by (intro unat_u64_add) simp
  note upd = cb_repr_advance [OF assms _ rem]
  consider (contig) "?W \<le> ?R" "q \<noteq> []" "?R + ?k \<le> ?N" | (split) "?W \<le> ?R" "q \<noteq> []" "?N < ?R + ?k"
    | (plain) "?R < ?W" | (none) "?W \<le> ?R" "q = []"
    by linarith
  then show ?thesis
  proof cases
    case contig
    have "r_pos cb \<le> n_size cb - len" using contig len_n by (simp add: word_le_nat_alt io_simps)
    moreover have "unat ((r_pos cb + len) mod n_size cb) = (?R + ?k) mod ?N"
      using adv by (simp add: unat_mod_distrib)
    moreover have "n_size cb \<noteq> 0" using bs(1) by auto
    ultimately show ?thesis
      using contig wait bs(7) upd cb_copy_out_contiguous [OF assms(1) contig(3) assms(2)]
      by (simp add: cb_read_def umod_def word_le_nat_alt word_less_nat_alt)
  next
    case split
    let ?a = "n_size cb - r_pos cb"
    have a: "unat ?a = ?N - ?R" using bs(1) by (intro unat_u64_sub) (simp add: word_le_nat_alt)
    have "?a \<le> len" using split a by (simp add: word_le_nat_alt)
    then have b: "unat (len - ?a) = ?k - unat ?a" by (rule unat_u64_sub)
    have nle: "\<not> r_pos cb \<le> n_size cb - len" using split len_n by (simp add: word_le_nat_alt io_simps)
    have "(?R + ?k) mod ?N = ?R + ?k - ?N" using split assms(2) bs(1,2) by (simp add: mod_if)
    then have "unat (len - ?a) = (?R + ?k) mod ?N" using a b bs(1) by simp
    moreover have "take (unat ?a) q @ drop (unat ?a) (take ?k q) = take ?k q"
      using split(3) a by (metis append_take_drop_id le_diff_conv min.absorb1 nat_less_le take_take add.commute)
    ultimately show ?thesis
      using split nle wait bs(7) upd cb_copy_out_wrapped [OF assms(1) split(3) assms(2) a b]
      by (simp add: cb_read_def Let_def word_le_nat_alt word_less_nat_alt)
  next
    case plain
    have "?W = ?R + length q" by (rule pos(1) [OF plain])
    moreover have "?W < ?N" using bs(1,5) by simp
    ultimately have "?R + ?k \<le> ?N" and "(?R + ?k) mod ?N = ?R + ?k" using assms(2) by auto
    with plain wait adv upd cb_copy_out_contiguous [OF assms(1) _ assms(2)] show ?thesis
      by (simp add: cb_read_def word_le_nat_alt word_less_nat_alt)
  next
    case none
    then have "len = 0" using assms(2) by (simp add: unat_eq_zero)
    with none wait bs(7) assms(1) show ?thesis
      by (simp add: cb_read_def word_le_nat_alt word_less_nat_alt)
  qed
qed

lemma cb_read_blocks: "cb_repr cb q \<Longrightarrow> length q < unat len \<Longrightarrow> cb_read cb len = Inl Would_Block"
  using cb_repr_bounds(7) [of cb q] by (simp add: cb_read_def word_le_nat_alt)

lemma cb_can_read_n_iff: "cb_repr cb q \<Longrightarrow> cb_can_read_n cb len \<longleftrightarrow> unat len \<le> length q"
  using cb_repr_bounds(7) [of cb q] by (simp add: cb_can_read_n_def word_le_nat_alt)

section \<open>Growing and writing\<close>

lemma cb_wf_pos: "cb_repr cb q \<Longrightarrow> n_size cb \<noteq> 0"
  using cb_repr_bounds(1) by fastforce

lemma cb_put_ok:
  assumes "cb_repr cb q" and "length q + length d \<le> unat (n_size cb)"
  shows "\<exists>cb'. cb_put cb d = Inr cb' \<and> cb_repr cb' (q @ d) \<and> n_size cb' = n_size cb"
proof -
  let ?N = "unat (n_size cb)" and ?R = "unat (r_pos cb)" and ?W = "unat (w_pos cb)" and ?k = "length d"
  let ?len = "word_of_nat ?k :: u64"
  note bs = cb_repr_bounds [OF assms(1)]
  note pos = ring_position [OF bs(1,2,5)]
  have len: "unat ?len = ?k" using assms(2) bs(4) by (intro unat_u64_of_nat) simp
  have wlt: "?W < ?N" using bs(1,5) by simp
  have len_n: "?len \<le> n_size cb" using assms(2) len by (simp add: word_le_nat_alt)
  have rem: "unat (remain_space cb - ?len) = ?N - length (q @ d)"
    using assms(2) len bs(3) by (subst unat_u64_sub) (simp_all add: word_le_nat_alt)
  have adv: "unat (w_pos cb + ?len) = ?W + ?k"
    using assms(2) len wlt bs(4) by (subst unat_u64_add) simp_all
  have stored: "cb_repr (cb\<lparr>cells := m, w_pos := w, remain_space := remain_space cb - ?len\<rparr>) (q @ d)"
    if "ring_upd ?N (cells cb) ?W d m" and "unat w = (?W + ?k) mod ?N" for m w
  proof (rule cb_reprI)
    let ?cb = "cb\<lparr>cells := m, w_pos := w, remain_space := remain_space cb - ?len\<rparr>"
    show "unat (w_pos ?cb) = (unat (r_pos ?cb) + length (q @ d)) mod unat (n_size ?cb)"
      using that(2) bs(5) by (simp add: mod_add_left_eq add.assoc)
    have "ring ?N m ?R (length q + ?k) = map Some (q @ d)"
      using that(1) assms(2) bs(5,6) by (intro ring_upd_append) simp_all
    then show "ring (unat (n_size ?cb)) (cells ?cb) (unat (r_pos ?cb)) (length (q @ d)) = map Some (q @ d)"
      by simp
  qed (use assms(2) bs(1,4) rem in simp_all)
  consider (contig) "?R \<le> ?W" "0 < unat (remain_space cb)" "?W + ?k \<le> ?N"
    | (split) "?R \<le> ?W" "0 < unat (remain_space cb)" "?N < ?W + ?k"
    | (plain) "?W < ?R" | (full) "?R \<le> ?W" "unat (remain_space cb) = 0"
    by linarith
  then show ?thesis
  proof cases
    case contig
    have "w_pos cb \<le> n_size cb - ?len" using contig len_n len by (simp add: word_le_nat_alt io_simps)
    moreover have "unat ((w_pos cb + ?len) mod n_size cb) = (?W + ?k) mod ?N"
      using adv by (simp add: unat_mod_distrib)
    ultimately show ?thesis
      using contig cb_wf_pos [OF assms(1)] stored ring_upd_contiguous [OF contig(3)]
      by (simp add: cb_put_def cb_copy_in_def umod_def mem_write_ok Let_def word_le_nat_alt word_less_nat_alt)
  next
    case split
    let ?a = "n_size cb - w_pos cb"
    have a: "unat ?a = ?N - ?W" using wlt by (intro unat_u64_sub) (simp add: word_le_nat_alt)
    have "?a \<le> ?len" using split a len by (simp add: word_le_nat_alt)
    then have b: "unat (?len - ?a) = ?k - unat ?a" using len by (simp add: unat_u64_sub)
    have nle: "\<not> w_pos cb \<le> n_size cb - ?len" using split len_n len by (simp add: word_le_nat_alt io_simps)
    have "(?W + ?k) mod ?N = ?W + ?k - ?N" using split assms(2) wlt by (simp add: mod_if)
    then have w: "unat (?len - ?a) = (?W + ?k) mod ?N" using a b wlt by simp
    have ka: "?N - ?W \<le> ?k" and kn: "?k \<le> ?N" using split assms(2) by simp_all
    have "(\<lambda>i. if i < ?k + ?W - ?N then Some (drop (?N - ?W) d ! (i - 0))
          else if ?W \<le> i \<and> i < ?N then Some (take (?N - ?W) d ! (i - ?W)) else cells cb i)
        = (\<lambda>i. if i < ?k + ?W - ?N then Some (d ! (?N - ?W + i))
          else if ?W \<le> i \<and> i < ?N then Some (d ! (i - ?W)) else cells cb i)"
      using ka wlt by (intro ext) (auto simp: diff_less_mono)
    then show ?thesis
      using split nle stored [OF ring_upd_split [OF wlt split(3) kn] w] a b ka kn wlt
      by (simp add: cb_put_def cb_copy_in_def mem_slice_ok mem_write_ok word_le_nat_alt word_less_nat_alt Let_def)
  next
    case plain
    have "0 < length q" using plain bs(1,5) by (cases q) auto
    then have "?W + ?N = ?R + length q" using pos(2) plain by simp
    then have "?W + ?k \<le> ?R" using assms(2) by simp
    then have c: "?W + ?k \<le> ?N" and "(?W + ?k) mod ?N = ?W + ?k" using bs(1) by auto
    with plain adv stored ring_upd_contiguous [OF c] show ?thesis
      by (simp add: cb_put_def cb_copy_in_def mem_write_ok Let_def word_le_nat_alt word_less_nat_alt)
  next
    case full
    then have "length d = 0" using assms(2) bs(2,3) by simp
    then have "d = []" by simp
    with full stored [of "cells cb" "w_pos cb"] wlt show ?thesis
      by (simp add: cb_put_def ring_upd_def Let_def word_le_nat_alt word_less_nat_alt)
  qed
qed

text \<open>The size \<open>realloc\<close> picks: no wrap-around below \<open>2 ^ 61\<close> bytes of content, and room enough.\<close>

definition cb_limit :: nat where
  "cb_limit = 2 ^ 61"

lemma realloc_size:
  fixes n len :: u64
  assumes "n \<noteq> 0" and "unat n \<le> cb_limit" and "unat len \<le> cb_limit"
  shows "unat (n * (len div n + 2)) = unat n * (unat len div unat n + 2)"
    and "unat n + unat len \<le> unat n * (unat len div unat n + 2)"
    and "unat n * (unat len div unat n + 2) \<le> unat len + 2 * unat n"
proof -
  let ?N = "unat n" and ?L = "unat len"
  have N: "0 < ?N" using assms(1) by (simp add: unat_gt_0)
  have div: "unat (len div n) = ?L div ?N" by (rule unat_div_distrib)
  show le: "?N * (?L div ?N + 2) \<le> ?L + 2 * ?N"
    using times_div_less_eq_dividend [of ?N ?L] by (simp add: algebra_simps)
  show "?N + ?L \<le> ?N * (?L div ?N + 2)"
    using dividend_less_times_div [OF N, of ?L] by (simp add: algebra_simps)
  have "?L div ?N \<le> 2 ^ 61" using le_trans [OF div_le_dividend assms(3)] by (simp only: cb_limit_def)
  then have "unat (len div n + 2) = ?L div ?N + 2"
    using div by (subst unat_u64_add) simp_all
  moreover have "?L + 2 * ?N < 2 ^ LENGTH(64)" using assms(2,3) by (simp add: cb_limit_def)
  then have "?N * (?L div ?N + 2) < 2 ^ LENGTH(64)" using le by linarith
  ultimately show "unat (n * (len div n + 2)) = ?N * (?L div ?N + 2)"
    using unat_mult_lem [of n "len div n + 2"] by simp
qed

lemma cb_repr_packed:
  assumes "m = (\<lambda>i. if i < length q then Some (q ! i) else None)"
    and "length q < unat n" and "unat n \<le> cb_max" and "unat w = length q"
  shows "cb_repr \<lparr>r_pos = 0, w_pos = w, n_size = n, remain_space = n - w, cells = m\<rparr> q"
proof (rule cb_reprI)
  let ?cb = "\<lparr>r_pos = 0, w_pos = w, n_size = n, remain_space = n - w, cells = m\<rparr>"
  show "unat (remain_space ?cb) = unat (n_size ?cb) - length q"
    using assms by (simp add: io_simps word_le_nat_alt)
  show "ring (unat (n_size ?cb)) (cells ?cb) (unat (r_pos ?cb)) (length q) = map Some q"
    using assms(1,2) by (auto intro: nth_equalityI)
qed (use assms in simp_all)

lemma memcpy_copy_out:
  "memcpy cap m doff (unat (n_size cb)) (cells cb) (unat off) (unat len) =
     bindE (cb_copy_out cb off len) (mem_write cap m doff)"
  by (simp add: memcpy_def cb_copy_out_def)

lemma memcpy_copy_out_0:
  "memcpy cap m doff (unat (n_size cb)) (cells cb) 0 (unat len) =
     bindE (cb_copy_out cb 0 len) (mem_write cap m doff)"
  by (simp add: memcpy_def cb_copy_out_def)

lemma cb_realloc_ok:
  assumes "cb_repr cb q" and "length q + unat len \<le> cb_limit"
  shows "\<exists>cb'. cb_realloc cb len = Inr cb' \<and> cb_repr cb' q \<and> length q + unat len \<le> unat (n_size cb')"
proof (cases "len \<le> remain_space cb")
  case True
  with assms(1) cb_repr_bounds(2,3) [OF assms(1)] show ?thesis
    by (simp add: cb_realloc_def word_le_nat_alt)
next
  case False
  let ?N = "unat (n_size cb)" and ?R = "unat (r_pos cb)" and ?W = "unat (w_pos cb)"
  let ?new = "n_size cb * (len div n_size cb + 2)"
  let ?m = "\<lambda>i. if i < length q then Some (q ! i) else None"
  note bs = cb_repr_bounds [OF assms(1)]
  note pos = ring_position [OF bs(1,2,5)]
  have small: "?N \<le> cb_limit" "unat len \<le> cb_limit" and n0: "n_size cb \<noteq> 0"
    using False assms(2) bs(1,3) by (auto simp: word_le_nat_alt)
  note new = realloc_size [OF n0 small]
  have size: "unat (cb_size cb) = length q" using bs(7) by (simp add: cb_size_def)
  have room: "length q + unat len \<le> unat ?new" using new(1,2) bs(2) by simp
  have "unat len + 2 * ?N \<le> cb_max" using small by (simp add: cb_limit_def)
  with new(1,3) have max: "unat ?new \<le> cb_max" by linarith
  have "0 < unat len" using False bs(3) by (simp add: word_le_nat_alt)
  with room have fits: "length q < unat ?new" by simp
  have repr: "cb_repr \<lparr>r_pos = 0, w_pos = cb_size cb, n_size = ?new,
      remain_space = ?new - cb_size cb, cells = ?m\<rparr> q"
    by (rule cb_repr_packed [OF refl fits max size])
  have whole: "cb_copy_out cb (r_pos cb) (cb_size cb) = Inr q" if "?R + length q \<le> ?N"
    using cb_copy_out_contiguous [OF assms(1) that _ size] by simp
  have pack: "mem_write (unat ?new) Map.empty 0 q = Inr ?m"
    using fits by (auto simp: mem_write_ok)
  consider (plain) "?R < ?W" | (wrapped) "?W \<le> ?R" "0 < length q" | (none) "?W \<le> ?R" "length q = 0"
    by linarith
  then show ?thesis
  proof cases
    case plain
    have "?R + length q \<le> ?N" using pos(1) [OF plain] bs(1,5) by (metis less_imp_le mod_less_divisor
          less_nat_zero_code not_gr_zero)
    with plain False n0 repr room whole pack show ?thesis
      by (simp add: cb_realloc_def udiv_def memcpy_copy_out Let_def word_less_nat_alt)
  next
    case none
    then have "?m = Map.empty" by auto
    with none False n0 repr room size show ?thesis
      by (simp add: cb_realloc_def udiv_def Let_def word_less_nat_alt)
  next
    case wrapped
    let ?a = "n_size cb - r_pos cb"
    have a: "unat ?a = ?N - ?R" using bs(1) by (intro unat_u64_sub) (simp add: word_le_nat_alt)
    have ge: "?N - ?R \<le> length q" using pos(2) [OF wrapped] bs(1) by simp
    show ?thesis
    proof (cases "?N - ?R < length q")
      case True
      then have lt: "?N < ?R + length q" by simp
      have "?a \<le> cb_size cb" using ge a size by (simp add: word_le_nat_alt)
      then have b: "unat (cb_size cb - ?a) = length q - unat ?a" using size by (simp add: unat_u64_sub)
      have "(\<lambda>i. if ?N - ?R \<le> i \<and> i < length q then Some (drop (?N - ?R) q ! (i - (?N - ?R)))
           else if i < ?N - ?R then Some (take (?N - ?R) q ! (i - 0)) else None) = ?m"
        using ge by auto
      moreover note copies = cb_copy_out_wrapped [OF assms(1) lt _ a b]
      moreover have "memcpy (unat ?new) m doff ?N (cells cb) 0 (length q - (?N - ?R))
          = mem_write (unat ?new) m doff (drop (?N - ?R) q)" for m doff
        using memcpy_copy_out_0 [of "unat ?new" m doff cb "cb_size cb - ?a"] copies(2) a b by simp
      ultimately show ?thesis using wrapped True False n0 repr room a b size ge fits
        by (simp add: cb_realloc_def udiv_def memcpy_copy_out Let_def word_less_nat_alt mem_write_ok)
    next
      case eq: False
      with ge a size bs(1) have "?a = cb_size cb" and "?R + length q \<le> ?N"
        by (simp_all add: word_unat_eq_iff)
      with wrapped False n0 repr room whole pack size show ?thesis
        by (simp add: cb_realloc_def udiv_def memcpy_copy_out Let_def word_less_nat_alt)
    qed
  qed
qed

lemma cb_write_ok:
  assumes "cb_repr cb q" and "length q + length d \<le> cb_limit"
  shows "\<exists>cb'. cb_write cb d = Inr (word_of_nat (length d), cb') \<and> cb_repr cb' (q @ d)"
proof -
  let ?len = "word_of_nat (length d) :: u64"
  have len: "unat ?len = length d" using assms(2) by (intro unat_u64_of_nat) (simp add: cb_limit_def)
  obtain cb1 where r: "cb_realloc cb ?len = Inr cb1" "cb_repr cb1 q"
    and room: "length q + length d \<le> unat (n_size cb1)"
    using cb_realloc_ok [OF assms(1), of ?len] assms(2) len by auto
  obtain cb2 where "cb_put cb1 d = Inr cb2" "cb_repr cb2 (q @ d)"
    using cb_put_ok [OF r(2) room] by auto
  moreover have "?len \<le> remain_space cb1"
    using room len cb_repr_bounds(3) [OF r(2)] by (simp add: word_le_nat_alt)
  ultimately show ?thesis using r(1) by (simp add: cb_write_def Let_def)
qed

lemma cb_new_repr: "n \<noteq> 0 \<Longrightarrow> unat n \<le> cb_max \<Longrightarrow> cb_repr (cb_new n) []"
  by (rule cb_reprI) (simp_all add: cb_new_def unat_gt_0 ring_def)

lemma cb_reset_repr: "cb_repr cb q \<Longrightarrow> cb_repr (cb_reset cb) []"
  using cb_repr_bounds(1,4) [of cb q] by (intro cb_reprI) (simp_all add: cb_reset_def ring_def)

lemma cb_peek_of_read: "cb_read cb len = Inr (l, d, cb') \<Longrightarrow> cb_peek cb len = Inr (len, d)"
  by (auto simp: cb_read_def cb_peek_def bindE_eq_Inr Let_def split: if_splits)

lemma cb_repr_unique: "cb_repr cb q \<Longrightarrow> cb_repr cb q' \<Longrightarrow> q = q'"
  unfolding cb_repr_def by (metis map_injective option.inject inj_def)

section \<open>The ring buffer is a byte queue\<close>

interpretation cb: byte_queue cb_repr cb_write cb_read cb_size cb_limit
proof unfold_locales
  show "\<exists>b'. cb_read b k = Inr (k, take (unat k) q, b') \<and> cb_repr b' (drop (unat k) q)"
    if "cb_repr b q" "unat k \<le> length q" for b q k
    using cb_read_ok [OF that] by auto
qed (auto intro: cb_write_ok cb_read_blocks cb_repr_size cb_repr_unique)

section \<open>Properties\<close>

text \<open>C7: a fresh ring buffer behaves as a first-in-first-out queue of bytes. Any sequence of writes
  and reads, of any sizes and around the end of the block as often as it happens, gives exactly the
  results of the same calls on a byte string: a read returns the oldest bytes, and a read of more
  bytes than are buffered waits. No call touches memory outside the block.\<close>

theorem cycle_buffer_is_fifo:
  assumes "n \<noteq> 0" and "unat n \<le> cb_max" and "within cb_limit ops []"
  shows "case spec_run ops [] of
      Inl e \<Rightarrow> run_ops cb_write cb_read ops (cb_new n) = Inl e
    | Inr (ds, q) \<Rightarrow> \<exists>b. run_ops cb_write cb_read ops (cb_new n) = Inr (ds, b) \<and> cb_repr b q"
  by (rule cb.run_ops_refines [OF cb_new_repr [OF assms(1,2)] assms(3)])

theorem cycle_buffer_is_fifo_witness:
  "\<exists>b. run_ops cb_write cb_read [Put ''abc'', Get 2, Put ''defgh'', Get 6] (cb_new 4) =
     Inr ([''ab'', ''cdefgh''], b) \<and> cb_repr b []"
  using cycle_buffer_is_fifo [of 4 "[Put ''abc'', Get 2, Put ''defgh'', Get 6]"]
  by (simp add: cb_limit_def)

text \<open>No byte is lost, duplicated or reordered: after any run of writes and reads that returns,
  the bytes the reads returned followed by the bytes still buffered are the bytes written.\<close>

theorem cycle_buffer_keeps_bytes:
  assumes "n \<noteq> 0" and "unat n \<le> cb_max" and "within cb_limit ops []"
    and "run_ops cb_write cb_read ops (cb_new n) = Inr (ds, b)"
  shows "\<exists>q. cb_repr b q \<and> unat (cb_size b) = length q \<and> concat ds @ q = puts ops"
proof -
  from cb.run_ops_refines [OF cb_new_repr [OF assms(1,2)] assms(3)] assms(4)
  obtain q where "spec_run ops [] = Inr (ds, q)" "cb_repr b q"
    by (cases "spec_run ops []") auto
  then show ?thesis using spec_run_fifo [of ops "[]" ds q] cb_repr_size by auto
qed

theorem cycle_buffer_keeps_bytes_witness:
  "\<exists>b q. run_ops cb_write cb_read [Put ''abc'', Get 1] (cb_new 2) = Inr ([''a''], b) \<and>
     cb_repr b q \<and> concat [''a''] @ q = ''abc''"
proof -
  obtain b where b: "run_ops cb_write cb_read [Put ''abc'', Get 1] (cb_new 2) = Inr ([''a''], b)"
    using cb.run_ops_refines [OF cb_new_repr [of 2], of "[Put ''abc'', Get 1]"]
    by (auto simp: cb_limit_def)
  then show ?thesis
    using cycle_buffer_keeps_bytes [OF _ _ _ b] by (fastforce simp: cb_limit_def)
qed

text \<open>C35: growing never loses content and makes room: \<open>realloc\<close> keeps the bytes buffered, whether
  they lie straight or around the end of the block, and leaves room for the length asked for.\<close>

theorem realloc_keeps_content:
  assumes "cb_repr cb q" and "length q + unat len \<le> cb_limit"
  shows "\<exists>cb'. cb_realloc cb len = Inr cb' \<and> cb_repr cb' q \<and> len \<le> remain_space cb' \<and>
    (\<not> len \<le> remain_space cb \<longrightarrow> 2 * unat (n_size cb) \<le> unat (n_size cb'))"
proof -
  obtain cb' where r: "cb_realloc cb len = Inr cb'" "cb_repr cb' q"
    and room: "length q + unat len \<le> unat (n_size cb')"
    using cb_realloc_ok [OF assms] by blast
  have "len \<le> remain_space cb'"
    using room cb_repr_bounds(3) [OF r(2)] by (simp add: word_le_nat_alt)
  moreover have "2 * unat (n_size cb) \<le> unat (n_size cb')" if "\<not> len \<le> remain_space cb"
  proof -
    have n: "n_size cb' = n_size cb * (len div n_size cb + 2)"
      using r(1) that by (auto simp: cb_realloc_def bindE_eq_Inr udiv_def Let_def split: if_splits)
    have "unat (n_size cb) \<le> cb_limit" "unat len \<le> cb_limit"
      using that assms cb_repr_bounds(1,3) [OF assms(1)] by (auto simp: word_le_nat_alt)
    from realloc_size(1) [OF cb_wf_pos [OF assms(1)] this] n show ?thesis by simp
  qed
  ultimately show ?thesis using r by blast
qed

theorem realloc_keeps_content_witness:
  "\<exists>cb'. cb_realloc (cb_new 4) 9 = Inr cb' \<and> cb_repr cb' [] \<and> 9 \<le> remain_space cb'"
  using realloc_keeps_content [of "cb_new 4" "[]" 9] cb_new_repr [of 4] by (auto simp: cb_limit_def)

text \<open>\<open>peek\<close> sees what \<open>read\<close> would take and takes nothing: it returns the oldest bytes, or waits
  exactly when fewer are buffered than asked for.\<close>

theorem peek_sees_next_bytes:
  assumes "cb_repr cb q"
  shows "cb_peek cb len =
    (if unat len \<le> length q then Inr (len, take (unat len) q) else Inl Would_Block)"
  using cb_read_ok [OF assms, of len] cb_peek_of_read [of cb len] cb_repr_bounds(7) [OF assms]
  by (auto simp: cb_peek_def word_le_nat_alt)

theorem peek_sees_next_bytes_witness: "cb_peek (cb_new 8) 3 = Inl Would_Block"
  using peek_sees_next_bytes [of "cb_new 8" "[]" 3] cb_new_repr [of 8] by simp

end
