(* ===== verification/Framing.thy ===== *)
theory Framing
  imports Cycle_Buffer
begin

text \<open>
  The wire format of one message: \<open>simple_buffer\<close> (\<open>simple_buffer.h\<close>) packs it, and the overloads
  of \<open>cycle_buffer::can_read\<close> and \<open>cycle_buffer::read\<close> without a length (\<open>cycle_buffer.cpp\<close>) unpack it
  from the receive buffer. A message is the total length (eight bytes, little-endian), one plus the
  length of the message id (one byte, so it wraps at 256), the id, and the payload.

  \<open>parse_frame\<close> is the same function on the abstract content of the ring buffer;
  \<open>cb_read_msg_refines\<close> shows that the code computes it whatever the position of the content in
  the ring.
\<close>

section \<open>Packing\<close>

definition pack :: "bytes \<Rightarrow> bytes \<Rightarrow> bytes" where
  "pack mid data =
    (let len = word_of_nat (8 + 1 + length mid + length data) :: u64;
         id_len = word_of_nat (1 + length mid) :: u8
     in u64_bytes len @ [char_of (unat id_len)] @ mid @ data)"

lemma length_pack [simp]: "length (pack mid data) = 9 + length mid + length data"
  by (simp add: pack_def Let_def)

section \<open>Unpacking from the ring buffer\<close>

text \<open>\<open>std::string::resize\<close> throws \<open>std::length_error\<close> above \<open>max_size()\<close>.\<close>

definition string_max_size :: nat where
  "string_max_size = 2 ^ 62 - 1"

definition resize :: "u64 \<Rightarrow> nat res" where
  "resize k = (if unat k \<le> string_max_size then Inr (unat k) else Inl Length_Error)"

text \<open>The eight bytes of the length prefix, straight or around the end of the block.\<close>

definition cb_header :: "cycle_buffer \<Rightarrow> bytes res" where
  "cb_header cb =
    (if r_pos cb \<le> n_size cb - 8 then cb_copy_out cb (r_pos cb) 8
     else (let remain_len = n_size cb - r_pos cb in
       bindE (cb_copy_out cb (r_pos cb) remain_len) (\<lambda>d1.
       bindE (cb_copy_out cb 0 (8 - remain_len)) (\<lambda>d2. Inr (d1 @ d2)))))"

text \<open>\<open>cycle_buffer::can_read()\<close>: a whole message is buffered.\<close>

definition cb_can_read :: "cycle_buffer \<Rightarrow> bool res" where
  "cb_can_read cb =
    (if 8 + 1 < n_size cb - remain_space cb then
       if r_pos cb < w_pos cb then
         bindE (cb_copy_out cb (r_pos cb) 8) (\<lambda>l.
           Inr (bytes_u64 l \<le> n_size cb - remain_space cb))
       else if 0 < n_size cb - remain_space cb then
         bindE (cb_header cb) (\<lambda>l. Inr (bytes_u64 l \<le> n_size cb - remain_space cb))
       else Inr False
     else Inr False)"

text \<open>The end of \<open>cycle_buffer::read(string&, string&)\<close>: the id and the payload of the message
  \<open>tmp\<close>. A \<open>std::string\<close> owns one more readable character, the terminator.\<close>

definition split_msg :: "u64 \<Rightarrow> bytes \<Rightarrow> (bytes \<times> bytes) res" where
  "split_msg len tmp =
    (let len2 = word_of_nat (of_char (tmp ! 8)) :: u64 in
     bindE (resize (len2 - 1)) (\<lambda>id_size.
     bindE (mem_slice (tmp @ [CHR 0x00]) 9 id_size) (\<lambda>mid.
     bindE (resize (len - 8 - len2)) (\<lambda>data_size.
     bindE (mem_slice (tmp @ [CHR 0x00]) (8 + unat len2) data_size) (\<lambda>data. Inr (mid, data))))))"

text \<open>The first half of \<open>cycle_buffer::read(string& id, string& data, \<dots>)\<close>: the locals \<open>len\<close> and \<open>tmp\<close>.\<close>

definition cb_fetch_msg :: "cycle_buffer \<Rightarrow> (u64 \<times> bytes) res" where
  "cb_fetch_msg cb =
    (if r_pos cb < w_pos cb then
       bindE (cb_copy_out cb (r_pos cb) 8) (\<lambda>l.
       let len = bytes_u64 l in
       if len \<le> n_size cb - remain_space cb then
         bindE (resize len) (\<lambda>_. bindE (cb_copy_out cb (r_pos cb) len) (\<lambda>tmp. Inr (len, tmp)))
       else Inr (len, []))
     else if 0 < n_size cb - remain_space cb then
       bindE (cb_header cb) (\<lambda>l.
       let len = bytes_u64 l in
       if len \<le> n_size cb - remain_space cb then
         bindE (resize len) (\<lambda>_.
         if len \<le> n_size cb - r_pos cb then
           bindE (cb_copy_out cb (r_pos cb) len) (\<lambda>tmp. Inr (len, tmp))
         else
           bindE (cb_copy_out cb (r_pos cb) (n_size cb - r_pos cb)) (\<lambda>d1.
           bindE (cb_copy_out cb 0 (len - (n_size cb - r_pos cb))) (\<lambda>d2. Inr (len, d1 @ d2))))
       else Inr (len, []))
     else Inr (0, []))"

text \<open>The whole operation returns the size consumed; \<open>id\<close> and \<open>data\<close> keep their value when no
  message is consumed.\<close>

definition cb_read_msg :: "cycle_buffer \<Rightarrow> bytes \<Rightarrow> bytes \<Rightarrow> (nat \<times> bytes \<times> bytes \<times> cycle_buffer) res" where
  "cb_read_msg cb mid data =
    (if 8 + 1 < n_size cb - remain_space cb then
       bindE (cb_fetch_msg cb) (\<lambda>(len, tmp).
       if 8 + 1 < length tmp then
         bindE (split_msg len tmp) (\<lambda>(mid', data').
         bindE (umod (r_pos cb + len) (n_size cb)) (\<lambda>r.
           Inr (length tmp, mid', data',
             cb\<lparr>r_pos := r, remain_space := remain_space cb + len\<rparr>)))
       else Inr (0, mid, data, cb))
     else Inr (0, mid, data, cb))"

section \<open>The same on the abstract content\<close>

definition frame_ready :: "bytes \<Rightarrow> bool" where
  "frame_ready q \<longleftrightarrow> 9 < length q \<and> unat (bytes_u64 (take 8 q)) \<le> length q"

definition parse_frame :: "bytes \<Rightarrow> bytes \<Rightarrow> bytes \<Rightarrow> (nat \<times> bytes \<times> bytes \<times> bytes) res" where
  "parse_frame mid data q =
    (if \<not> frame_ready q then Inr (0, mid, data, q)
     else let len = bytes_u64 (take 8 q); tmp = take (unat len) q in
       bindE (resize len) (\<lambda>_.
       if 9 < length tmp then
         bindE (split_msg len tmp) (\<lambda>(mid', data'). Inr (length tmp, mid', data', drop (unat len) q))
       else Inr (0, mid, data, q)))"

lemma cb_header_ok:
  assumes "cb_repr cb q" and "9 < length q"
  shows "cb_header cb = Inr (take 8 q)"
proof -
  note bs = cb_repr_bounds [OF assms(1)]
  have n8: "8 \<le> n_size cb" using assms(2) bs(2) by (simp add: word_le_nat_alt)
  show ?thesis
  proof (cases "unat (r_pos cb) + 8 \<le> unat (n_size cb)")
    case True
    then have "r_pos cb \<le> n_size cb - 8" using n8 by (simp add: word_le_nat_alt io_simps)
    with True cb_copy_out_contiguous [OF assms(1) True _, of 8] assms(2) show ?thesis
      by (simp add: cb_header_def)
  next
    case False
    let ?a = "n_size cb - r_pos cb"
    from False have lt: "unat (n_size cb) < unat (r_pos cb) + 8" by simp
    have a: "unat ?a = unat (n_size cb) - unat (r_pos cb)"
      using bs(1) by (intro unat_u64_sub) (simp add: word_le_nat_alt)
    then have "?a \<le> 8" using lt by (simp add: word_le_nat_alt)
    then have b: "unat (8 - ?a) = 8 - unat ?a" by (simp add: unat_u64_sub)
    have "\<not> r_pos cb \<le> n_size cb - 8" using False n8 by (simp add: word_le_nat_alt io_simps)
    moreover have "take (unat ?a) q @ drop (unat ?a) (take 8 q) = take 8 q"
      using a lt by (metis append_take_drop_id le_diff_conv min.absorb1 nat_less_le take_take add.commute)
    moreover note cb_copy_out_wrapped [OF assms(1) lt _ a b]
    ultimately show ?thesis using assms(2) by (simp add: cb_header_def Let_def)
  qed
qed

text \<open>Shared by both overloads: where the prefix and the message are in the ring.\<close>

lemma cb_plain:
  assumes "cb_repr cb q" and "r_pos cb < w_pos cb" and "unat k \<le> length q"
  shows "cb_copy_out cb (r_pos cb) k = Inr (take (unat k) q)"
proof -
  note bs = cb_repr_bounds [OF assms(1)]
  have "unat (w_pos cb) = unat (r_pos cb) + length q"
    using ring_position(1) [OF bs(1,2,5)] assms(2) by (simp add: word_less_nat_alt)
  moreover have "unat (w_pos cb) < unat (n_size cb)" using bs(1,5) by simp
  ultimately show ?thesis using assms by (intro cb_copy_out_contiguous) simp_all
qed

lemma cb_wrapped:
  assumes "cb_repr cb q" and "unat k \<le> length q"
  shows "(if k \<le> n_size cb - r_pos cb then bindE (cb_copy_out cb (r_pos cb) k) f
     else bindE (cb_copy_out cb (r_pos cb) (n_size cb - r_pos cb)) (\<lambda>d1.
          bindE (cb_copy_out cb 0 (k - (n_size cb - r_pos cb))) (\<lambda>d2. f (d1 @ d2))))
     = f (take (unat k) q)"
proof -
  note bs = cb_repr_bounds [OF assms(1)]
  let ?a = "n_size cb - r_pos cb"
  have a: "unat ?a = unat (n_size cb) - unat (r_pos cb)"
    using bs(1) by (intro unat_u64_sub) (simp add: word_le_nat_alt)
  show ?thesis
  proof (cases "k \<le> ?a")
    case True
    then have "unat (r_pos cb) + unat k \<le> unat (n_size cb)"
      using a bs(1) by (simp add: word_le_nat_alt)
    from cb_copy_out_contiguous [OF assms(1) this assms(2) refl] True show ?thesis by simp
  next
    case False
    then have lt: "unat (n_size cb) < unat (r_pos cb) + unat k" and "?a \<le> k"
      using a bs(1) by (auto simp: word_le_nat_alt)
    then have b: "unat (k - ?a) = unat k - unat ?a" by (simp add: unat_u64_sub)
    have "take (unat ?a) q @ drop (unat ?a) (take (unat k) q) = take (unat k) q"
      using a lt by (metis append_take_drop_id le_diff_conv min.absorb1 nat_less_le take_take add.commute)
    with False cb_copy_out_wrapped [OF assms(1) lt assms(2) a b] show ?thesis by simp
  qed
qed

lemma cb_can_read_ok: "cb_repr cb q \<Longrightarrow> cb_can_read cb = Inr (frame_ready q)"
  using cb_repr_bounds(7) [of cb q] cb_header_ok [of cb q] cb_plain [of cb q 8]
  by (auto simp: cb_can_read_def frame_ready_def word_less_nat_alt word_le_nat_alt)

lemma cb_fetch_msg_ok:
  assumes "cb_repr cb q" and "9 < length q"
  shows "cb_fetch_msg cb = (let len = bytes_u64 (take 8 q) in
     if unat len \<le> length q then bindE (resize len) (\<lambda>_. Inr (len, take (unat len) q))
     else Inr (len, []))"
proof -
  let ?len = "bytes_u64 (take 8 q)"
  have le: "?len \<le> n_size cb - remain_space cb \<longleftrightarrow> unat ?len \<le> length q"
    using cb_repr_bounds(7) [OF assms(1)] by (simp add: word_le_nat_alt)
  have pos: "0 < n_size cb - remain_space cb"
    using cb_repr_bounds(7) [OF assms(1)] assms(2) by (auto simp: word_less_nat_alt)
  show ?thesis
  proof (cases "r_pos cb < w_pos cb")
    case True
    with cb_plain [OF assms(1) True, of 8] cb_plain [OF assms(1) True, of ?len] assms(2) le
    show ?thesis by (simp add: cb_fetch_msg_def Let_def)
  next
    case False
    with cb_header_ok [OF assms] cb_wrapped [OF assms(1), of ?len "\<lambda>tmp. Inr (?len, tmp)"] le pos
    show ?thesis by (simp add: cb_fetch_msg_def Let_def)
  qed
qed

lemma cb_consume:
  assumes "cb_repr cb q" and "unat k \<le> length q"
  shows "\<exists>r. umod (r_pos cb + k) (n_size cb) = Inr r \<and>
     cb_repr (cb\<lparr>r_pos := r, remain_space := remain_space cb + k\<rparr>) (drop (unat k) q)"
proof -
  note bs = cb_repr_bounds [OF assms(1)]
  have "unat (r_pos cb + k) = unat (r_pos cb) + unat k"
    using assms(2) bs(1,2,4) by (intro unat_u64_add) simp
  then have "unat ((r_pos cb + k) mod n_size cb) = (unat (r_pos cb) + unat k) mod unat (n_size cb)"
    by (simp add: unat_mod_distrib)
  moreover have "unat (remain_space cb + k) = unat (remain_space cb) + unat k"
    using assms(2) bs(2,3,4) by (intro unat_u64_add) simp
  ultimately show ?thesis
    using cb_repr_advance [OF assms] cb_wf_pos [OF assms(1)] by (simp add: umod_def)
qed

lemma cb_read_msg_refines:
  assumes "cb_repr cb q"
  shows "case parse_frame mid data q of
     Inl e \<Rightarrow> cb_read_msg cb mid data = Inl e
   | Inr (k, i, d, q') \<Rightarrow> \<exists>cb'. cb_read_msg cb mid data = Inr (k, i, d, cb') \<and> cb_repr cb' q'"
proof -
  let ?len = "bytes_u64 (take 8 q)"
  have nine: "8 + 1 < n_size cb - remain_space cb \<longleftrightarrow> 9 < length q"
    using cb_repr_bounds(7) [OF assms] by (simp add: word_less_nat_alt)
  show ?thesis
  proof (cases "frame_ready q")
    case False
    then show ?thesis
      using assms nine cb_fetch_msg_ok [OF assms]
      by (auto simp: parse_frame_def cb_read_msg_def frame_ready_def Let_def)
  next
    case True
    then have q9: "9 < length q" and le: "unat ?len \<le> length q" by (auto simp: frame_ready_def)
    obtain r where "umod (r_pos cb + ?len) (n_size cb) = Inr r"
      and "cb_repr (cb\<lparr>r_pos := r, remain_space := remain_space cb + ?len\<rparr>) (drop (unat ?len) q)"
      using cb_consume [OF assms le] by auto
    with True nine q9 le cb_fetch_msg_ok [OF assms q9] assms show ?thesis
      by (cases "resize ?len"; cases "split_msg ?len (take (unat ?len) q)")
        (auto simp: parse_frame_def cb_read_msg_def Let_def)
  qed
qed

section \<open>Packing and unpacking\<close>

lemma take_pack_header:
  "9 + length mid + length data < 2 ^ 64 \<Longrightarrow>
    unat (bytes_u64 (take 8 (pack mid data @ rest))) = 9 + length mid + length data"
  by (simp add: pack_def Let_def unat_u64_of_nat del: of_nat_add of_nat_Suc)

lemma nth_pack_8: "pack mid data ! 8 = char_of ((1 + length mid) mod 256)"
  by (simp add: pack_def Let_def nth_append unat_of_nat del: of_nat_add of_nat_Suc)

text \<open>What the receiver makes of a complete message, for any id length: the id length byte is
  taken modulo 256.\<close>

lemma parse_pack:
  assumes "9 + length mid + length data \<le> string_max_size" and "mid \<noteq> [] \<or> data \<noteq> []"
    and "(1 + length mid) mod 256 = l2"
  shows "parse_frame i0 d0 (pack mid data @ rest) =
    (if l2 = 0 then Inl Length_Error
     else Inr (9 + length mid + length data, take (l2 - 1) mid, drop (l2 - 1) mid @ data, rest))"
proof -
  let ?n = "9 + length mid + length data" and ?f = "pack mid data"
  let ?len = "bytes_u64 (take 8 (?f @ rest))"
  have len: "unat ?len = ?n"
    using take_pack_header [of mid data rest] assms(1) by (simp add: string_max_size_def)
  have ten: "9 < ?n" using assms(2) by auto
  have ready: "frame_ready (?f @ rest)" using len ten by (auto simp: frame_ready_def)
  have l2: "l2 < 256" "l2 \<le> 1 + length mid" using assms(3) by (auto simp: mod_less_eq_dividend)
  have byte: "(of_char (?f ! 8) :: nat) = l2" using assms(3) by (simp add: nth_pack_8)
  have ul2: "unat (word_of_nat l2 :: u64) = l2" using l2 by (simp add: unat_u64_of_nat)
  have tail: "drop 9 ?f = mid @ data" by (simp add: pack_def Let_def)
  have split: "split_msg ?len ?f = (if l2 = 0 then Inl Length_Error
      else Inr (take (l2 - 1) mid, drop (l2 - 1) mid @ data))"
  proof (cases "l2 = 0")
    case True
    then show ?thesis by (simp add: split_msg_def Let_def byte resize_def string_max_size_def unat_u64_max)
  next
    case False
    have w1: "unat (word_of_nat l2 - 1 :: u64) = l2 - 1"
      using False ul2 by (subst unat_sub) (auto simp: word_le_nat_alt)
    have "unat (?len - 8) = ?n - 8" using len by (subst unat_sub) (auto simp: word_le_nat_alt)
    then have w2: "unat (?len - 8 - word_of_nat l2) = ?n - 8 - l2"
      using ul2 l2 by (subst unat_sub) (auto simp: word_le_nat_alt)
    have s1: "mem_slice (?f @ [CHR 0x00]) 9 (l2 - 1) = Inr (take (l2 - 1) mid)"
      using l2 tail by (simp add: mem_slice_def)
    have "drop (8 + l2) ?f = drop (l2 - 1) (drop 9 ?f)" using False by (simp add: add.commute)
    then have s2: "mem_slice (?f @ [CHR 0x00]) (8 + l2) (?n - 8 - l2) = Inr (drop (l2 - 1) mid @ data)"
      using False l2 tail by (simp add: mem_slice_def)
    have "l2 - 1 \<le> string_max_size" and "?n - 8 - l2 \<le> string_max_size" using l2 assms(1) by linarith+
    with False w1 w2 s1 s2 ul2 show ?thesis
      by (simp add: split_msg_def Let_def byte resize_def)
  qed
  show ?thesis using ready len ten split assms(1)
    by (simp add: parse_frame_def Let_def resize_def)
qed

lemma parse_pack_ok:
  "length mid \<le> 254 \<Longrightarrow> mid \<noteq> [] \<or> data \<noteq> [] \<Longrightarrow> 9 + length mid + length data \<le> string_max_size \<Longrightarrow>
     parse_frame i0 d0 (pack mid data @ rest) = Inr (9 + length mid + length data, mid, data, rest)"
  using parse_pack [of mid data "1 + length mid" i0 d0 rest] by simp

text \<open>Part of a message is never taken for a message.\<close>

lemma not_ready_prefix:
  assumes "9 + length mid + length data < 2 ^ 64" and "k < length (pack mid data)"
  shows "\<not> frame_ready (take k (pack mid data))"
proof
  assume ready: "frame_ready (take k (pack mid data))"
  then have k: "9 < k" by (auto simp: frame_ready_def)
  then have "min 8 k = 8" by simp
  with take_pack_header [OF assms(1), of "[]"] ready assms(2) show False
    by (simp add: frame_ready_def)
qed

section \<open>Properties\<close>

text \<open>C21: a message is read back as it was packed, at every position of the ring and whatever
  follows it in the buffer: the id, the payload and the size consumed are right and exactly the
  rest stays. Ids have at most 254 bytes, and the id and the payload are not both empty.\<close>

theorem packed_message_is_read_back:
  assumes "cb_repr cb (pack mid data @ rest)" and "length mid \<le> 254" and "mid \<noteq> [] \<or> data \<noteq> []"
    and "9 + length mid + length data \<le> string_max_size"
  shows "cb_can_read cb = Inr True \<and>
    (\<exists>cb'. cb_read_msg cb i0 d0 = Inr (9 + length mid + length data, mid, data, cb') \<and> cb_repr cb' rest)"
proof
  note parse = parse_pack_ok [OF assms(2-4), of i0 d0 rest]
  then show "\<exists>cb'. cb_read_msg cb i0 d0 = Inr (9 + length mid + length data, mid, data, cb') \<and> cb_repr cb' rest"
    using cb_read_msg_refines [OF assms(1), of i0 d0] by simp
  have "frame_ready (pack mid data @ rest)"
    using parse by (rule contrapos_pp) (simp add: parse_frame_def)
  then show "cb_can_read cb = Inr True" using cb_can_read_ok [OF assms(1)] by simp
qed

theorem packed_message_is_read_back_witness:
  "\<exists>cb cb'. cb_write (cb_new 4) (pack ''id'' ''payload'' @ ''x'') = Inr (19, cb) \<and>
     cb_read_msg cb [] [] = Inr (18, ''id'', ''payload'', cb') \<and> cb_repr cb' ''x''"
proof -
  have "length (pack ''id'' ''payload'') = 18" by simp
  then obtain cb where w: "cb_write (cb_new 4) (pack ''id'' ''payload'' @ ''x'') = Inr (19, cb)"
    and r: "cb_repr cb (pack ''id'' ''payload'' @ ''x'')"
    using cb.put_ok [OF cb_new_repr [of 4], of "pack ''id'' ''payload'' @ ''x''"]
    by (auto simp: cb_limit_def)
  with packed_message_is_read_back [OF r, of "[]" "[]"] show ?thesis
    by (auto simp: string_max_size_def)
qed

text \<open>A message that has arrived only in part is not touched: \<open>can_read\<close> says no and \<open>read\<close>
  leaves the id, the payload and the buffer alone.\<close>

theorem partial_message_is_left:
  assumes "cb_repr cb (take k (pack mid data))" and "k < length (pack mid data)"
    and "9 + length mid + length data < 2 ^ 64"
  shows "cb_can_read cb = Inr False \<and>
    (\<exists>cb'. cb_read_msg cb i0 d0 = Inr (0, i0, d0, cb') \<and> cb_repr cb' (take k (pack mid data)))"
  using cb_can_read_ok [OF assms(1)] cb_read_msg_refines [OF assms(1), of i0 d0]
    not_ready_prefix [OF assms(3,2)]
  by (simp_all add: parse_frame_def)

theorem partial_message_is_left_witness:
  "\<exists>cb. cb_repr cb (take 12 (pack ''id'' ''payload'')) \<and> cb_can_read cb = Inr False"
proof -
  obtain cb where r: "cb_repr cb (take 12 (pack ''id'' ''payload''))"
    using cb.put_ok [OF cb_new_repr [of 4], of "take 12 (pack ''id'' ''payload'')"]
    by (auto simp: cb_limit_def)
  with partial_message_is_left [OF r] show ?thesis by auto
qed

text \<open>The id length is one byte. A message whose id has 255 bytes makes the receiver throw
  \<open>std::length_error\<close>; one whose id is longer is received with a shortened id and the rest of the
  id in front of the payload.\<close>

theorem long_id_is_misread:
  assumes "cb_repr cb (pack mid data @ rest)" and "255 \<le> length mid" and "length mid < 511"
    and "9 + length mid + length data \<le> string_max_size"
  shows "if length mid = 255 then cb_read_msg cb i0 d0 = Inl Length_Error
    else \<exists>cb'. cb_read_msg cb i0 d0 = Inr (9 + length mid + length data,
        take (length mid - 256) mid, drop (length mid - 256) mid @ data, cb') \<and> cb_repr cb' rest"
proof -
  have "mid \<noteq> []" using assms(2) by auto
  moreover have "(1 + length mid) mod 256 = length mid - 255" using assms(2,3) by (simp add: mod_if)
  ultimately show ?thesis
    using cb_read_msg_refines [OF assms(1), of i0 d0] parse_pack [OF assms(4), of _ i0 d0 rest]
      assms(2) by (auto split: if_splits)
qed

theorem long_id_is_misread_witness:
  "\<exists>cb. cb_repr cb (pack (replicate 255 CHR ''a'') ''x'') \<and> cb_read_msg cb [] [] = Inl Length_Error"
proof -
  obtain cb where r: "cb_repr cb (pack (replicate 255 CHR ''a'') ''x'' @ [])"
    using cb.put_ok [OF cb_new_repr [of 4], of "pack (replicate 255 CHR ''a'') ''x''"]
    by (auto simp: cb_limit_def)
  from long_id_is_misread [OF r, of "[]" "[]"] r show ?thesis by (auto simp: string_max_size_def)
qed

text \<open>The id length byte of the peer is not checked against the message length: when it points
  past the end of the message, reading it copies from outside the heap block.\<close>

theorem bad_id_length_reads_out_of_bounds:
  assumes "cb_repr cb q" and "frame_ready q" and "9 < unat (bytes_u64 (take 8 q))"
    and "unat (bytes_u64 (take 8 q)) \<le> string_max_size"
    and "unat (bytes_u64 (take 8 q)) + 1 < 8 + of_char (q ! 8)"
  shows "cb_read_msg cb i0 d0 = Inl Mem_Fault"
proof -
  let ?len = "bytes_u64 (take 8 q)" and ?l2 = "of_char (q ! 8) :: nat"
  have l2: "?l2 < 256" "1 < ?l2" using nat_of_char_less_256 assms(3,5) by auto
  then have u: "unat (word_of_nat ?l2 :: u64) = ?l2"
    by (intro unat_u64_of_nat less_trans [OF l2(1)]) simp
  then have "unat (word_of_nat ?l2 - 1 :: u64) = ?l2 - 1"
    using l2 by (subst unat_sub) (auto simp: word_le_nat_alt)
  moreover have "?l2 - 1 \<le> string_max_size"
    using less_imp_le [OF l2(1)] by (intro le_trans [OF diff_le_self]) (erule le_trans, simp add: string_max_size_def)
  ultimately have "resize (word_of_nat ?l2 - 1) = Inr (?l2 - 1)" by (simp add: resize_def)
  moreover have "take (unat ?len) q ! 8 = q ! 8" "length (take (unat ?len) q) = unat ?len"
    using assms(2,3) by (simp_all add: frame_ready_def)
  ultimately have "split_msg ?len (take (unat ?len) q) = Inl Mem_Fault"
    using assms(5) l2 by (simp add: split_msg_def Let_def mem_slice_def)
  then have "parse_frame i0 d0 q = Inl Mem_Fault"
    using assms(2,3,4) by (simp add: parse_frame_def Let_def resize_def frame_ready_def)
  then show ?thesis using cb_read_msg_refines [OF assms(1), of i0 d0] by simp
qed

theorem bad_id_length_reads_out_of_bounds_witness:
  "\<exists>cb. cb_repr cb (u64_bytes 10 @ [char_of (200 :: nat), CHR ''x'']) \<and> cb_read_msg cb [] [] = Inl Mem_Fault"
proof -
  let ?q = "u64_bytes 10 @ [char_of (200 :: nat), CHR ''x'']"
  obtain cb where r: "cb_repr cb ?q"
    using cb.put_ok [OF cb_new_repr [of 4], of ?q] by (auto simp: cb_limit_def)
  have "take 8 ?q = u64_bytes 10" and "?q ! 8 = char_of (200 :: nat)" by (simp_all add: nth_append)
  then show ?thesis
    using bad_id_length_reads_out_of_bounds [OF r] r
    by (auto simp: string_max_size_def frame_ready_def of_char_of)
qed

end
