(* ===== verification/Std_Map.thy ===== *)
theory Std_Map
  imports IO_Prelude
begin

text \<open>
  \<open>std::map\<close> as the program uses it: \<open>find\<close>, \<open>insert\<close> (which keeps an existing entry),
  assignment through \<open>operator[]\<close>, \<open>erase\<close>, and iteration in increasing key order. A map is an
  association list whose keys increase strictly; \<open>find\<close> is \<open>map_of\<close> and iteration is the list
  itself. The locale \<open>keyed_store\<close> is the part of that interface clients reason with.
\<close>

definition sorted_map :: "('k :: linorder \<times> 'v) list \<Rightarrow> bool" where
  "sorted_map m \<longleftrightarrow> sorted_wrt (<) (map fst m)"

fun std_insert :: "'k :: linorder \<Rightarrow> 'v \<Rightarrow> ('k \<times> 'v) list \<Rightarrow> ('k \<times> 'v) list" where
  "std_insert k v [] = [(k, v)]"
| "std_insert k v ((a, b) # m) =
     (if k < a then (k, v) # (a, b) # m else if k = a then (a, b) # m else (a, b) # std_insert k v m)"

fun std_assign :: "'k :: linorder \<Rightarrow> 'v \<Rightarrow> ('k \<times> 'v) list \<Rightarrow> ('k \<times> 'v) list" where
  "std_assign k v [] = [(k, v)]"
| "std_assign k v ((a, b) # m) =
     (if k < a then (k, v) # (a, b) # m else if k = a then (a, v) # m else (a, b) # std_assign k v m)"

fun std_erase :: "'k :: linorder \<Rightarrow> ('k \<times> 'v) list \<Rightarrow> ('k \<times> 'v) list" where
  "std_erase k [] = []"
| "std_erase k ((a, b) # m) = (if k = a then m else (a, b) # std_erase k m)"

abbreviation std_find :: "('k \<times> 'v) list \<Rightarrow> 'k \<Rightarrow> 'v option" where
  "std_find \<equiv> map_of"

lemma sorted_map_Nil [simp]: "sorted_map []"
  by (simp add: sorted_map_def)

lemma sorted_map_Cons: "sorted_map ((a, b) # m) \<longleftrightarrow> (\<forall>k \<in> fst ` set m. a < k) \<and> sorted_map m"
  by (auto simp: sorted_map_def)

lemma sorted_map_less: "sorted_map ((a, b) # m) \<Longrightarrow> k \<le> a \<Longrightarrow> map_of m k = None"
  by (fastforce simp: sorted_map_Cons map_of_eq_None_iff)

lemma keys_std_insert: "fst ` set (std_insert k v m) = insert k (fst ` set m)"
  by (induction k v m rule: std_insert.induct) auto

lemma keys_std_assign: "fst ` set (std_assign k v m) = insert k (fst ` set m)"
  by (induction k v m rule: std_assign.induct) auto

lemma keys_std_erase: "fst ` set (std_erase k m) \<subseteq> fst ` set m"
  by (induction k m rule: std_erase.induct) auto

lemma sorted_std_insert: "sorted_map m \<Longrightarrow> sorted_map (std_insert k v m)"
  by (induction k v m rule: std_insert.induct) (auto simp: sorted_map_Cons keys_std_insert)

lemma sorted_std_assign: "sorted_map m \<Longrightarrow> sorted_map (std_assign k v m)"
  by (induction k v m rule: std_assign.induct) (auto simp: sorted_map_Cons keys_std_assign)

lemma sorted_std_erase: "sorted_map m \<Longrightarrow> sorted_map (std_erase k m)"
proof (induction k m rule: std_erase.induct)
  case (2 k a b m)
  then show ?case using keys_std_erase [of k m]
    by (simp only: std_erase.simps sorted_map_Cons split: if_splits) blast
qed simp

lemma find_std_insert:
  "sorted_map m \<Longrightarrow> std_find (std_insert k v m) =
     (std_find m)(k \<mapsto> case std_find m k of None \<Rightarrow> v | Some w \<Rightarrow> w)"
proof (induction k v m rule: std_insert.induct)
  case (2 k v a b m)
  then show ?case
    using sorted_map_less [OF "2.prems", of k]
    by (cases "k \<le> a") (auto simp: fun_eq_iff sorted_map_Cons split: option.splits)
qed (simp add: fun_eq_iff)

lemma find_std_assign: "sorted_map m \<Longrightarrow> std_find (std_assign k v m) = (std_find m)(k \<mapsto> v)"
  by (induction k v m rule: std_assign.induct) (auto simp: fun_eq_iff sorted_map_Cons)

lemma find_std_erase: "sorted_map m \<Longrightarrow> std_find (std_erase k m) = (std_find m)(k := None)"
proof (induction k m rule: std_erase.induct)
  case (2 k a b m)
  then show ?case
    using sorted_map_less [OF "2.prems", of k] by (auto simp: fun_eq_iff sorted_map_Cons)
qed (simp add: fun_eq_iff)

text \<open>\<open>insert\<close> of a key that is there changes nothing.\<close>

lemma std_insert_present: "sorted_map m \<Longrightarrow> std_find m k = Some w \<Longrightarrow> std_insert k v m = m"
proof (induction m)
  case (Cons x m)
  then show ?case by (cases x) (fastforce simp: sorted_map_Cons dest: map_of_SomeD)
qed simp

lemma std_insert_again: "std_insert k v (std_insert k v m) = std_insert k v m"
  by (induction k v m rule: std_insert.induct) auto

lemma sorted_map_distinct: "sorted_map m \<Longrightarrow> distinct (map fst m)"
  by (simp add: sorted_map_def strict_sorted_iff)

section \<open>The interface\<close>

locale keyed_store =
  fixes valid :: "'m \<Rightarrow> bool"
    and find :: "'m \<Rightarrow> 'k \<Rightarrow> 'v option"
    and insert :: "'k \<Rightarrow> 'v \<Rightarrow> 'm \<Rightarrow> 'm"
    and assign :: "'k \<Rightarrow> 'v \<Rightarrow> 'm \<Rightarrow> 'm"
    and erase :: "'k \<Rightarrow> 'm \<Rightarrow> 'm"
  assumes find_insert: "valid m \<Longrightarrow> find (insert k v m) =
      (find m)(k \<mapsto> case find m k of None \<Rightarrow> v | Some w \<Rightarrow> w)"
    and find_assign: "valid m \<Longrightarrow> find (assign k v m) = (find m)(k \<mapsto> v)"
    and find_erase: "valid m \<Longrightarrow> find (erase k m) = (find m)(k := None)"
    and valid_insert: "valid m \<Longrightarrow> valid (insert k v m)"
    and valid_assign: "valid m \<Longrightarrow> valid (assign k v m)"
    and valid_erase: "valid m \<Longrightarrow> valid (erase k m)"
begin

text \<open>A loop of insertions: entries already there win, then the first of the list.\<close>

lemma valid_insert_all: "valid m \<Longrightarrow> valid (fold (\<lambda>(k, v). insert k v) kvs m)"
  by (induction kvs arbitrary: m) (auto intro: valid_insert)

lemma find_insert_all:
  "valid m \<Longrightarrow> find (fold (\<lambda>(k, v). insert k v) kvs m) = map_of kvs ++ find m"
proof (induction kvs arbitrary: m)
  case (Cons kv kvs)
  obtain k v where kv: "kv = (k, v)" by fastforce
  have "find (fold (\<lambda>(k, v). insert k v) kvs (insert k v m)) = map_of kvs ++ find (insert k v m)"
    using Cons.prems by (intro Cons.IH valid_insert)
  then show ?case
    using kv find_insert [OF Cons.prems, of k v]
    by (auto simp: fun_eq_iff map_add_def split: option.splits)
qed simp

lemma erase_insert_fresh:
  "valid m \<Longrightarrow> find m k = None \<Longrightarrow> find (erase k (insert k v m)) = find m"
  by (simp add: find_erase find_insert valid_insert fun_eq_iff)

end

interpretation std: keyed_store sorted_map std_find std_insert std_assign std_erase
  by unfold_locales (simp_all add: find_std_insert find_std_assign find_std_erase
      sorted_std_insert sorted_std_assign sorted_std_erase)

lemma std_insert_sorted_snoc:
  "(\<forall>a \<in> fst ` set m. a < k) \<Longrightarrow> std_insert k v m = m @ [(k, v)]"
  by (induction k v m rule: std_insert.induct) auto

lemma fold_std_insert_sorted:
  "sorted_map (m @ kvs) \<Longrightarrow> fold (\<lambda>(k, v). std_insert k v) kvs m = m @ kvs"
proof (induction kvs arbitrary: m)
  case (Cons kv kvs)
  obtain k v where kv: "kv = (k, v)" by fastforce
  have "\<forall>a \<in> fst ` set m. a < k"
    using Cons.prems kv by (auto simp: sorted_map_def sorted_wrt_append)
  then show ?case using Cons.IH [of "m @ [(k, v)]"] Cons.prems kv by (simp add: std_insert_sorted_snoc)
qed simp

end
