(* ===== verification/Socket_IO.thy ===== *)
theory Socket_IO
  imports IO_Prelude
begin

text \<open>
  The loops around the system calls \<open>read\<close> and \<open>write\<close>: \<open>Connection::readn\<close> and
  \<open>Connection::writen\<close> of \<open>connection.cpp\<close> over \<open>readImpl\<close> and \<open>writeImpl\<close>.

  The kernel is not part of the program: what it answers to the successive calls is a list (the
  script) that the functions take as an argument. A call answered with \<open>Ret k\<close> transferred at most
  \<open>k\<close> bytes, never more than asked for; one answered with \<open>Err e\<close> returned -1 and set \<open>errno\<close>.
  \<open>errno\<close> is kept between the calls, because the loops also look at it after a call that succeeded.
  A script that ends before the loop does is the result \<open>None\<close>: the loop is still running.
\<close>

datatype errno = No_Error | EINTR | EAGAIN | EWOULDBLOCK | Other_Errno int

datatype write_ret = Ret nat | Err errno
datatype read_ret = Got bytes | RErr errno

abbreviation try_again :: "errno \<Rightarrow> bool" where
  "try_again e \<equiv> e = EAGAIN \<or> e = EWOULDBLOCK"

text \<open>\<open>writen\<close>: the loop returns whether it ended normally, the bytes the kernel took, \<open>errno\<close> and the
  rest of the script.\<close>

fun writen_loop :: "errno \<Rightarrow> write_ret list \<Rightarrow> bytes \<Rightarrow> (bool \<times> bytes \<times> errno \<times> write_ret list) option" where
  "writen_loop e rs [] = Some (True, [], e, rs)"
| "writen_loop e [] (c # cs) = None"
| "writen_loop e (Err e' # rs) (c # cs) =
     (if e' = EINTR then Some (False, [], e', rs)
      else if try_again e' then writen_loop e' rs (c # cs)
      else Some (False, [], e', rs))"
| "writen_loop e (Ret k # rs) (c # cs) =
     (if k = 0 then
        (if try_again e then writen_loop e rs (c # cs) else Some (True, [], e, rs))
      else (case writen_loop e rs (drop k (c # cs)) of
          None \<Rightarrow> None
        | Some (ok, sent, e', rs') \<Rightarrow> Some (ok, take k (c # cs) @ sent, e', rs')))"

definition writen :: "errno \<Rightarrow> write_ret list \<Rightarrow> bytes \<Rightarrow> (int \<times> bytes \<times> errno \<times> write_ret list) option" where
  "writen e rs data = map_option (\<lambda>(ok, sent, e', rs').
     ((if ok then int (length sent) else -1), sent, e', rs')) (writen_loop e rs data)"

text \<open>\<open>readn\<close>: \<open>Got []\<close> is the answer 0, the end of the stream.\<close>

fun readn_loop :: "errno \<Rightarrow> read_ret list \<Rightarrow> nat \<Rightarrow> (bool \<times> bytes \<times> errno \<times> read_ret list) option" where
  "readn_loop e rs 0 = Some (True, [], e, rs)"
| "readn_loop e [] (Suc n) = None"
| "readn_loop e (RErr e' # rs) (Suc n) =
     (if e' = EINTR then readn_loop e' rs (Suc n)
      else if try_again e' then readn_loop e' rs (Suc n)
      else Some (False, [], e', rs))"
| "readn_loop e (Got bs # rs) (Suc n) =
     (if bs = [] then
        (if try_again e then readn_loop e rs (Suc n) else Some (True, [], e, rs))
      else (case readn_loop e rs (Suc n - length bs) of
          None \<Rightarrow> None
        | Some (ok, got, e', rs') \<Rightarrow> Some (ok, take (Suc n) bs @ got, e', rs')))"

definition readn :: "errno \<Rightarrow> read_ret list \<Rightarrow> nat \<Rightarrow> (int \<times> bytes \<times> errno \<times> read_ret list) option" where
  "readn e rs n = map_option (\<lambda>(ok, got, e', rs').
     ((if ok then int (length got) else -1), got, e', rs')) (readn_loop e rs n)"

text \<open>\<open>peek\<close>: \<open>::recv\<close> with \<open>MSG_PEEK\<close> until a signal no longer interrupts it.\<close>

fun peek :: "read_ret list \<Rightarrow> (int \<times> bytes \<times> read_ret list) option" where
  "peek [] = None"
| "peek (Got bs # rs) = Some (int (length bs), bs, rs)"
| "peek (RErr e # rs) = (if e = EINTR then peek rs else Some (-1, [], rs))"

lemma peek_skips_interrupts: "peek (replicate n (RErr EINTR) @ Got bs # rs) = Some (int (length bs), bs, rs)"
  by (induction n) simp_all

section \<open>Lemmas\<close>

lemma writen_loop_prefix:
  "writen_loop e rs data = Some (ok, sent, e', rs') \<Longrightarrow> \<exists>t. data = sent @ t"
proof (induction e rs data arbitrary: ok sent e' rs' rule: writen_loop.induct)
  case (4 e k rs c cs)
  show ?case
  proof (cases "k = 0")
    case False
    with "4.prems" obtain s where s: "writen_loop e rs (drop k (c # cs)) = Some (ok, s, e', rs')"
      and "sent = take k (c # cs) @ s"
      by (auto split: option.splits prod.splits)
    then show ?thesis using "4.IH"(2) [OF False s] by (metis append.assoc append_take_drop_id)
  qed (use 4 in \<open>auto split: if_splits\<close>)
qed (auto split: if_splits)

lemma writen_loop_script:
  "writen_loop e rs data = Some (ok, sent, e', rs') \<Longrightarrow>
     writen_loop e (rs @ more) data = Some (ok, sent, e', rs' @ more)"
  by (induction e rs data arbitrary: ok sent e' rs' rule: writen_loop.induct)
    (auto split: if_splits option.splits)

text \<open>A kernel that keeps taking bytes, possibly after answering "try again".\<close>

definition progress :: "write_ret \<Rightarrow> bool" where
  "progress r \<longleftrightarrow> (\<exists>k>0. r = Ret k) \<or> r = Err EAGAIN \<or> r = Err EWOULDBLOCK"

definition transfers :: "write_ret list \<Rightarrow> nat" where
  "transfers rs = length (filter (\<lambda>r. \<exists>k>0. r = Ret k) rs)"

lemma writen_loop_complete:
  "list_all progress rs \<Longrightarrow> length data \<le> transfers rs \<Longrightarrow>
     \<exists>e' rs'. writen_loop e rs data = Some (True, data, e', rs')"
proof (induction e rs data rule: writen_loop.induct)
  case (4 e k rs c cs)
  then have k: "0 < k" by (auto simp: progress_def)
  with 4 obtain e' rs' where "writen_loop e rs (drop k (c # cs)) = Some (True, drop k (c # cs), e', rs')"
    by (fastforce simp: transfers_def)
  with k show ?case by auto
qed (auto simp: progress_def transfers_def)

text \<open>The bytes a script of reads delivers, and the scripts of a kernel that never returns more than
  was asked for.\<close>

fun received :: "read_ret list \<Rightarrow> bytes" where
  "received [] = []"
| "received (RErr e # rs) = received rs"
| "received (Got bs # rs) = bs @ received rs"

fun chunks_fit :: "nat \<Rightarrow> read_ret list \<Rightarrow> bool" where
  "chunks_fit n [] \<longleftrightarrow> True"
| "chunks_fit n (RErr e # rs) \<longleftrightarrow> chunks_fit n rs"
| "chunks_fit n (Got bs # rs) \<longleftrightarrow> n = 0 \<or> length bs \<le> n \<and> chunks_fit (n - length bs) rs"

lemma readn_loop_received:
  "readn_loop e rs n = Some (ok, got, e', rs') \<Longrightarrow> chunks_fit n rs \<Longrightarrow>
     got @ received rs' = received rs \<and> length got \<le> n"
proof (induction e rs n arbitrary: ok got e' rs' rule: readn_loop.induct)
  case (4 e bs rs n)
  show ?case
  proof (cases "bs = []")
    case False
    with "4.prems"(1) obtain s where s: "readn_loop e rs (Suc n - length bs) = Some (ok, s, e', rs')"
      and g: "got = take (Suc n) bs @ s"
      by (auto split: option.splits)
    have fit: "length bs \<le> Suc n" "chunks_fit (Suc n - length bs) rs" using "4.prems"(2) by simp_all
    from "4.IH"(2) [OF False s fit(2)] g fit(1) show ?thesis by auto
  qed (use 4 in \<open>auto split: if_splits\<close>)
qed (auto split: if_splits)

lemma readn_loop_stale: "readn_loop EAGAIN (replicate k (Got [])) (Suc n) = None"
  by (induction k) simp_all

section \<open>Properties\<close>

text \<open>C37: \<open>writen\<close> writes everything, in order, once the kernel takes bytes at every call or asks to
  try again: enough calls that take a byte are enough for it to return the full length.\<close>

theorem writen_writes_all:
  assumes "list_all progress rs" and "length data \<le> transfers rs"
  shows "\<exists>e' rs'. writen e rs data = Some (int (length data), data, e', rs')"
  using writen_loop_complete [OF assms, of e] by (auto simp: writen_def)

theorem writen_writes_all_witness:
  "\<exists>e' rs'. writen No_Error [Ret 1, Err EAGAIN, Ret 7] ''ab'' = Some (2, ''ab'', e', rs')"
  using writen_writes_all [of "[Ret 1, Err EAGAIN, Ret 7]" "''ab''" No_Error]
  by (simp add: progress_def transfers_def)

text \<open>Whatever the kernel answers, the bytes \<open>writen\<close> gave it are a prefix of the data, and the
  value returned is their number or -1.\<close>

theorem writen_sends_prefix:
  assumes "writen e rs data = Some (ret, sent, e', rs')"
  shows "(\<exists>rest. data = sent @ rest) \<and> (ret = int (length sent) \<or> ret = -1)"
proof -
  from assms obtain ok where "writen_loop e rs data = Some (ok, sent, e', rs')"
    "ret = (if ok then int (length sent) else -1)"
    by (auto simp: writen_def)
  then show ?thesis using writen_loop_prefix by auto
qed

theorem writen_sends_prefix_witness: "\<exists>rest. ''abc'' = ''ab'' @ (rest :: bytes)"
  using writen_sends_prefix [of No_Error "[Ret 2, Err (Other_Errno 32)]" "''abc''" "-1" "''ab''"
    "Other_Errno 32" "[]"] by (simp add: writen_def)

text \<open>A signal during \<open>write\<close> ends \<open>writen\<close> with -1 although part of the data may be out, while
  \<open>readn\<close> retries: the branch for \<open>EINTR\<close> in \<open>writen\<close> falls through to the error return.\<close>

theorem interrupted_write_fails:
  "writen e (Err EINTR # rs) (c # cs) = Some (-1, [], EINTR, rs) \<and>
   readn e (RErr EINTR # rrs) (Suc n) = readn EINTR rrs (Suc n)"
  by (simp add: writen_def readn_def)

text \<open>\<open>readn\<close> returns consecutive bytes of the stream, none skipped, at most as many as asked for.\<close>

theorem readn_reads_stream:
  assumes "readn e rs n = Some (ret, got, e', rs')" and "chunks_fit n rs"
  shows "got @ received rs' = received rs \<and> length got \<le> n \<and> (ret = int (length got) \<or> ret = -1)"
proof -
  from assms(1) obtain ok where "readn_loop e rs n = Some (ok, got, e', rs')"
    "ret = (if ok then int (length got) else -1)"
    by (auto simp: readn_def)
  then show ?thesis using readn_loop_received assms(2) by auto
qed

theorem readn_reads_stream_witness:
  "''abc'' @ received [Got ''d''] = received [Got ''ab'', RErr EINTR, Got ''c'', Got ''d'']"
  using readn_reads_stream [of No_Error "[Got ''ab'', RErr EINTR, Got ''c'', Got ''d'']" 3 3 "''abc''" EINTR
    "[Got ''d'']"] by (simp add: readn_def eval_nat_numeral)

text \<open>When the peer closes after a \<open>read\<close> that had to be retried, \<open>errno\<close> still says \<open>EAGAIN\<close> and
  \<open>readn\<close> takes the end of the stream for another retry: however often it reads, it never returns.\<close>

theorem readn_spins_at_end_of_stream:
  "readn e (RErr EAGAIN # replicate k (Got [])) (Suc n) = None"
  by (simp add: readn_def readn_loop_stale)

end
