(* ===== verification/Connection.thy ===== *)
theory Connection
  imports Framing Std_Map Socket_IO
begin

text \<open>
  One connection to a peer: \<open>connection.h\<close> and the data path of \<open>connection.cpp\<close>. A connection owns
  the receive buffer \<open>buffer\<close> (all bytes of the peer, filled by \<open>write\<close>), one ring buffer per message
  id in \<open>mapbuffer\<close> (filled by the thread of \<open>loop_recv\<close>, emptied by \<open>recv\<close>) and the send buffer
  (filled by \<open>send\<close>, emptied onto the socket by the thread of \<open>loop_send\<close> and by \<open>close\<close>).

  Every operation below is one critical section of the source. The bodies of the two thread loops
  are \<open>recv_step\<close> and \<open>send_step\<close>; \<open>Waiting\<close> is the condition-variable wait whose predicate is false.
  Starting and stopping the threads of a task is the subject of \<open>Task_Scheduling\<close>.
\<close>

section \<open>State\<close>

datatype conn_state = Invalid | Handshaking | Handshaked | Connecting | Connected | Closing | Closed | Failed

definition conn_state_value :: "conn_state \<Rightarrow> nat" where
  "conn_state_value s = (case s of Invalid \<Rightarrow> 1 | Handshaking \<Rightarrow> 2 | Handshaked \<Rightarrow> 3 | Connecting \<Rightarrow> 4
     | Connected \<Rightarrow> 5 | Closing \<Rightarrow> 6 | Closed \<Rightarrow> 7 | Failed \<Rightarrow> 8)"

lemma conn_state_value_inj: "conn_state_value s = conn_state_value t \<Longrightarrow> s = t"
  by (cases s; cases t) (simp_all add: conn_state_value_def)

text \<open>The enumeration is ordered by its values, as in C++.\<close>

instantiation conn_state :: linorder
begin

definition less_eq_conn_state :: "conn_state \<Rightarrow> conn_state \<Rightarrow> bool" where
  "less_eq_conn_state s t \<longleftrightarrow> conn_state_value s \<le> conn_state_value t"

definition less_conn_state :: "conn_state \<Rightarrow> conn_state \<Rightarrow> bool" where
  "less_conn_state s t \<longleftrightarrow> conn_state_value s < conn_state_value t"

instance
  by standard (auto simp: less_eq_conn_state_def less_conn_state_def dest: conn_state_value_inj)

end

record connection =
  fd :: int
  events :: int
  is_server :: bool
  peer_id :: bytes                          \<comment> \<open>\<open>node_id_\<close>\<close>
  state :: conn_state
  reuseable :: bool
  buffer :: cycle_buffer
  mapbuffer :: "(bytes \<times> cycle_buffer) list"
  send_buffer :: cycle_buffer
  stop_works :: "(bytes \<times> bool) list"
  task_count :: int

definition new_connection :: "int \<Rightarrow> int \<Rightarrow> bool \<Rightarrow> bytes \<Rightarrow> connection" where
  "new_connection fd0 events0 is_server0 node_id0 =
     \<lparr>fd = fd0, events = events0, is_server = is_server0, peer_id = node_id0, state = Invalid,
      reuseable = True, buffer = cb_new (1024 * 1024 * 10), mapbuffer = [],
      send_buffer = cb_new (1024 * 1024 * 128), stop_works = [], task_count = 0\<rparr>"

section \<open>Sending\<close>

definition put_into_send_buffer :: "connection \<Rightarrow> bytes \<Rightarrow> (u64 \<times> connection) res" where
  "put_into_send_buffer c data =
     bindE (cb_write (send_buffer c) data) (\<lambda>(ret, b). Inr (ret, c\<lparr>send_buffer := b\<rparr>))"

definition send_msg :: "connection \<Rightarrow> bytes \<Rightarrow> bytes \<Rightarrow> (u64 \<times> connection) res" where
  "send_msg c mid data = put_into_send_buffer c (pack mid data)"

definition stop_requested :: "connection \<Rightarrow> bytes \<Rightarrow> bool" where
  "stop_requested c task \<longleftrightarrow> std_find (stop_works c) task = Some True"

datatype 'a loop_step = Stopped | Waiting | Stepped 'a

text \<open>The body of \<open>loop_send\<close> up to the call of \<open>send\<close>: the bytes to write to the socket.\<close>

definition send_step :: "bytes \<Rightarrow> connection \<Rightarrow> (bytes \<times> connection) loop_step res" where
  "send_step task c =
    (if stop_requested c task then Inr Stopped
     else if 0 < cb_size (send_buffer c) then
       bindE (cb_read (send_buffer c) (cb_size (send_buffer c))) (\<lambda>(_, data, b).
         Inr (Stepped (data, c\<lparr>send_buffer := b\<rparr>)))
     else Inr Waiting)"

text \<open>\<open>flush_send_buffer\<close>: the bytes to write, if any.\<close>

definition flush_send_buffer :: "connection \<Rightarrow> (bytes \<times> connection) res" where
  "flush_send_buffer c =
    (if 0 < cb_size (send_buffer c) then
       bindE (cb_read (send_buffer c) (cb_size (send_buffer c))) (\<lambda>(_, data, b).
         Inr (data, c\<lparr>send_buffer := b\<rparr>))
     else Inr ([], c))"

text \<open>\<open>Connection::close\<close>: the bytes flushed and whether \<open>::close(fd_)\<close> was called.\<close>

definition close_connection :: "connection \<Rightarrow> (bytes \<times> bool \<times> connection) res" where
  "close_connection c =
    (if state c \<noteq> Closed then
       bindE (flush_send_buffer (c\<lparr>state := Closing\<rparr>)) (\<lambda>(data, c1).
         Inr (data, True, c1\<lparr>state := Closed\<rparr>))
     else Inr ([], False, c))"

section \<open>Receiving\<close>

text \<open>\<open>Connection::write\<close>: bytes read from the socket enter the receive buffer.\<close>

definition conn_write :: "connection \<Rightarrow> bytes \<Rightarrow> connection res" where
  "conn_write c data = bindE (cb_write (buffer c) data) (\<lambda>(_, b). Inr (c\<lparr>buffer := b\<rparr>))"

text \<open>The second critical section of \<open>loop_recv\<close>: the payload enters the buffer of its id.\<close>

definition store_message :: "connection \<Rightarrow> bytes \<Rightarrow> bytes \<Rightarrow> connection res" where
  "store_message c tmp_id tmp_data =
    (let mb = (if std_find (mapbuffer c) tmp_id = None
               then std_assign tmp_id (cb_new (1024 * 8)) (mapbuffer c) else mapbuffer c)
     in case std_find mb tmp_id of
          None \<Rightarrow> Inl Null_Deref
        | Some b \<Rightarrow> bindE (cb_write b tmp_data) (\<lambda>(_, b').
            Inr (c\<lparr>mapbuffer := std_assign tmp_id b' mb\<rparr>)))"

text \<open>One round of \<open>loop_recv\<close>.\<close>

definition recv_step :: "bytes \<Rightarrow> connection \<Rightarrow> connection loop_step res" where
  "recv_step task c =
    (if stop_requested c task then Inr Stopped
     else bindE (cb_can_read (buffer c)) (\<lambda>ready.
       if ready then
         bindE (cb_read_msg (buffer c) [] []) (\<lambda>(_, tmp_id, tmp_data, b).
         bindE (store_message (c\<lparr>buffer := b\<rparr>) tmp_id tmp_data) (\<lambda>c'. Inr (Stepped c')))
       else Inr Waiting))"

text \<open>\<open>loop_recv\<close>: rounds until the thread stops (\<open>True\<close>) or waits (\<open>False\<close>); \<open>None\<close> if it does neither.\<close>

partial_function (option) loop_recv :: "bytes \<Rightarrow> connection \<Rightarrow> (bool \<times> connection) res option" where
  "loop_recv task c =
    (case recv_step task c of
       Inl e \<Rightarrow> Some (Inl e)
     | Inr Stopped \<Rightarrow> Some (Inr (True, c))
     | Inr Waiting \<Rightarrow> Some (Inr (False, c))
     | Inr (Stepped c') \<Rightarrow> loop_recv task c')"

text \<open>\<open>Connection::recv\<close>. \<open>tmpstate\<close> is the state the caller saw on entry and \<open>elapsed\<close> the time, in
  milliseconds, between the two clock readings; the connection is the one seen by the checks.\<close>

definition E_ERROR :: int where "E_ERROR = -1"
definition E_TIMEOUT :: int where "E_TIMEOUT = -3"
definition E_UNCONNECTED :: int where "E_UNCONNECTED = -4"

definition conn_recv :: "conn_state \<Rightarrow> int \<Rightarrow> connection \<Rightarrow> bytes \<Rightarrow> u64 \<Rightarrow> int \<Rightarrow> (int \<times> bytes \<times> connection) res" where
  "conn_recv tmpstate elapsed c mid len timeout0 =
    (let timeout = (if timeout0 < 0 then 1000 * 1000000 else timeout0) in
     if tmpstate = Connected \<and> state c \<noteq> Connected then Inr (E_UNCONNECTED, [], c)
     else if timeout < elapsed then Inr (E_TIMEOUT, [], c)
     else case std_find (mapbuffer c) mid of
         None \<Rightarrow> Inl Would_Block
       | Some b \<Rightarrow>
           if cb_can_read_n b len then
             bindE (cb_read b len) (\<lambda>(ret, data, b').
               Inr (sint ret, data, c\<lparr>mapbuffer := std_assign mid b' (mapbuffer c)\<rparr>))
           else Inl Would_Block)"

definition get_unrecv_size :: "connection \<Rightarrow> u64" where
  "get_unrecv_size c = foldl (\<lambda>ret (_, b). ret + cb_size b) (cb_size (buffer c)) (mapbuffer c)"

section \<open>Representation\<close>

text \<open>\<open>streams mb ms\<close>: the buffers of \<open>mb\<close> hold, per message id, the undelivered bytes \<open>ms\<close>.\<close>

definition streams :: "(bytes \<times> cycle_buffer) list \<Rightarrow> (bytes \<Rightarrow> bytes) \<Rightarrow> bool" where
  "streams mb ms \<longleftrightarrow> sorted_map mb \<and>
     (\<forall>i. case std_find mb i of None \<Rightarrow> ms i = [] | Some b \<Rightarrow> cb_repr b (ms i))"

definition conn_repr :: "connection \<Rightarrow> bytes \<Rightarrow> (bytes \<Rightarrow> bytes) \<Rightarrow> bytes \<Rightarrow> bool" where
  "conn_repr c rq ms sq \<longleftrightarrow>
     cb_repr (buffer c) rq \<and> streams (mapbuffer c) ms \<and> cb_repr (send_buffer c) sq"

lemma new_connection_repr: "conn_repr (new_connection f ev srv peer) [] (\<lambda>_. []) []"
  by (simp add: conn_repr_def new_connection_def streams_def cb_new_repr)

lemma streams_at: "streams mb ms \<Longrightarrow> std_find mb i = Some b \<Longrightarrow> cb_repr b (ms i)"
  by (auto simp: streams_def dest: spec [of _ i])

lemma streams_none: "streams mb ms \<Longrightarrow> std_find mb i = None \<Longrightarrow> ms i = []"
  by (auto simp: streams_def dest: spec [of _ i])

lemma streamsI:
  assumes "sorted_map mb" and "\<And>i. std_find mb i = None \<Longrightarrow> ms i = []"
    and "\<And>i b. std_find mb i = Some b \<Longrightarrow> cb_repr b (ms i)"
  shows "streams mb ms"
  using assms by (auto simp: streams_def split: option.splits)

lemma streams_sorted: "streams mb ms \<Longrightarrow> sorted_map mb"
  by (simp add: streams_def)

lemma streams_assign:
  "streams mb ms \<Longrightarrow> cb_repr b q \<Longrightarrow> streams (std_assign i b mb) (ms(i := q))"
  by (rule streamsI)
    (auto simp: std.find_assign std.valid_assign streams_sorted streams_none streams_at split: if_splits)

lemma streams_new_entry:
  "streams mb ms \<Longrightarrow> std_find mb i = None \<Longrightarrow> streams (std_assign i (cb_new (1024 * 8)) mb) ms"
  using streams_assign [of mb ms "cb_new (1024 * 8)" "[]" i] streams_none [of mb ms i]
  by (simp add: cb_new_repr fun_upd_idem)

lemma store_message_ok:
  assumes "streams (mapbuffer c) ms" and "length (ms i) + length d \<le> cb_limit"
  shows "\<exists>mb. store_message c i d = Inr (c\<lparr>mapbuffer := mb\<rparr>) \<and> streams mb (ms(i := ms i @ d)) \<and>
    std_find mb i \<noteq> None"
proof -
  let ?mb = "if std_find (mapbuffer c) i = None
    then std_assign i (cb_new (1024 * 8)) (mapbuffer c) else mapbuffer c"
  have st: "streams ?mb ms" using assms(1) streams_new_entry by simp
  obtain b where b: "std_find ?mb i = Some b"
    using streams_sorted [OF assms(1)]
    by (cases "std_find (mapbuffer c) i") (simp_all add: std.find_assign)
  obtain b' where "cb_write b d = Inr (word_of_nat (length d), b')" "cb_repr b' (ms i @ d)"
    using cb.put_ok [OF streams_at [OF st b], of d] assms(2) by auto
  moreover have "std_find (std_assign i b' ?mb) i \<noteq> None"
    using streams_sorted [OF st] by (simp add: std.find_assign)
  ultimately show ?thesis using b streams_assign [OF st, of b' "ms i @ d" i]
    by (auto simp: store_message_def Let_def)
qed

section \<open>One round of the receiving thread\<close>

lemma recv_step_waiting:
  assumes "conn_repr c rq ms sq" and "\<not> stop_requested c task" and "\<not> frame_ready rq"
  shows "recv_step task c = Inr Waiting"
  using assms cb_can_read_ok [of "buffer c" rq] by (simp add: recv_step_def conn_repr_def)

lemma recv_step_message:
  assumes "conn_repr c rq ms sq" and "\<not> stop_requested c task" and "frame_ready rq"
    and "parse_frame [] [] rq = Inr (k, i, d, rq')" and "length (ms i) + length d \<le> cb_limit"
  shows "\<exists>c'. recv_step task c = Inr (Stepped c') \<and> conn_repr c' rq' (ms(i := ms i @ d)) sq \<and>
    stop_works c' = stop_works c \<and> state c' = state c"
proof -
  have repr: "cb_repr (buffer c) rq" "streams (mapbuffer c) ms" "cb_repr (send_buffer c) sq"
    using assms(1) by (auto simp: conn_repr_def)
  obtain b where b: "cb_read_msg (buffer c) [] [] = Inr (k, i, d, b)" "cb_repr b rq'"
    using cb_read_msg_refines [OF repr(1), of "[]" "[]"] assms(4) by auto
  obtain mb where "store_message (c\<lparr>buffer := b\<rparr>) i d = Inr (c\<lparr>buffer := b, mapbuffer := mb\<rparr>)"
    "streams mb (ms(i := ms i @ d))"
    using store_message_ok [of "c\<lparr>buffer := b\<rparr>" ms i d] repr(2) assms(5) by auto
  with b repr assms(2,3) cb_can_read_ok [OF repr(1)] show ?thesis
    by (simp add: recv_step_def conn_repr_def)
qed

lemma recv_step_error:
  assumes "conn_repr c rq ms sq" and "\<not> stop_requested c task" and "frame_ready rq"
    and "parse_frame [] [] rq = Inl e"
  shows "recv_step task c = Inl e"
  using assms cb_read_msg_refines [of "buffer c" rq "[]" "[]"] cb_can_read_ok [of "buffer c" rq]
  by (simp add: recv_step_def conn_repr_def)

section \<open>Messages on the wire\<close>

type_synonym message = "bytes \<times> bytes"

definition frames :: "message list \<Rightarrow> bytes" where
  "frames msgs = concat (map (\<lambda>(i, d). pack i d) msgs)"

definition payloads :: "message list \<Rightarrow> bytes \<Rightarrow> bytes" where
  "payloads msgs i = concat (map snd (filter (\<lambda>m. fst m = i) msgs))"

text \<open>The messages the framing can carry: an id of at most 254 bytes, not both parts empty.\<close>

definition msg_ok :: "message \<Rightarrow> bool" where
  "msg_ok m \<longleftrightarrow> length (fst m) \<le> 254 \<and> (fst m \<noteq> [] \<or> snd m \<noteq> []) \<and>
     9 + length (fst m) + length (snd m) \<le> cb_limit"

lemma frames_simps [simp]:
  "frames [] = []" "frames ((i, d) # msgs) = pack i d @ frames msgs"
  "frames (ms @ ns) = frames ms @ frames ns"
  by (simp_all add: frames_def)

lemma payloads_simps [simp]:
  "payloads [] i = []" "payloads ((i', d) # msgs) i = (if i' = i then d else []) @ payloads msgs i"
  "payloads (ms @ ns) i = payloads ms i @ payloads ns i"
  by (simp_all add: payloads_def)

lemma parse_message:
  assumes "msg_ok (i, d)"
  shows "parse_frame [] [] (pack i d @ rest) = Inr (9 + length i + length d, i, d, rest)"
    and "frame_ready (pack i d @ rest)"
proof -
  have "9 + length i + length d \<le> string_max_size" and ok: "length i \<le> 254" "i \<noteq> [] \<or> d \<noteq> []"
    using assms by (simp_all add: msg_ok_def cb_limit_def string_max_size_def)
  then show "parse_frame [] [] (pack i d @ rest) = Inr (9 + length i + length d, i, d, rest)"
    by (intro parse_pack_ok)
  then show "frame_ready (pack i d @ rest)"
    by (rule contrapos_pp) (simp add: parse_frame_def)
qed

lemma incomplete_frame:
  assumes "msg_ok (i, d)" and "rq @ rest = pack i d @ tail" and "frame_ready rq"
  shows "\<exists>rq'. rq = pack i d @ rq'"
proof -
  have q8: "9 < length rq" and len: "unat (bytes_u64 (take 8 rq)) \<le> length rq"
    using assms(3) by (auto simp: frame_ready_def)
  have "take 8 rq = take 8 (rq @ rest)" using q8 by simp
  then have "take 8 rq = take 8 (pack i d @ tail)" using assms(2) by simp
  then have "unat (bytes_u64 (take 8 rq)) = 9 + length i + length d"
    using assms(1) take_pack_header [of i d tail] by (simp add: msg_ok_def cb_limit_def)
  with len assms(2) show ?thesis
    by (metis append_eq_append_conv_if append_take_drop_id length_pack)
qed

end
