(* ===== verification/Delivery.thy ===== *)
theory Delivery
  imports Connection
begin

text \<open>
  Two ends of one connection and the byte stream between them. A \<open>link\<close> step is one critical section
  of one of the threads: a client's \<open>send\<close> or \<open>recv\<close>, a round of the sending thread with its loop
  around \<open>write\<close>, the arrival of any part of the stream, a round of the receiving thread. The
  transport is modelled as what TCP documents: bytes arrive once and in order, cut anywhere.

  \<open>link_inv\<close> relates every reachable state to the messages sent so far; the rest of the theory is the
  behaviour of the receiving loop by itself.
\<close>

section \<open>Sending operations on the abstract content\<close>

lemma send_msg_ok:
  assumes "conn_repr c rq ms sq" and "length sq + (9 + length i + length d) \<le> cb_limit"
  shows "\<exists>c'. send_msg c i d = Inr (word_of_nat (9 + length i + length d), c') \<and>
    conn_repr c' rq ms (sq @ pack i d) \<and> stop_works c' = stop_works c \<and> state c' = state c"
proof -
  obtain b where "cb_write (send_buffer c) (pack i d) = Inr (word_of_nat (length (pack i d)), b)"
    "cb_repr b (sq @ pack i d)"
    using cb.put_ok [of "send_buffer c" sq "pack i d"] assms by (auto simp: conn_repr_def)
  with assms(1) show ?thesis by (simp add: send_msg_def put_into_send_buffer_def conn_repr_def)
qed

lemma drain_repr:
  assumes "cb_repr b q"
  shows "\<exists>b'. cb_read b (cb_size b) = Inr (cb_size b, q, b') \<and> cb_repr b' []"
    and "0 < cb_size b \<longleftrightarrow> q \<noteq> []"
  using cb.drain [OF assms] cb.count_ok [OF assms] by (auto simp: word_less_nat_alt)

lemma send_step_ok:
  assumes "conn_repr c rq ms sq" and "\<not> stop_requested c task"
  shows "send_step task c = Inr Waiting \<and> sq = [] \<or>
    (\<exists>c'. send_step task c = Inr (Stepped (sq, c')) \<and> sq \<noteq> [] \<and> conn_repr c' rq ms [] \<and>
      stop_works c' = stop_works c \<and> state c' = state c)"
proof -
  have sq: "cb_repr (send_buffer c) sq" using assms(1) by (simp add: conn_repr_def)
  show ?thesis
    using drain_repr [OF sq] assms by (cases "sq = []") (auto simp: send_step_def conn_repr_def)
qed

lemma flush_send_buffer_ok:
  assumes "conn_repr c rq ms sq"
  shows "\<exists>c'. flush_send_buffer c = Inr (sq, c') \<and> conn_repr c' rq ms [] \<and> state c' = state c"
proof -
  have sq: "cb_repr (send_buffer c) sq" using assms by (simp add: conn_repr_def)
  show ?thesis
    using drain_repr [OF sq] assms by (cases "sq = []") (auto simp: flush_send_buffer_def conn_repr_def)
qed

lemma conn_write_ok:
  assumes "conn_repr c rq ms sq" and "length rq + length d \<le> cb_limit"
  shows "\<exists>c'. conn_write c d = Inr c' \<and> conn_repr c' (rq @ d) ms sq \<and>
    stop_works c' = stop_works c \<and> state c' = state c"
proof -
  obtain b where "cb_write (buffer c) d = Inr (word_of_nat (length d), b)" "cb_repr b (rq @ d)"
    using cb.put_ok [of "buffer c" rq d] assms by (auto simp: conn_repr_def)
  with assms(1) show ?thesis by (simp add: conn_write_def conn_repr_def)
qed

section \<open>A client's recv on the abstract content\<close>

lemma conn_recv_ok:
  assumes "conn_repr c rq ms sq" and "\<not> (tmpstate = Connected \<and> state c \<noteq> Connected)"
    and "elapsed \<le> (if timeout < 0 then 1000 * 1000000 else timeout)"
  shows "if unat len \<le> length (ms i) \<and> std_find (mapbuffer c) i \<noteq> None
    then \<exists>c'. conn_recv tmpstate elapsed c i len timeout = Inr (sint len, take (unat len) (ms i), c') \<and>
      conn_repr c' rq (ms(i := drop (unat len) (ms i))) sq \<and>
      stop_works c' = stop_works c \<and> state c' = state c
    else conn_recv tmpstate elapsed c i len timeout = Inl Would_Block"
proof (cases "std_find (mapbuffer c) i")
  case None
  then show ?thesis using assms(2,3) by (auto simp: conn_recv_def Let_def)
next
  case (Some b)
  have st: "streams (mapbuffer c) ms" using assms(1) by (simp add: conn_repr_def)
  note b = streams_at [OF st Some]
  show ?thesis
  proof (cases "unat len \<le> length (ms i)")
    case True
    then obtain b' where "cb_read b len = Inr (len, take (unat len) (ms i), b')"
      "cb_repr b' (drop (unat len) (ms i))"
      using cb.get_ok [OF b True] by auto
    then show ?thesis
      using True Some assms streams_assign [OF st, of b'] cb_can_read_n_iff [OF b, of len]
      by (auto simp: conn_recv_def conn_repr_def Let_def)
  next
    case False
    then show ?thesis using Some assms(2,3) cb_can_read_n_iff [OF b, of len]
      by (auto simp: conn_recv_def Let_def)
  qed
qed

text \<open>Everything under an id can be received at once.\<close>

lemma conn_recv_all:
  assumes "conn_repr c rq ms sq" and "length (ms i) \<le> cb_limit" and "ms i \<noteq> []"
  shows "\<exists>len n c'. conn_recv (state c) 0 c i len (-1) = Inr (n, ms i, c') \<and> 0 \<le> n"
proof -
  let ?len = "word_of_nat (length (ms i)) :: u64"
  have len: "unat ?len = length (ms i)" "length (ms i) < 2 ^ 63"
    using assms(2) by (simp_all add: cb_limit_def unat_u64_of_nat)
  then have "0 \<le> sint ?len" by (simp add: signed_of_nat signed_take_bit_int_eq_self)
  moreover have "streams (mapbuffer c) ms" using assms(1) by (simp add: conn_repr_def)
  with assms(3) have "std_find (mapbuffer c) i \<noteq> None" using streams_none by blast
  then obtain c' where "conn_recv (state c) 0 c i ?len (-1) = Inr (sint ?len, ms i, c')"
    using conn_recv_ok [OF assms(1), of "state c" 0 "-1" ?len i] len by auto
  ultimately show ?thesis by blast
qed

section \<open>The link\<close>

record link =
  tx :: connection
  wire :: bytes
  rx :: connection
  sent :: "message list"            \<comment> \<open>the messages \<open>send\<close> accepted so far\<close>
  got :: "bytes \<Rightarrow> bytes"            \<comment> \<open>what \<open>recv\<close> returned so far, by message id\<close>

definition new_link :: "connection \<Rightarrow> connection \<Rightarrow> link" where
  "new_link a b = \<lparr>tx = a, wire = [], rx = b, sent = [], got = (\<lambda>_. [])\<rparr>"

inductive link_step :: "bytes \<Rightarrow> link \<Rightarrow> link \<Rightarrow> bool" for task where
  Send: "msg_ok (i, d) \<Longrightarrow> length (frames (sent l @ [(i, d)])) \<le> cb_limit \<Longrightarrow>
    send_msg (tx l) i d = Inr (n, c) \<Longrightarrow>
    link_step task l (l\<lparr>tx := c, sent := sent l @ [(i, d)]\<rparr>)"
| Drain: "send_step task (tx l) = Inr (Stepped (data, c)) \<Longrightarrow>
    writen e rs data = Some (int (length data), out, e', rs') \<Longrightarrow>
    link_step task l (l\<lparr>tx := c, wire := wire l @ out\<rparr>)"
| Arrive: "wire l = data @ rest \<Longrightarrow> conn_write (rx l) data = Inr c \<Longrightarrow>
    link_step task l (l\<lparr>rx := c, wire := rest\<rparr>)"
| Round: "recv_step task (rx l) = Inr (Stepped c) \<Longrightarrow> link_step task l (l\<lparr>rx := c\<rparr>)"
| Recv: "conn_recv tmpstate elapsed (rx l) i len timeout = Inr (n, data, c) \<Longrightarrow> 0 \<le> n \<Longrightarrow>
    link_step task l (l\<lparr>rx := c, got := (got l)(i := got l i @ data)\<rparr>)"

inductive_cases link_stepE: "link_step task l l'"

text \<open>The stop flags and the content of the buffers along the way: the frames sent are the ones the
  receiver has unpacked, then its receive buffer, the stream, and the sender's buffer.\<close>

definition link_inv :: "bytes \<Rightarrow> link \<Rightarrow> bool" where
  "link_inv task l \<longleftrightarrow>
    (\<exists>arrived todo rq ms sq trq tms rsq.
      conn_repr (tx l) trq tms sq \<and> conn_repr (rx l) rq ms rsq \<and>
      sent l = arrived @ todo \<and> frames todo = rq @ wire l @ sq \<and>
      (\<forall>i. payloads arrived i = got l i @ ms i) \<and>
      list_all msg_ok (sent l) \<and> length (frames (sent l)) \<le> cb_limit \<and>
      \<not> stop_requested (tx l) task \<and> \<not> stop_requested (rx l) task)"

lemma link_invI:
  assumes "conn_repr (tx l) trq tms sq" "conn_repr (rx l) rq ms rsq"
    "sent l = arrived @ todo" "frames todo = rq @ wire l @ sq"
    "\<And>i. payloads arrived i = got l i @ ms i" "list_all msg_ok (sent l)"
    "length (frames (sent l)) \<le> cb_limit"
    "\<not> stop_requested (tx l) task" "\<not> stop_requested (rx l) task"
  shows "link_inv task l"
  using assms unfolding link_inv_def by blast

lemma link_invE:
  assumes "link_inv task l"
  obtains arrived todo rq ms sq trq tms rsq where
    "conn_repr (tx l) trq tms sq" "conn_repr (rx l) rq ms rsq"
    "sent l = arrived @ todo" "frames todo = rq @ wire l @ sq"
    "\<And>i. payloads arrived i = got l i @ ms i" "list_all msg_ok (sent l)"
    "length (frames (sent l)) \<le> cb_limit"
    "\<not> stop_requested (tx l) task" "\<not> stop_requested (rx l) task"
  using assms unfolding link_inv_def by blast

lemma payloads_le_frames: "length (payloads msgs i) \<le> length (frames msgs)"
  by (induction msgs) (auto simp: frames_def payloads_def)

lemma stop_requested_cong: "stop_works c = stop_works c' \<Longrightarrow> stop_requested c task = stop_requested c' task"
  by (simp add: stop_requested_def)

lemma writen_complete_out:
  assumes "writen e rs data = Some (int (length data), out, e', rs')"
  shows "out = data"
proof -
  from assms obtain ok where w: "writen_loop e rs data = Some (ok, out, e', rs')"
    and "int (length data) = (if ok then int (length out) else -1)"
    by (auto simp: writen_def)
  then have "length out = length data" by (auto split: if_splits)
  with writen_loop_prefix [OF w] show ?thesis by auto
qed

text \<open>What a round makes of the receive buffer, when the rest of the stream completes it to frames.\<close>

lemma round_consumes_message:
  assumes "conn_repr c rq ms sq" and "\<not> stop_requested c task"
    and "frames todo = rq @ rest" and "list_all msg_ok todo"
    and "\<And>i. length (ms i) + length (payloads todo i) \<le> cb_limit"
  shows "recv_step task c = Inr Waiting \<and> \<not> frame_ready rq \<or>
    (\<exists>i d todo' rq' c'. todo = (i, d) # todo' \<and> rq = pack i d @ rq' \<and> frames todo' = rq' @ rest \<and>
       recv_step task c = Inr (Stepped c') \<and> conn_repr c' rq' (ms(i := ms i @ d)) sq \<and>
       stop_works c' = stop_works c \<and> state c' = state c)"
proof (cases "frame_ready rq")
  case False
  with recv_step_waiting [OF assms(1,2)] show ?thesis by simp
next
  case True
  then have "rq \<noteq> []" by (auto simp: frame_ready_def)
  then obtain i d todo' where todo: "todo = (i, d) # todo'"
    using assms(3) by (cases todo) (auto simp: frames_def)
  then have ok: "msg_ok (i, d)" using assms(4) by simp
  have "rq @ rest = pack i d @ frames todo'" using assms(3) todo by simp
  from incomplete_frame [OF ok this True] obtain rq' where rq: "rq = pack i d @ rq'" by blast
  have len: "length (ms i) + length d \<le> cb_limit" using assms(5) [of i] todo by simp
  obtain c' where "recv_step task c = Inr (Stepped c')" "conn_repr c' rq' (ms(i := ms i @ d)) sq"
    "stop_works c' = stop_works c" "state c' = state c"
    using recv_step_message [OF assms(1,2) True _ len] parse_message(1) [OF ok, of rq'] rq by auto
  with todo rq assms(3) show ?thesis by auto
qed

section \<open>The invariant of the link\<close>

lemma link_inv_new:
  "stop_works a = [] \<Longrightarrow> stop_works b = [] \<Longrightarrow> conn_repr a [] (\<lambda>_. []) [] \<Longrightarrow>
   conn_repr b [] (\<lambda>_. []) [] \<Longrightarrow> link_inv task (new_link a b)"
  by (rule link_invI [of _ "[]" "\<lambda>_. []" "[]" "[]" "\<lambda>_. []" "[]" "[]" "[]"])
    (simp_all add: new_link_def stop_requested_def cb_limit_def)

lemma link_inv_send:
  assumes "link_inv task l" and "msg_ok (i, d)" and "length (frames (sent l @ [(i, d)])) \<le> cb_limit"
    and "send_msg (tx l) i d = Inr (n, c)"
  shows "link_inv task (l\<lparr>tx := c, sent := sent l @ [(i, d)]\<rparr>)"
  using assms(1)
proof (rule link_invE)
  fix arrived todo rq ms sq trq tms rsq
  assume inv: "conn_repr (tx l) trq tms sq" "conn_repr (rx l) rq ms rsq"
    "sent l = arrived @ todo" "frames todo = rq @ wire l @ sq"
    "\<And>i. payloads arrived i = got l i @ ms i" "list_all msg_ok (sent l)"
    "\<not> stop_requested (tx l) task" "\<not> stop_requested (rx l) task"
  have "length sq + (9 + length i + length d) \<le> cb_limit"
    using assms(3) inv(3) arg_cong [OF inv(4), of length] by simp
  from send_msg_ok [OF inv(1) this] assms(4) have
    c: "conn_repr c trq tms (sq @ pack i d)" "stop_works c = stop_works (tx l)" by auto
  show ?thesis
    by (rule link_invI [of _ trq tms "sq @ pack i d" rq ms rsq arrived "todo @ [(i, d)]"])
      (use c inv assms(2,3) in \<open>simp_all add: stop_requested_def\<close>)
qed

lemma link_inv_drain:
  assumes "link_inv task l" and "send_step task (tx l) = Inr (Stepped (data, c))"
    and "writen e rs data = Some (int (length data), out, e', rs')"
  shows "link_inv task (l\<lparr>tx := c, wire := wire l @ out\<rparr>)"
  using assms(1)
proof (rule link_invE)
  fix arrived todo rq ms sq trq tms rsq
  assume inv: "conn_repr (tx l) trq tms sq" "conn_repr (rx l) rq ms rsq"
    "sent l = arrived @ todo" "frames todo = rq @ wire l @ sq"
    "\<And>i. payloads arrived i = got l i @ ms i" "list_all msg_ok (sent l)"
    "length (frames (sent l)) \<le> cb_limit"
    "\<not> stop_requested (tx l) task" "\<not> stop_requested (rx l) task"
  have c: "conn_repr c trq tms []" "data = sq" "stop_works c = stop_works (tx l)"
    using send_step_ok [OF inv(1,8)] assms(2) by auto
  show ?thesis
    by (rule link_invI [of _ trq tms "[]" rq ms rsq arrived todo])
      (use c inv writen_complete_out [OF assms(3)] in \<open>simp_all add: stop_requested_def\<close>)
qed

lemma link_inv_arrive:
  assumes "link_inv task l" and "wire l = data @ rest" and "conn_write (rx l) data = Inr c"
  shows "link_inv task (l\<lparr>rx := c, wire := rest\<rparr>)"
  using assms(1)
proof (rule link_invE)
  fix arrived todo rq ms sq trq tms rsq
  assume inv: "conn_repr (tx l) trq tms sq" "conn_repr (rx l) rq ms rsq"
    "sent l = arrived @ todo" "frames todo = rq @ wire l @ sq"
    "\<And>i. payloads arrived i = got l i @ ms i" "list_all msg_ok (sent l)"
    "length (frames (sent l)) \<le> cb_limit"
    "\<not> stop_requested (tx l) task" "\<not> stop_requested (rx l) task"
  have "length rq + length data \<le> cb_limit"
    using inv(3,7) arg_cong [OF inv(4), of length] assms(2) by simp
  from conn_write_ok [OF inv(2) this] assms(3) have
    c: "conn_repr c (rq @ data) ms rsq" "stop_works c = stop_works (rx l)" by auto
  show ?thesis
    by (rule link_invI [of _ trq tms sq "rq @ data" ms rsq arrived todo])
      (use c inv assms(2) in \<open>simp_all add: stop_requested_def\<close>)
qed

lemma link_inv_round:
  assumes "link_inv task l" and "recv_step task (rx l) = Inr (Stepped c)"
  shows "link_inv task (l\<lparr>rx := c\<rparr>)"
  using assms(1)
proof (rule link_invE)
  fix arrived todo rq ms sq trq tms rsq
  assume inv: "conn_repr (tx l) trq tms sq" "conn_repr (rx l) rq ms rsq"
    "sent l = arrived @ todo" "frames todo = rq @ wire l @ sq"
    "\<And>i. payloads arrived i = got l i @ ms i" "list_all msg_ok (sent l)"
    "length (frames (sent l)) \<le> cb_limit"
    "\<not> stop_requested (tx l) task" "\<not> stop_requested (rx l) task"
  have ok: "list_all msg_ok todo" using inv(3,6) by simp
  have lim: "length (ms j) + length (payloads todo j) \<le> cb_limit" for j
    using arg_cong [OF inv(5) [of j], of length] payloads_le_frames [of "sent l" j] inv(3,7) by simp
  obtain i d todo' rq' where t: "todo = (i, d) # todo'" "rq = pack i d @ rq'"
    "frames todo' = rq' @ wire l @ sq" "conn_repr c rq' (ms(i := ms i @ d)) rsq"
    "stop_works c = stop_works (rx l)"
    using round_consumes_message [OF inv(2,9,4) ok lim] assms(2) by auto
  show ?thesis
    by (rule link_invI [of _ trq tms sq rq' "ms(i := ms i @ d)" rsq "arrived @ [(i, d)]" todo'])
      (use t inv in \<open>simp_all add: stop_requested_def\<close>)
qed

lemma link_inv_recv:
  assumes "link_inv task l" and "conn_recv tmpstate elapsed (rx l) i len timeout = Inr (n, data, c)" "0 \<le> n"
  shows "link_inv task (l\<lparr>rx := c, got := (got l)(i := got l i @ data)\<rparr>)"
  using assms(1)
proof (rule link_invE)
  fix arrived todo rq ms sq trq tms rsq
  assume inv: "conn_repr (tx l) trq tms sq" "conn_repr (rx l) rq ms rsq"
    "sent l = arrived @ todo" "frames todo = rq @ wire l @ sq"
    "\<And>i. payloads arrived i = got l i @ ms i" "list_all msg_ok (sent l)"
    "length (frames (sent l)) \<le> cb_limit"
    "\<not> stop_requested (tx l) task" "\<not> stop_requested (rx l) task"
  have pre: "\<not> (tmpstate = Connected \<and> state (rx l) \<noteq> Connected)"
    "elapsed \<le> (if timeout < 0 then 1000 * 1000000 else timeout)"
    using assms(2,3) by (auto simp: conn_recv_def Let_def E_UNCONNECTED_def E_TIMEOUT_def split: if_splits)
  have c: "conn_repr c rq (ms(i := drop (unat len) (ms i))) rsq" "data = take (unat len) (ms i)"
    "stop_works c = stop_works (rx l)"
    using conn_recv_ok [OF inv(2) pre, of len i] assms(2) by (auto split: if_splits)
  show ?thesis
    by (rule link_invI [of _ trq tms sq rq "ms(i := drop (unat len) (ms i))" rsq arrived todo])
      (use c inv in \<open>simp_all add: stop_requested_def\<close>)
qed

lemma link_inv_step: "link_step task l l' \<Longrightarrow> link_inv task l \<Longrightarrow> link_inv task l'"
  by (erule link_stepE)
    (auto intro: link_inv_send link_inv_drain link_inv_arrive link_inv_round link_inv_recv)

lemma link_inv_steps: "(link_step task)\<^sup>*\<^sup>* l l' \<Longrightarrow> link_inv task l \<Longrightarrow> link_inv task l'"
  by (induction rule: rtranclp_induct) (auto intro: link_inv_step)

section \<open>What the invariant gives\<close>

lemma link_inv_prefix: "link_inv task l \<Longrightarrow> \<exists>rest. payloads (sent l) i = got l i @ rest"
  by (elim link_invE) (metis payloads_simps(3) append.assoc)

lemma link_inv_safe:
  assumes "link_inv task l"
  shows "\<exists>s. recv_step task (rx l) = Inr s" and "\<exists>s. send_step task (tx l) = Inr s"
    and "wire l = data @ rest \<Longrightarrow> \<exists>c. conn_write (rx l) data = Inr c"
    and "conn_recv tmpstate elapsed (rx l) i len timeout = Inl e \<Longrightarrow> e = Would_Block"
proof -
  show "\<exists>s. recv_step task (rx l) = Inr s" using assms
  proof (rule link_invE)
    fix arrived todo rq ms sq trq tms rsq
    assume inv: "conn_repr (rx l) rq ms rsq"
      "sent l = arrived @ todo" "frames todo = rq @ wire l @ sq"
      "\<And>i. payloads arrived i = got l i @ ms i" "list_all msg_ok (sent l)"
      "length (frames (sent l)) \<le> cb_limit" "\<not> stop_requested (rx l) task"
    have lim: "length (ms j) + length (payloads todo j) \<le> cb_limit" for j
      using arg_cong [OF inv(4) [of j], of length] payloads_le_frames [of "sent l" j] inv(2,6) by simp
    show ?thesis
      using round_consumes_message [OF inv(1,7,3) _ lim] inv(2,5) by auto
  qed
  show "\<exists>s. send_step task (tx l) = Inr s"
    using assms by (elim link_invE) (use send_step_ok in blast)
  show "\<exists>c. conn_write (rx l) data = Inr c" if w: "wire l = data @ rest" using assms
  proof (rule link_invE)
    fix arrived todo rq ms sq trq tms rsq
    assume inv: "conn_repr (rx l) rq ms rsq" "sent l = arrived @ todo"
      "frames todo = rq @ wire l @ sq" "length (frames (sent l)) \<le> cb_limit"
    have "length rq + length data \<le> cb_limit"
      using inv(2,4) arg_cong [OF inv(3), of length] w by simp
    from conn_write_ok [OF inv(1) this] show ?thesis by blast
  qed
  show "e = Would_Block" if r: "conn_recv tmpstate elapsed (rx l) i len timeout = Inl e" using assms
  proof (rule link_invE)
    fix rq ms rsq
    assume inv: "conn_repr (rx l) rq ms rsq"
    have pre: "\<not> (tmpstate = Connected \<and> state (rx l) \<noteq> Connected)"
      "elapsed \<le> (if timeout < 0 then 1000 * 1000000 else timeout)"
      using r by (auto simp: conn_recv_def Let_def split: if_splits)
    from conn_recv_ok [OF inv pre, of len i] r show ?thesis by (auto split: if_splits)
  qed
qed

section \<open>Nothing is stuck\<close>

lemma writen_whole: "\<exists>e' rs'. writen e [Ret (length data)] data = Some (int (length data), data, e', rs')"
  by (cases data) (auto simp: writen_def)

lemma rounds_deliver:
  assumes "conn_repr (rx l) (frames todo) ms rsq" and "\<not> stop_requested (rx l) task"
    and "list_all msg_ok todo" and "\<And>i. length (ms i) + length (payloads todo i) \<le> cb_limit"
  shows "\<exists>c. (link_step task)\<^sup>*\<^sup>* l (l\<lparr>rx := c\<rparr>) \<and>
    conn_repr c [] (\<lambda>i. ms i @ payloads todo i) rsq \<and> state c = state (rx l)"
  using assms
proof (induction todo arbitrary: l ms)
  case Nil
  then show ?case by (intro exI [of _ "rx l"]) (auto simp: fun_eq_iff)
next
  case (Cons m todo)
  obtain i d where m: "m = (i, d)" by fastforce
  have ok: "msg_ok (i, d)" using Cons.prems(3) m by simp
  have fr: "frame_ready (frames (m # todo))" using parse_message(2) [OF ok] m by simp
  have len: "length (ms i) + length d \<le> cb_limit" using Cons.prems(4) [of i] m by simp
  obtain c where c: "recv_step task (rx l) = Inr (Stepped c)"
    "conn_repr c (frames todo) (ms(i := ms i @ d)) rsq" "stop_works c = stop_works (rx l)"
    "state c = state (rx l)"
    using recv_step_message [OF Cons.prems(1,2) fr _ len] parse_message(1) [OF ok, of "frames todo"] m
    by auto
  have lim: "length ((ms(i := ms i @ d)) j) + length (payloads todo j) \<le> cb_limit" for j
    using Cons.prems(4) [of j] m by (simp split: if_splits)
  have c2: "conn_repr (rx (l\<lparr>rx := c\<rparr>)) (frames todo) (ms(i := ms i @ d)) rsq" using c(2) by simp
  obtain c' where c': "(link_step task)\<^sup>*\<^sup>* (l\<lparr>rx := c\<rparr>) (l\<lparr>rx := c'\<rparr>)"
    "conn_repr c' [] (\<lambda>j. (ms(i := ms i @ d)) j @ payloads todo j) rsq" "state c' = state c"
    using Cons.IH [OF c2 _ _ lim] c(3) Cons.prems(2,3) by (auto simp: stop_requested_def)
  have "(\<lambda>j. (ms(i := ms i @ d)) j @ payloads todo j) = (\<lambda>j. ms j @ payloads (m # todo) j)"
    using m by auto
  moreover have "(link_step task)\<^sup>*\<^sup>* l (l\<lparr>rx := c'\<rparr>)"
    using link_step.Round [OF c(1)] c'(1) by (rule converse_rtranclp_into_rtranclp)
  ultimately show ?case using c'(2,3) c(4) by auto
qed

lemma link_quiesce:
  assumes "link_inv task l"
  shows "\<exists>l' ms rsq. (link_step task)\<^sup>*\<^sup>* l l' \<and> sent l' = sent l \<and> got l' = got l \<and>
    conn_repr (rx l') [] ms rsq \<and> (\<forall>i. payloads (sent l) i = got l i @ ms i) \<and>
    length (frames (sent l)) \<le> cb_limit"
  using assms
proof (rule link_invE)
  fix arrived todo rq ms sq trq tms rsq
  assume inv: "conn_repr (tx l) trq tms sq" "conn_repr (rx l) rq ms rsq"
    "sent l = arrived @ todo" "frames todo = rq @ wire l @ sq"
    "\<And>i. payloads arrived i = got l i @ ms i" "list_all msg_ok (sent l)"
    "length (frames (sent l)) \<le> cb_limit"
    "\<not> stop_requested (tx l) task" "\<not> stop_requested (rx l) task"
  have "\<exists>c. (link_step task)\<^sup>*\<^sup>* l (l\<lparr>tx := c, wire := wire l @ sq\<rparr>)"
    using send_step_ok [OF inv(1,8)]
  proof (elim disjE exE conjE)
    assume "sq = []"
    then show ?thesis by (intro exI [of _ "tx l"]) simp
  next
    fix c assume s: "send_step task (tx l) = Inr (Stepped (sq, c))"
    obtain e' rs' where "writen No_Error [Ret (length sq)] sq = Some (int (length sq), sq, e', rs')"
      using writen_whole by blast
    from link_step.Drain [OF s this] show ?thesis by blast
  qed
  then obtain c where s1: "(link_step task)\<^sup>*\<^sup>* l (l\<lparr>tx := c, wire := wire l @ sq\<rparr>)" ..
  let ?l1 = "l\<lparr>tx := c, wire := wire l @ sq\<rparr>"
  have "length rq + length (wire l @ sq) \<le> cb_limit"
    using inv(3,7) arg_cong [OF inv(4), of length] by simp
  then obtain r where r: "conn_write (rx l) (wire l @ sq) = Inr r" "conn_repr r (rq @ wire l @ sq) ms rsq"
    "stop_works r = stop_works (rx l)"
    using conn_write_ok [OF inv(2)] by blast
  let ?l2 = "?l1\<lparr>rx := r, wire := []\<rparr>"
  have s2: "link_step task ?l1 ?l2" using r(1) by (intro link_step.Arrive) simp_all
  have lim: "length (ms j) + length (payloads todo j) \<le> cb_limit" for j
    using arg_cong [OF inv(5) [of j], of length] payloads_le_frames [of "sent l" j] inv(3,7) by simp
  have ok: "list_all msg_ok todo" using inv(3,6) by simp
  obtain c2 where s3: "(link_step task)\<^sup>*\<^sup>* ?l2 (?l2\<lparr>rx := c2\<rparr>)"
    "conn_repr c2 [] (\<lambda>i. ms i @ payloads todo i) rsq"
    using rounds_deliver [of ?l2 todo ms rsq task] r(2,3) inv(4,9) ok lim by (auto simp: stop_requested_def)
  have "(link_step task)\<^sup>*\<^sup>* l (?l2\<lparr>rx := c2\<rparr>)"
    using s1 s2 s3(1) by (meson converse_rtranclp_into_rtranclp rtranclp_trans)
  moreover have "payloads (sent l) i = got l i @ ms i @ payloads todo i" for i
    using inv(3,5) by simp
  ultimately show ?thesis using s3(2) inv(7)
    by (intro exI [of _ "?l2\<lparr>rx := c2\<rparr>"] exI [of _ "\<lambda>i. ms i @ payloads todo i"] exI [of _ rsq]) simp
qed

lemma link_can_deliver:
  assumes "link_inv task l"
  shows "\<exists>l'. (link_step task)\<^sup>*\<^sup>* l l' \<and> sent l' = sent l \<and> got l' i = payloads (sent l) i"
proof -
  obtain l1 ms rsq where l1: "(link_step task)\<^sup>*\<^sup>* l l1" "sent l1 = sent l" "got l1 = got l"
    "conn_repr (rx l1) [] ms rsq" "\<And>i. payloads (sent l) i = got l i @ ms i"
    "length (frames (sent l)) \<le> cb_limit"
    using link_quiesce [OF assms] by blast
  show ?thesis
  proof (cases "ms i = []")
    case True
    with l1 show ?thesis by (metis append_Nil2)
  next
    case False
    have "length (ms i) \<le> cb_limit"
      using l1(6) payloads_le_frames [of "sent l" i] arg_cong [OF l1(5) [of i], of length] by simp
    from conn_recv_all [OF l1(4) this False] obtain len n c
      where c: "conn_recv (state (rx l1)) 0 (rx l1) i len (-1) = Inr (n, ms i, c)" and pos: "0 \<le> n" by blast
    from rtranclp.rtrancl_into_rtrancl [OF l1(1) link_step.Recv [OF c pos]] l1(2,3,5) show ?thesis
      by (intro exI [of _ "l1\<lparr>rx := c, got := (got l1)(i := got l1 i @ ms i)\<rparr>"]) simp
  qed
qed

section \<open>The receiving loop\<close>

lemma loop_recv_waiting: "recv_step task c = Inr Waiting \<Longrightarrow> loop_recv task c = Some (Inr (False, c))"
  by (simp add: loop_recv.simps)

lemma loop_recv_stepped: "recv_step task c = Inr (Stepped c') \<Longrightarrow> loop_recv task c = loop_recv task c'"
  by (subst loop_recv.simps) simp

lemma loop_recv_stopped: "stop_requested c task \<Longrightarrow> loop_recv task c = Some (Inr (True, c))"
  by (simp add: loop_recv.simps recv_step_def)

lemma loop_recv_messages:
  assumes "conn_repr c (frames msgs @ part) ms sq" and "\<not> stop_requested c task"
    and "list_all msg_ok msgs" and "\<not> frame_ready part"
    and "\<And>i. length (ms i) + length (payloads msgs i) \<le> cb_limit"
  shows "\<exists>c'. loop_recv task c = Some (Inr (False, c')) \<and>
    conn_repr c' part (\<lambda>i. ms i @ payloads msgs i) sq"
  using assms
proof (induction msgs arbitrary: c ms)
  case Nil
  then show ?case
    using loop_recv_waiting [OF recv_step_waiting, of c part ms sq task] by auto
next
  case (Cons m msgs)
  obtain i d where m: "m = (i, d)" by fastforce
  have ok: "msg_ok (i, d)" using Cons.prems(3) m by simp
  have fr: "frame_ready (frames (m # msgs) @ part)"
    using parse_message(2) [OF ok, of "frames msgs @ part"] m by simp
  have len: "length (ms i) + length d \<le> cb_limit" using Cons.prems(5) [of i] m by simp
  obtain c1 where c1: "recv_step task c = Inr (Stepped c1)"
    "conn_repr c1 (frames msgs @ part) (ms(i := ms i @ d)) sq" "stop_works c1 = stop_works c"
    using recv_step_message [OF Cons.prems(1,2) fr _ len]
      parse_message(1) [OF ok, of "frames msgs @ part"] m by auto
  have lim: "length ((ms(i := ms i @ d)) j) + length (payloads msgs j) \<le> cb_limit" for j
    using Cons.prems(5) [of j] m by (simp split: if_splits)
  have stop: "\<not> stop_requested c1 task" using c1(3) Cons.prems(2) by (simp add: stop_requested_def)
  have ok': "list_all msg_ok msgs" using Cons.prems(3) by simp
  obtain c2 where "loop_recv task c1 = Some (Inr (False, c2))"
    "conn_repr c2 part (\<lambda>j. (ms(i := ms i @ d)) j @ payloads msgs j) sq"
    using Cons.IH [OF c1(2) stop ok' Cons.prems(4) lim] by blast
  moreover have "(\<lambda>j. (ms(i := ms i @ d)) j @ payloads msgs j) = (\<lambda>j. ms j @ payloads (m # msgs) j)"
    using m by auto
  ultimately show ?case using loop_recv_stepped [OF c1(1)] by auto
qed

text \<open>A length prefix of at most nine satisfies \<open>can_read\<close> but is never consumed by \<open>read\<close>.\<close>

definition wedged :: "bytes \<Rightarrow> bool" where
  "wedged q \<longleftrightarrow> 9 < length q \<and> unat (bytes_u64 (take 8 q)) \<le> 9"

lemma parse_wedged: "wedged q \<Longrightarrow> parse_frame [] [] q = Inr (0, [], [], q) \<and> frame_ready q"
  by (auto simp: wedged_def parse_frame_def frame_ready_def resize_def string_max_size_def Let_def)

lemma wedged_round:
  assumes "conn_repr c q ms sq" and "wedged q" and "\<not> stop_requested c task"
    and "length (ms []) \<le> cb_limit"
  shows "\<exists>c'. recv_step task c = Inr (Stepped c') \<and> conn_repr c' q ms sq \<and> \<not> stop_requested c' task"
  using recv_step_message [OF assms(1,3), of 0 "[]" "[]" q] parse_wedged [OF assms(2)] assms(3,4)
  by (auto simp: stop_requested_def)

lemma wedged_never_returns:
  assumes "loop_recv task c = Some r"
  shows "\<not> (conn_repr c q ms sq \<and> wedged q \<and> \<not> stop_requested c task \<and> length (ms []) \<le> cb_limit)"
  using assms
proof (induction task c r rule: loop_recv.raw_induct)
  case (1 loop task c r)
  show ?case
  proof
    assume a: "conn_repr c q ms sq \<and> wedged q \<and> \<not> stop_requested c task \<and> length (ms []) \<le> cb_limit"
    then obtain c' where c': "recv_step task c = Inr (Stepped c')" "conn_repr c' q ms sq"
      "\<not> stop_requested c' task"
      using wedged_round by blast
    have "loop task c' = Some r" using 1(2) c'(1) by simp
    moreover have "loop_recv task c' = Some r" using 1(3) loop_recv_stepped [OF c'(1)] by simp
    ultimately show False using 1(1) c' a by blast
  qed
qed (rule assms)

lemma wedged_empty_message: "wedged (pack [] [] @ b # rest)"
  using take_pack_header [of "[]" "[]" "b # rest"] by (simp add: wedged_def)

section \<open>A concrete link\<close>

definition conn0 :: connection where
  "conn0 = new_connection 3 0 False ''peer''"

lemma conn0_repr: "conn_repr conn0 [] (\<lambda>_. []) []"
  and conn0_fields [simp]: "stop_works conn0 = []" "state conn0 = Invalid"
  by (simp_all add: conn0_def new_connection_repr) (simp_all add: new_connection_def)

lemma conn0_write:
  assumes "length d \<le> cb_limit"
  obtains c where "conn_write conn0 d = Inr c" "conn_repr c d (\<lambda>_. []) []" "stop_works c = []"
  using conn_write_ok [OF conn0_repr, of d] assms by auto

lemma conn0_send:
  obtains c where "send_msg conn0 ''k'' ''v'' = Inr (11, c)" "conn_repr c [] (\<lambda>_. []) (pack ''k'' ''v'')"
    "state c = Invalid"
  using send_msg_ok [OF conn0_repr, of "''k''" "''v''"] by (auto simp: cb_limit_def)

lemma link_inv_reach:
  assumes "(link_step task)\<^sup>*\<^sup>* (new_link (new_connection f ev srv p) (new_connection f' ev' srv' p')) l"
  shows "link_inv task l"
proof (rule link_inv_steps [OF assms])
  show "link_inv task (new_link (new_connection f ev srv p) (new_connection f' ev' srv' p'))"
    by (rule link_inv_new) (simp_all add: new_connection_repr, simp_all add: new_connection_def)
qed

lemma reach_one_message:
  obtains l where "(link_step task)\<^sup>*\<^sup>* (new_link (new_connection 3 0 False ''peer'')
     (new_connection 3 0 False ''peer'')) l" "sent l = [(''k'', ''v'')]"
proof -
  let ?l = "new_link conn0 conn0"
  have m: "msg_ok (''k'', ''v'')" "length (frames (sent ?l @ [(''k'', ''v'')])) \<le> cb_limit"
    by (simp_all add: msg_ok_def cb_limit_def new_link_def)
  obtain c where "send_msg conn0 ''k'' ''v'' = Inr (11, c)" by (rule conn0_send)
  then have s: "send_msg (tx ?l) ''k'' ''v'' = Inr (11, c)" by (simp add: new_link_def)
  have "sent (?l\<lparr>tx := c, sent := sent ?l @ [(''k'', ''v'')]\<rparr>) = [(''k'', ''v'')]"
    by (simp add: new_link_def)
  then show ?thesis
    using r_into_rtranclp [of "link_step task", OF link_step.Send [OF m s]] that
    unfolding conn0_def by blast
qed

section \<open>Properties\<close>

text \<open>In every state two connected ends can reach, whatever the interleaving of their threads and
  however the stream is cut into reads, the bytes \<open>recv\<close> has returned for a message id are a prefix
  of the payloads sent under that id, in the order they were sent.\<close>

theorem received_is_prefix_of_sent:
  assumes "(link_step task)\<^sup>*\<^sup>* (new_link (new_connection f ev srv p) (new_connection f' ev' srv' p')) l"
  shows "\<exists>rest. payloads (sent l) i = got l i @ rest"
  by (rule link_inv_prefix [OF link_inv_reach [OF assms]])

theorem received_is_prefix_of_sent_witness:
  "\<exists>(l :: link) rest. sent l = [(''k'', ''v'')] \<and> ''v'' = got l ''k'' @ rest"
proof -
  obtain l where l: "(link_step ''t'')\<^sup>*\<^sup>* (new_link (new_connection 3 0 False ''peer'')
     (new_connection 3 0 False ''peer'')) l" "sent l = [(''k'', ''v'')]"
    by (rule reach_one_message)
  obtain rest where r: "payloads (sent l) ''k'' = got l ''k'' @ rest"
    using received_is_prefix_of_sent [OF l(1)] by blast
  have "payloads (sent l) ''k'' = ''v''" using l(2) by simp
  from trans [OF sym [OF this] r] l(2) show ?thesis by blast
qed

text \<open>In every such state no operation can fail: a round of the receiving thread, a round of the
  sending thread and the arrival of stream bytes succeed, and \<open>recv\<close> either succeeds or waits. In
  particular no buffer is read or written out of bounds.\<close>

theorem link_operations_are_safe:
  assumes "(link_step task)\<^sup>*\<^sup>* (new_link (new_connection f ev srv p) (new_connection f' ev' srv' p')) l"
  shows "(\<exists>s. recv_step task (rx l) = Inr s) \<and> (\<exists>s. send_step task (tx l) = Inr s) \<and>
    (\<forall>data rest. wire l = data @ rest \<longrightarrow> (\<exists>c. conn_write (rx l) data = Inr c)) \<and>
    (\<forall>st el i len tmo e. conn_recv st el (rx l) i len tmo = Inl e \<longrightarrow> e = Would_Block)"
  using link_inv_safe [OF link_inv_reach [OF assms]] by blast

theorem link_operations_are_safe_witness:
  "\<exists>(l :: link) s. sent l = [(''k'', ''v'')] \<and> send_step ''t'' (tx l) = Inr s"
proof -
  obtain l where l: "(link_step ''t'')\<^sup>*\<^sup>* (new_link (new_connection 3 0 False ''peer'')
     (new_connection 3 0 False ''peer'')) l" "sent l = [(''k'', ''v'')]"
    by (rule reach_one_message)
  obtain st where "send_step ''t'' (tx l) = Inr st"
    using link_operations_are_safe [OF l(1)] by (elim exE conjE) (rule that)
  with l(2) show ?thesis by (intro exI conjI)
qed

text \<open>C3: nothing gets stuck: from every such state the threads and the receiving client can go on, without
  further sends, to a state where \<open>recv\<close> has returned every payload byte sent under an id.\<close>

theorem sent_can_be_received:
  assumes "(link_step task)\<^sup>*\<^sup>* (new_link (new_connection f ev srv p) (new_connection f' ev' srv' p')) l"
  shows "\<exists>l'. (link_step task)\<^sup>*\<^sup>* l l' \<and> sent l' = sent l \<and> got l' i = payloads (sent l) i"
  by (rule link_can_deliver [OF link_inv_reach [OF assms]])

theorem sent_can_be_received_witness:
  "\<exists>l. (link_step ''t'')\<^sup>*\<^sup>* (new_link (new_connection 3 0 False ''peer'')
     (new_connection 3 0 False ''peer'')) l \<and> got l ''k'' = ''v''"
proof -
  obtain l where l: "(link_step ''t'')\<^sup>*\<^sup>* (new_link (new_connection 3 0 False ''peer'')
     (new_connection 3 0 False ''peer'')) l" "sent l = [(''k'', ''v'')]"
    by (rule reach_one_message)
  obtain l' where l': "(link_step ''t'')\<^sup>*\<^sup>* l l'" "got l' ''k'' = payloads (sent l) ''k''"
    using sent_can_be_received [OF l(1), of "''k''"] by (elim exE conjE) (rule that)
  have "payloads (sent l) ''k'' = ''v''" using l(2) by simp
  with l'(2) have "got l' ''k'' = ''v''" by (rule trans)
  with rtranclp_trans [OF l(1) l'(1)] show ?thesis by blast
qed

text \<open>C4: the receiving thread terminates on every run of complete messages followed by an incomplete
  one: it delivers all of them to the buffers of their ids, in order, keeps the incomplete part and
  waits.\<close>

theorem receive_loop_delivers:
  assumes "conn_repr c (frames msgs @ part) ms sq" and "\<not> stop_requested c task"
    and "list_all msg_ok msgs" and "\<not> frame_ready part"
    and "\<And>i. length (ms i) + length (payloads msgs i) \<le> cb_limit"
  shows "\<exists>c'. loop_recv task c = Some (Inr (False, c')) \<and>
    conn_repr c' part (\<lambda>i. ms i @ payloads msgs i) sq"
  by (rule loop_recv_messages [OF assms])

theorem receive_loop_delivers_witness:
  "\<exists>c c'. conn_write conn0 (frames [(''a'', ''xy''), (''b'', ''z''), (''a'', ''w'')] @ ''part'') = Inr c \<and>
     loop_recv ''t'' c = Some (Inr (False, c')) \<and>
     (\<exists>ms. conn_repr c' ''part'' ms [] \<and> ms ''a'' = ''xyw'' \<and> ms ''b'' = ''z'')"
proof -
  let ?msgs = "[(''a'', ''xy''), (''b'', ''z''), (''a'', ''w'')]"
  obtain c where c: "conn_write conn0 (frames ?msgs @ ''part'') = Inr c"
    and r: "conn_repr c (frames ?msgs @ ''part'') (\<lambda>_. []) []" "stop_works c = []"
    by (rule conn0_write [of "frames ?msgs @ ''part''"]) (simp add: cb_limit_def)
  have pre: "\<not> stop_requested c ''t''" "list_all msg_ok ?msgs" "\<not> frame_ready ''part''"
    using r(2) by (simp_all add: stop_requested_def msg_ok_def cb_limit_def frame_ready_def)
  have lim: "length [] + length (payloads ?msgs i) \<le> cb_limit" for i
    by (simp add: cb_limit_def)
  obtain c' where d: "loop_recv ''t'' c = Some (Inr (False, c'))"
    "conn_repr c' ''part'' (\<lambda>i. [] @ payloads ?msgs i) []"
    using receive_loop_delivers [OF r(1) pre lim] by blast
  have "[] @ payloads ?msgs ''a'' = ''xyw''" "[] @ payloads ?msgs ''b'' = ''z''" by simp_all
  with c d show ?thesis by blast
qed

text \<open>C38: a length prefix of at most nine wedges the receiving thread: with one more byte in the receive
  buffer \<open>can_read\<close> holds but \<open>read\<close> takes nothing, so \<open>loop_recv\<close> neither waits nor stops by itself.
  The message with an empty id and an empty payload, which \<open>send\<close> accepts, has such a prefix.\<close>

theorem empty_message_wedges_receiver:
  assumes "conn_repr c (pack [] [] @ b # rest) ms sq" and "\<not> stop_requested c task"
    and "length (ms []) \<le> cb_limit"
  shows "loop_recv task c = None"
  using wedged_never_returns [of task c] assms wedged_empty_message by (cases "loop_recv task c") blast+

theorem empty_message_wedges_receiver_witness:
  "\<exists>c. conn_write conn0 (pack [] [] @ pack ''a'' ''x'') = Inr c \<and> loop_recv ''t'' c = None"
proof -
  obtain b rest where br: "pack ''a'' ''x'' = b # rest"
    by (cases "pack ''a'' ''x''") (auto simp: pack_def Let_def)
  have "length (pack [] [] @ pack ''a'' ''x'') \<le> cb_limit" by (simp add: cb_limit_def)
  then obtain c where c: "conn_write conn0 (pack [] [] @ pack ''a'' ''x'') = Inr c"
    and r: "conn_repr c (pack [] [] @ pack ''a'' ''x'') (\<lambda>_. []) []" "stop_works c = []"
    by (rule conn0_write)
  have "\<not> stop_requested c ''t''" using r(2) by (simp add: stop_requested_def)
  with empty_message_wedges_receiver [of c b rest "\<lambda>_. []" "[]" "''t''"] r(1) c br show ?thesis by auto
qed

text \<open>\<open>recv\<close> returns exactly the next bytes of its id or waits; its time-out only matters before the
  first wait, so with too few bytes buffered it waits whatever time-out was asked for.\<close>

theorem recv_returns_next_bytes:
  assumes "conn_repr c rq ms sq" and "state c = st"
    and "elapsed \<le> (if timeout < 0 then 1000 * 1000000 else timeout)"
  shows "(length (ms i) < unat len \<longrightarrow> conn_recv st elapsed c i len timeout = Inl Would_Block) \<and>
    (0 < unat len \<and> unat len \<le> length (ms i) \<longrightarrow>
      (\<exists>c'. conn_recv st elapsed c i len timeout = Inr (sint len, take (unat len) (ms i), c') \<and>
        conn_repr c' rq (ms(i := drop (unat len) (ms i))) sq))"
proof -
  have "std_find (mapbuffer c) i \<noteq> None" if "ms i \<noteq> []"
    using assms(1) streams_none that by (auto simp: conn_repr_def)
  then show ?thesis
    using conn_recv_ok [OF assms(1) _ assms(3), of st len i] assms(2)
    by (cases "ms i = []") (auto split: if_splits)
qed

theorem recv_returns_next_bytes_witness: "conn_recv Invalid 0 conn0 ''a'' 4 50 = Inl Would_Block"
  using recv_returns_next_bytes [OF conn0_repr, of Invalid 0 50 4 "''a''"] by simp

text \<open>\<open>close\<close> writes out what is left in the send buffer before it closes the socket, exactly once:
  a second \<open>close\<close> does nothing.\<close>

theorem close_flushes_once:
  assumes "conn_repr c rq ms sq" and "state c \<noteq> Closed"
  shows "\<exists>c'. close_connection c = Inr (sq, True, c') \<and> state c' = Closed \<and> conn_repr c' rq ms [] \<and>
    close_connection c' = Inr ([], False, c')"
proof -
  have "conn_repr (c\<lparr>state := Closing\<rparr>) rq ms sq" using assms(1) by (simp add: conn_repr_def)
  from flush_send_buffer_ok [OF this] obtain c1 where
    "flush_send_buffer (c\<lparr>state := Closing\<rparr>) = Inr (sq, c1)" "conn_repr c1 rq ms []" by blast
  with assms(2) show ?thesis
    by (intro exI [of _ "c1\<lparr>state := Closed\<rparr>"]) (simp add: close_connection_def conn_repr_def)
qed

theorem close_flushes_once_witness:
  "\<exists>c c'. send_msg conn0 ''k'' ''v'' = Inr (11, c) \<and> close_connection c = Inr (pack ''k'' ''v'', True, c')"
proof -
  obtain c where c: "send_msg conn0 ''k'' ''v'' = Inr (11, c)" "conn_repr c [] (\<lambda>_. []) (pack ''k'' ''v'')"
    "state c = Invalid"
    by (rule conn0_send)
  with close_flushes_once [OF c(2)] show ?thesis by auto
qed

end
