(* ===== verification/Task_Scheduling.thy ===== *)
theory Task_Scheduling
  imports Delivery
begin

text \<open>
  Sharing a connection between tasks: \<open>start\<close>, \<open>do_start\<close>, \<open>stop\<close> and \<open>do_stop\<close> of \<open>connection.cpp\<close>. Every
  task that uses a connection has a thread (\<open>do_start\<close>) that waits until no other task works, then
  runs the receiving and the sending loop until the task is stopped.

  Each critical section is a definition; \<open>sched_step\<close> interleaves those of all tasks. A wait on a
  condition variable is a guard. The fields \<open>worker\<close> and \<open>caller\<close> say how far the thread and the
  caller of each task have got.
\<close>

section \<open>State\<close>

datatype worker =
    Absent
  | Spawned                 \<comment> \<open>created by \<open>start\<close>\<close>
  | Queued                  \<comment> \<open>in the wait of \<open>do_start\<close>\<close>
  | Running bool bool       \<comment> \<open>whether \<open>loop_recv\<close> and \<open>loop_send\<close> still run\<close>
  | Exited

datatype caller = Idle | Starting | Awaiting | Started | Lock_Waiting | Stopping | Flagged | Joining

record sched =
  conn :: connection
  work_count :: int
  work_task_id :: bytes
  task_mtx :: "bytes option"          \<comment> \<open>the task whose \<open>stop\<close> holds \<open>task_mtx_\<close> while it waits\<close>
  threads :: "bytes set"              \<comment> \<open>the keys of \<open>threads_\<close>\<close>
  worker :: "bytes \<Rightarrow> worker"
  caller :: "bytes \<Rightarrow> caller"

definition new_sched :: "connection \<Rightarrow> sched" where
  "new_sched c = \<lparr>conn = c, work_count = 0, work_task_id = [], task_mtx = None, threads = {},
     worker = (\<lambda>_. Absent), caller = (\<lambda>_. Idle)\<rparr>"

section \<open>Critical sections\<close>

text \<open>\<open>start\<close> and \<open>stop\<close> begin by exchanging a message with the peer: a task stops only after the peer
  has started it too. \<open>stop\<close> waits for the message while it holds \<open>task_mtx_\<close>, which \<open>start\<close> needs.\<close>

definition lock_id :: "bytes \<Rightarrow> bytes" where
  "lock_id task = ''lock:'' @ task"

definition start_lock :: "bytes \<Rightarrow> connection \<Rightarrow> connection res" where
  "start_lock task c =
     bindE (send_msg (c\<lparr>task_count := task_count c + 1\<rparr>) (lock_id task) ''1'') (\<lambda>(_, c'). Inr c')"

definition stop_count :: "connection \<Rightarrow> connection" where
  "stop_count c = c\<lparr>task_count := task_count c - 1\<rparr>"

definition stop_lock :: "bytes \<Rightarrow> connection \<Rightarrow> connection res" where
  "stop_lock task c = bindE (conn_recv (state c) 0 c (lock_id task) 1 (-1)) (\<lambda>(_, _, c'). Inr c')"

definition spawn_thread :: "bytes \<Rightarrow> sched \<Rightarrow> sched" where
  "spawn_thread task s = s\<lparr>threads := insert task (threads s), worker := (worker s)(task := Spawned)\<rparr>"

definition start_done :: "bytes \<Rightarrow> connection \<Rightarrow> bool" where
  "start_done task c \<longleftrightarrow> std_find (stop_works c) task = Some False"

definition do_start_insert :: "bytes \<Rightarrow> connection \<Rightarrow> connection" where
  "do_start_insert task c = c\<lparr>stop_works := std_insert task False (stop_works c)\<rparr>"

text \<open>The wait of \<open>do_start\<close>: \<open>Some stop_work\<close> when its predicate holds.\<close>

definition work_wait :: "bytes \<Rightarrow> sched \<Rightarrow> bool option" where
  "work_wait task s =
    (if work_count s = 0 then Some False
     else if stop_requested (conn s) task then Some True else None)"

definition do_start_work :: "bytes \<Rightarrow> sched \<Rightarrow> sched" where
  "do_start_work task s = s\<lparr>work_count := work_count s + 1, work_task_id := task,
     worker := (worker s)(task := Running True True)\<rparr>"

definition do_start_end :: "bytes \<Rightarrow> sched \<Rightarrow> sched" where
  "do_start_end task s = s\<lparr>work_count := work_count s - 1, worker := (worker s)(task := Exited)\<rparr>"

definition do_stop_flag :: "bytes \<Rightarrow> connection \<Rightarrow> connection" where
  "do_stop_flag task c =
    (if std_find (stop_works c) task = Some False
     then c\<lparr>stop_works := std_assign task True (stop_works c)\<rparr> else c)"

text \<open>The thread to join, taken out of \<open>threads_\<close>; a null pointer when there is none.\<close>

definition do_stop_take :: "bytes \<Rightarrow> sched \<Rightarrow> sched res" where
  "do_stop_take task s =
    (if task \<in> threads s then Inr (s\<lparr>threads := threads s - {task}\<rparr>) else Inl Null_Deref)"

definition do_stop_erase :: "bytes \<Rightarrow> connection \<Rightarrow> connection" where
  "do_stop_erase task c = c\<lparr>stop_works := std_erase task (stop_works c)\<rparr>"

section \<open>Interleaving\<close>

abbreviation set_caller :: "bytes \<Rightarrow> caller \<Rightarrow> sched \<Rightarrow> sched" where
  "set_caller t x s \<equiv> s\<lparr>caller := (caller s)(t := x)\<rparr>"

abbreviation set_worker :: "bytes \<Rightarrow> worker \<Rightarrow> sched \<Rightarrow> sched" where
  "set_worker t x s \<equiv> s\<lparr>worker := (worker s)(t := x)\<rparr>"

inductive sched_step :: "sched \<Rightarrow> sched \<Rightarrow> bool" where
  Start: "caller s t = Idle \<Longrightarrow> task_mtx s = None \<Longrightarrow> start_lock t (conn s) = Inr c \<Longrightarrow>
    sched_step s (set_caller t Starting (s\<lparr>conn := c\<rparr>))"
| Spawn: "caller s t = Starting \<Longrightarrow> sched_step s (set_caller t Awaiting (spawn_thread t s))"
| Start_Return: "caller s t = Awaiting \<Longrightarrow> start_done t (conn s) \<Longrightarrow> sched_step s (set_caller t Started s)"
| Queue: "worker s t = Spawned \<Longrightarrow>
    sched_step s (set_worker t Queued (s\<lparr>conn := do_start_insert t (conn s)\<rparr>))"
| Work: "worker s t = Queued \<Longrightarrow> work_wait t s = Some False \<Longrightarrow> sched_step s (do_start_work t s)"
| Skip: "worker s t = Queued \<Longrightarrow> work_wait t s = Some True \<Longrightarrow> sched_step s (set_worker t Exited s)"
| Recv_End: "worker s t = Running True b \<Longrightarrow> recv_step t (conn s) = Inr Stopped \<Longrightarrow>
    sched_step s (set_worker t (Running False b) s)"
| Send_End: "worker s t = Running b True \<Longrightarrow> send_step t (conn s) = Inr Stopped \<Longrightarrow>
    sched_step s (set_worker t (Running b False) s)"
| Work_End: "worker s t = Running False False \<Longrightarrow> sched_step s (do_start_end t s)"
| Stop: "caller s t = Started \<Longrightarrow> task_mtx s = None \<Longrightarrow>
    sched_step s (set_caller t Lock_Waiting (s\<lparr>conn := stop_count (conn s), task_mtx := Some t\<rparr>))"
| Stop_Lock: "caller s t = Lock_Waiting \<Longrightarrow> stop_lock t (conn s) = Inr c \<Longrightarrow>
    sched_step s (set_caller t Stopping (s\<lparr>conn := c, task_mtx := None\<rparr>))"
| Stop_Flag: "caller s t = Stopping \<Longrightarrow>
    sched_step s (set_caller t Flagged (s\<lparr>conn := do_stop_flag t (conn s)\<rparr>))"
| Stop_Take: "caller s t = Flagged \<Longrightarrow> do_stop_take t s = Inr s' \<Longrightarrow>
    sched_step s (set_caller t Joining s')"
| Stop_Join: "caller s t = Joining \<Longrightarrow> worker s t = Exited \<Longrightarrow>
    sched_step s (set_caller t Idle (set_worker t Absent (s\<lparr>conn := do_stop_erase t (conn s)\<rparr>)))"
| Recv_Round: "worker s t = Running True b \<Longrightarrow> recv_step t (conn s) = Inr (Stepped c) \<Longrightarrow>
    sched_step s (s\<lparr>conn := c\<rparr>)"
| Send_Round: "worker s t = Running b True \<Longrightarrow> send_step t (conn s) = Inr (Stepped (data, c)) \<Longrightarrow>
    sched_step s (s\<lparr>conn := c\<rparr>)"
| Arrival: "conn_write (conn s) data = Inr c \<Longrightarrow> sched_step s (s\<lparr>conn := c\<rparr>)"
| Client_Send: "send_msg (conn s) i data = Inr (n, c) \<Longrightarrow> sched_step s (s\<lparr>conn := c\<rparr>)"
| Client_Recv: "conn_recv tmpstate elapsed (conn s) i len timeout = Inr (n, data, c) \<Longrightarrow>
    sched_step s (s\<lparr>conn := c\<rparr>)"

inductive_cases sched_stepE: "sched_step s s'"

lemma steps_then: "sched_step\<^sup>*\<^sup>* s s1 \<Longrightarrow> sched_step s1 s2 \<Longrightarrow> sched_step\<^sup>*\<^sup>* s s2"
  by (rule rtranclp.rtrancl_into_rtrancl)

lemma step_then: "sched_step s s1 \<Longrightarrow> sched_step\<^sup>*\<^sup>* s1 s2 \<Longrightarrow> sched_step\<^sup>*\<^sup>* s s2"
  by (rule converse_rtranclp_into_rtranclp)

section \<open>The data operations leave the stop flags alone\<close>

lemma data_ops_keep_flags:
  "send_msg c i d = Inr (n, c') \<Longrightarrow> stop_works c' = stop_works c"
  "conn_write c d = Inr c' \<Longrightarrow> stop_works c' = stop_works c"
  "conn_recv tmpstate elapsed c i len timeout = Inr (ret, d, c') \<Longrightarrow> stop_works c' = stop_works c"
  "send_step task c = Inr (Stepped (d, c')) \<Longrightarrow> stop_works c' = stop_works c"
  by (auto simp: send_msg_def put_into_send_buffer_def conn_write_def conn_recv_def send_step_def
      bindE_eq_Inr Let_def split: if_splits option.splits)

lemma store_message_keeps_flags: "store_message c i d = Inr c' \<Longrightarrow> stop_works c' = stop_works c"
  by (auto simp: store_message_def bindE_eq_Inr Let_def split: if_splits option.splits)

lemma recv_step_keeps_flags: "recv_step task c = Inr (Stepped c') \<Longrightarrow> stop_works c' = stop_works c"
  by (auto simp: recv_step_def bindE_eq_Inr split: if_splits dest: store_message_keeps_flags)

lemma lock_keeps_flags:
  "start_lock task c = Inr c' \<Longrightarrow> stop_works c' = stop_works c"
  "stop_lock task c = Inr c' \<Longrightarrow> stop_works c' = stop_works c"
  "stop_works (stop_count c) = stop_works c"
  by (auto simp: start_lock_def stop_lock_def stop_count_def bindE_eq_Inr Let_def dest: data_ops_keep_flags)

lemmas keep_flags = data_ops_keep_flags recv_step_keeps_flags lock_keeps_flags

lemma stopped_steps:
  "stop_requested c task \<Longrightarrow> recv_step task c = Inr Stopped"
  "stop_requested c task \<Longrightarrow> send_step task c = Inr Stopped"
  by (simp_all add: recv_step_def send_step_def)

section \<open>Invariant\<close>

text \<open>What the caller, the thread, \<open>threads_\<close> and the stop flag of one task look like.\<close>

definition running :: "worker \<Rightarrow> bool" where
  "running w \<longleftrightarrow> (case w of Running _ _ \<Rightarrow> True | _ \<Rightarrow> False)"

lemma running_simps [simp]:
  "running (Running a b)" "\<not> running Absent" "\<not> running Spawned" "\<not> running Queued" "\<not> running Exited"
  by (simp_all add: running_def)

definition task_ok :: "caller \<Rightarrow> worker \<Rightarrow> bool \<Rightarrow> bool option \<Rightarrow> bool" where
  "task_ok c w in_threads flag \<longleftrightarrow>
    (case c of
       Idle \<Rightarrow> w = Absent \<and> \<not> in_threads \<and> flag = None
     | Starting \<Rightarrow> w = Absent \<and> \<not> in_threads \<and> flag = None
     | Awaiting \<Rightarrow> in_threads \<and> (w = Spawned \<and> flag = None \<or> (w = Queued \<or> w = Running True True) \<and> flag = Some False)
     | Started \<Rightarrow> in_threads \<and> (w = Queued \<or> w = Running True True) \<and> flag = Some False
     | Lock_Waiting \<Rightarrow> in_threads \<and> (w = Queued \<or> w = Running True True) \<and> flag = Some False
     | Stopping \<Rightarrow> in_threads \<and> (w = Queued \<or> w = Running True True) \<and> flag = Some False
     | Flagged \<Rightarrow> in_threads \<and> (w = Queued \<or> running w \<or> w = Exited) \<and> flag = Some True
     | Joining \<Rightarrow> \<not> in_threads \<and> (w = Queued \<or> running w \<or> w = Exited) \<and> flag = Some True)"

definition sched_inv :: "sched \<Rightarrow> bool" where
  "sched_inv s \<longleftrightarrow> sorted_map (stop_works (conn s)) \<and>
    (\<forall>t. task_ok (caller s t) (worker s t) (t \<in> threads s) (std_find (stop_works (conn s)) t)) \<and>
    (\<forall>t. running (worker s t) \<longrightarrow> work_count s = 1 \<and> work_task_id s = t) \<and>
    (work_count s = 0 \<or> work_count s = 1 \<and> (\<exists>t. running (worker s t))) \<and>
    (\<forall>t. caller s t = Lock_Waiting \<longleftrightarrow> task_mtx s = Some t)"

lemma sched_inv_new: "stop_works c = [] \<Longrightarrow> sched_inv (new_sched c)"
  by (simp add: sched_inv_def new_sched_def task_ok_def)

lemma sched_invD:
  assumes "sched_inv s"
  shows "sorted_map (stop_works (conn s))"
    and "task_ok (caller s t) (worker s t) (t \<in> threads s) (std_find (stop_works (conn s)) t)"
    and "running (worker s t) \<Longrightarrow> work_count s = 1 \<and> work_task_id s = t"
    and "work_count s = 0 \<or> work_count s = 1 \<and> (\<exists>t. running (worker s t))"
    and "caller s t = Lock_Waiting \<longleftrightarrow> task_mtx s = Some t"
  using assms by (simp_all add: sched_inv_def)

lemma sched_inv_data:
  "sched_inv s \<Longrightarrow> stop_works c = stop_works (conn s) \<Longrightarrow> sched_inv (s\<lparr>conn := c\<rparr>)"
  by (simp add: sched_inv_def)

text \<open>A step that only concerns task \<open>t\<close> and leaves \<open>running\<close> as it is.\<close>

lemma sched_inv_local:
  assumes "sched_inv s" and "work_count s' = work_count s" and "work_task_id s' = work_task_id s"
    and "\<And>u. u \<noteq> t \<Longrightarrow> caller s' u = caller s u \<and> worker s' u = worker s u \<and>
      (u \<in> threads s' \<longleftrightarrow> u \<in> threads s) \<and>
      std_find (stop_works (conn s')) u = std_find (stop_works (conn s)) u"
    and "running (worker s' t) \<longleftrightarrow> running (worker s t)"
    and "sorted_map (stop_works (conn s'))"
    and "task_ok (caller s' t) (worker s' t) (t \<in> threads s') (std_find (stop_works (conn s')) t)"
    and "\<And>u. caller s' u = Lock_Waiting \<longleftrightarrow> task_mtx s' = Some u"
  shows "sched_inv s'"
proof -
  have run: "running (worker s' u) \<longleftrightarrow> running (worker s u)" for u
    using assms(4,5) by (cases "u = t") auto
  have ok: "task_ok (caller s' u) (worker s' u) (u \<in> threads s') (std_find (stop_works (conn s')) u)" for u
    using assms(4) [of u] assms(7) sched_invD(2) [OF assms(1), of u] by (cases "u = t") auto
  have "(\<forall>t. running (worker s t) \<longrightarrow> work_count s = 1 \<and> work_task_id s = t)"
    and "work_count s = 0 \<or> work_count s = 1 \<and> (\<exists>t. running (worker s t))"
    using assms(1) by (simp_all add: sched_inv_def)
  with assms(2,3,6,8) run ok show ?thesis by (simp add: sched_inv_def)
qed

lemma sched_inv_work:
  assumes "sched_inv s" and "worker s t = Queued" and "work_wait t s = Some False"
  shows "sched_inv (do_start_work t s)"
proof -
  let ?s = "do_start_work t s"
  have zero: "work_count s = 0" using assms(3) by (auto simp: work_wait_def split: if_splits)
  then have none: "\<not> running (worker s u)" for u using sched_invD(3) [OF assms(1), of u] by auto
  have "task_ok (caller s u) (worker ?s u) (u \<in> threads s) (std_find (stop_works (conn s)) u)" for u
    using sched_invD(2) [OF assms(1), of u] assms(2)
    by (cases "caller s u") (auto simp: task_ok_def do_start_work_def)
  then show ?thesis
    using assms(1) none zero by (auto simp: sched_inv_def do_start_work_def)
qed

lemma sched_inv_end:
  assumes "sched_inv s" and "worker s t = Running False False"
  shows "sched_inv (do_start_end t s)"
proof -
  have one: "work_count s = 1" "work_task_id s = t" using sched_invD(3) [OF assms(1), of t] assms(2) by simp_all
  have only: "u = t" if "running (worker s u)" for u
    using sched_invD(3) [OF assms(1), of u] that one by simp
  have "task_ok (caller s u) (worker (do_start_end t s) u) (u \<in> threads s) (std_find (stop_works (conn s)) u)" for u
    using sched_invD(2) [OF assms(1), of u] assms(2)
    by (cases "caller s u") (auto simp: task_ok_def do_start_end_def)
  then show ?thesis
    using assms(1) one only by (auto simp: sched_inv_def do_start_end_def)
qed

lemma sched_inv_caller:
  assumes "sched_inv s" and "stop_works c = stop_works (conn s)"
    and "task_ok x (worker s t) (t \<in> threads s) (std_find (stop_works (conn s)) t)"
    and "\<And>u. ((caller s)(t := x)) u = Lock_Waiting \<longleftrightarrow> m = Some u"
  shows "sched_inv (set_caller t x (s\<lparr>conn := c, task_mtx := m\<rparr>))"
  by (rule sched_inv_local [of s _ t]) (use assms sched_invD(1) [OF assms(1)] in simp_all)

text \<open>The holder of \<open>task_mtx_\<close> when a task goes from one state to another, neither of them waiting.\<close>

lemma mtx_unchanged:
  "sched_inv s \<Longrightarrow> caller s t \<noteq> Lock_Waiting \<Longrightarrow> x \<noteq> Lock_Waiting \<Longrightarrow>
     (if u = t then x else caller s u) = Lock_Waiting \<longleftrightarrow> task_mtx s = Some u"
  using sched_invD(5) [of s u] by auto

text \<open>A step of task \<open>t\<close> between two states of its caller, neither of them holding \<open>task_mtx_\<close>.\<close>

lemma sched_inv_task:
  assumes "sched_inv s" and "caller s t \<noteq> Lock_Waiting" and "x \<noteq> Lock_Waiting"
    and "work_count s' = work_count s" and "work_task_id s' = work_task_id s" and "task_mtx s' = task_mtx s"
    and "caller s' = (caller s)(t := x)" and "\<And>u. u \<noteq> t \<Longrightarrow> worker s' u = worker s u"
    and "\<And>u. u \<noteq> t \<Longrightarrow> (u \<in> threads s' \<longleftrightarrow> u \<in> threads s)"
    and "\<And>u. u \<noteq> t \<Longrightarrow> std_find (stop_works (conn s')) u = std_find (stop_works (conn s)) u"
    and "running (worker s' t) \<longleftrightarrow> running (worker s t)"
    and "sorted_map (stop_works (conn s'))"
    and "task_ok x (worker s' t) (t \<in> threads s') (std_find (stop_works (conn s')) t)"
  shows "sched_inv s'"
  by (rule sched_inv_local [OF assms(1,4,5), of t])
    (use assms(7-13) mtx_unchanged [OF assms(1-3)] assms(6) in simp_all)

text \<open>A step of the thread of task \<open>t\<close>.\<close>

lemma sched_inv_thread:
  assumes "sched_inv s"
    and "work_count s' = work_count s" and "work_task_id s' = work_task_id s" and "task_mtx s' = task_mtx s"
    and "caller s' = caller s" and "threads s' = threads s" and "\<And>u. u \<noteq> t \<Longrightarrow> worker s' u = worker s u"
    and "\<And>u. u \<noteq> t \<Longrightarrow> std_find (stop_works (conn s')) u = std_find (stop_works (conn s)) u"
    and "running (worker s' t) \<longleftrightarrow> running (worker s t)"
    and "sorted_map (stop_works (conn s'))"
    and "task_ok (caller s t) (worker s' t) (t \<in> threads s) (std_find (stop_works (conn s')) t)"
  shows "sched_inv s'"
  by (rule sched_inv_local [OF assms(1-3), of t])
    (use assms(4-11) sched_invD(5) [OF assms(1)] in simp_all)

lemma sched_inv_start:
  "sched_inv s \<Longrightarrow> caller s t = Idle \<Longrightarrow> start_lock t (conn s) = Inr c \<Longrightarrow>
     sched_inv (set_caller t Starting (s\<lparr>conn := c\<rparr>))"
  by (rule sched_inv_task [of s t Starting]) (use sched_invD(1) [of s] sched_invD(2) [of s t] in
      \<open>auto simp: task_ok_def keep_flags\<close>)

lemma sched_inv_spawn:
  "sched_inv s \<Longrightarrow> caller s t = Starting \<Longrightarrow> sched_inv (set_caller t Awaiting (spawn_thread t s))"
  by (rule sched_inv_task [of s t Awaiting]) (use sched_invD(1) [of s] sched_invD(2) [of s t] in
      \<open>auto simp: task_ok_def spawn_thread_def\<close>)

lemma sched_inv_start_return:
  "sched_inv s \<Longrightarrow> caller s t = Awaiting \<Longrightarrow> start_done t (conn s) \<Longrightarrow> sched_inv (set_caller t Started s)"
  by (rule sched_inv_task [of s t Started]) (use sched_invD(1) [of s] sched_invD(2) [of s t] in
      \<open>auto simp: task_ok_def start_done_def\<close>)

lemma sched_inv_queue:
  assumes "sched_inv s" and "worker s t = Spawned"
  shows "sched_inv (set_worker t Queued (s\<lparr>conn := do_start_insert t (conn s)\<rparr>))"
  by (rule sched_inv_thread [OF assms(1), of _ t])
    (use assms(2) sched_invD(2) [OF assms(1), of t] std.valid_insert [OF sched_invD(1) [OF assms(1)]] in
      \<open>auto simp: task_ok_def do_start_insert_def std.find_insert [OF sched_invD(1) [OF assms(1)]]
        split: caller.splits\<close>)

lemma sched_inv_flagged_thread:
  assumes "sched_inv s" and "stop_requested (conn s) t" and "worker s t = w" and "running w' \<or> w' = Exited"
    and "running w' \<longleftrightarrow> running w"
  shows "sched_inv (set_worker t w' s)"
proof (rule sched_inv_thread [OF assms(1), of _ t])
  show "task_ok (caller s t) (worker (set_worker t w' s) t) (t \<in> threads s)
      (std_find (stop_works (conn (set_worker t w' s))) t)"
    using assms(2,4) sched_invD(2) [OF assms(1), of t]
    by (auto simp: task_ok_def stop_requested_def split: caller.splits)
qed (use assms(3,5) sched_invD(1) [OF assms(1)] in simp_all)

lemma stopped_requested:
  "recv_step t c = Inr Stopped \<Longrightarrow> stop_requested c t" "send_step t c = Inr Stopped \<Longrightarrow> stop_requested c t"
  "work_wait t s = Some True \<Longrightarrow> stop_requested (conn s) t"
  by (auto simp: recv_step_def send_step_def work_wait_def bindE_eq_Inr split: if_splits)

lemma sched_inv_stop:
  assumes "sched_inv s" and "caller s t = Started" and "task_mtx s = None"
  shows "sched_inv (set_caller t Lock_Waiting (s\<lparr>conn := stop_count (conn s), task_mtx := Some t\<rparr>))"
proof (rule sched_inv_caller [OF assms(1)])
  have "caller s u \<noteq> Lock_Waiting" for u using sched_invD(5) [OF assms(1), of u] assms(3) by simp
  then show "((caller s)(t := Lock_Waiting)) u = Lock_Waiting \<longleftrightarrow> Some t = Some u" for u by simp
  show "task_ok Lock_Waiting (worker s t) (t \<in> threads s) (std_find (stop_works (conn s)) t)"
    using assms(2) sched_invD(2) [OF assms(1), of t] by (simp add: task_ok_def)
qed (simp add: keep_flags)

lemma sched_inv_stop_lock:
  assumes "sched_inv s" and "caller s t = Lock_Waiting" and "stop_lock t (conn s) = Inr c"
  shows "sched_inv (set_caller t Stopping (s\<lparr>conn := c, task_mtx := None\<rparr>))"
proof (rule sched_inv_caller [OF assms(1)])
  have "task_mtx s = Some t" using sched_invD(5) [OF assms(1), of t] assms(2) by simp
  then have "caller s u \<noteq> Lock_Waiting" if "u \<noteq> t" for u
    using sched_invD(5) [OF assms(1), of u] that by simp
  then show "((caller s)(t := Stopping)) u = Lock_Waiting \<longleftrightarrow> None = Some u" for u by simp
  show "task_ok Stopping (worker s t) (t \<in> threads s) (std_find (stop_works (conn s)) t)"
    using assms(2) sched_invD(2) [OF assms(1), of t] by (simp add: task_ok_def)
qed (use assms(3) in \<open>simp add: keep_flags\<close>)

lemma sched_inv_stop_flag:
  assumes "sched_inv s" and "caller s t = Stopping"
  shows "sched_inv (set_caller t Flagged (s\<lparr>conn := do_stop_flag t (conn s)\<rparr>))"
  by (rule sched_inv_task [OF assms(1), of t Flagged])
    (use assms(2) sched_invD(2) [OF assms(1), of t] std.valid_assign [OF sched_invD(1) [OF assms(1)]] in
      \<open>auto simp: task_ok_def do_stop_flag_def std.find_assign [OF sched_invD(1) [OF assms(1)]]\<close>)

lemma sched_inv_stop_take:
  assumes "sched_inv s" and "caller s t = Flagged" and "do_stop_take t s = Inr s'"
  shows "sched_inv (set_caller t Joining s')"
proof -
  have s': "s' = s\<lparr>threads := threads s - {t}\<rparr>" using assms(3) by (auto simp: do_stop_take_def split: if_splits)
  show ?thesis unfolding s'
    by (rule sched_inv_task [OF assms(1), of t Joining])
      (use assms(2) sched_invD(1) [OF assms(1)] sched_invD(2) [OF assms(1), of t] in
        \<open>auto simp: task_ok_def\<close>)
qed

lemma sched_inv_stop_join:
  assumes "sched_inv s" and "caller s t = Joining" and "worker s t = Exited"
  shows "sched_inv (set_caller t Idle (set_worker t Absent (s\<lparr>conn := do_stop_erase t (conn s)\<rparr>)))"
  by (rule sched_inv_task [OF assms(1), of t Idle])
    (use assms(2,3) sched_invD(2) [OF assms(1), of t] std.valid_erase [OF sched_invD(1) [OF assms(1)]] in
      \<open>auto simp: task_ok_def do_stop_erase_def std.find_erase [OF sched_invD(1) [OF assms(1)]]\<close>)

lemma sched_inv_step:
  assumes "sched_step s s'" and "sched_inv s"
  shows "sched_inv s'"
  using assms(1)
proof (cases rule: sched_step.cases)
  case (Start t c)
  from sched_inv_start [OF assms(2) Start(2,4)] Start(1) show ?thesis by simp
next
  case (Spawn t)
  from sched_inv_spawn [OF assms(2) Spawn(2)] Spawn(1) show ?thesis by simp
next
  case (Start_Return t)
  from sched_inv_start_return [OF assms(2) Start_Return(2,3)] Start_Return(1) show ?thesis by simp
next
  case (Queue t)
  from sched_inv_queue [OF assms(2) Queue(2)] Queue(1) show ?thesis by simp
next
  case (Work t)
  from sched_inv_work [OF assms(2) Work(2,3)] Work(1) show ?thesis by simp
next
  case (Skip t)
  from sched_inv_flagged_thread [OF assms(2) stopped_requested(3) [OF Skip(3)] refl, of Exited] Skip(1,2)
  show ?thesis by simp
next
  case (Recv_End t b)
  from sched_inv_flagged_thread [OF assms(2) stopped_requested(1) [OF Recv_End(3)] refl, of "Running False b"]
    Recv_End(1,2) show ?thesis by simp
next
  case (Send_End t b)
  from sched_inv_flagged_thread [OF assms(2) stopped_requested(2) [OF Send_End(3)] refl, of "Running b False"]
    Send_End(1,2) show ?thesis by simp
next
  case (Work_End t)
  from sched_inv_end [OF assms(2) Work_End(2)] Work_End(1) show ?thesis by simp
next
  case (Stop t)
  from sched_inv_stop [OF assms(2) Stop(2,3)] Stop(1) show ?thesis by simp
next
  case (Stop_Lock t c)
  from sched_inv_stop_lock [OF assms(2) Stop_Lock(2,3)] Stop_Lock(1) show ?thesis by simp
next
  case (Stop_Flag t)
  from sched_inv_stop_flag [OF assms(2) Stop_Flag(2)] Stop_Flag(1) show ?thesis by simp
next
  case (Stop_Take t s'')
  from sched_inv_stop_take [OF assms(2) Stop_Take(2,3)] Stop_Take(1) show ?thesis by simp
next
  case (Stop_Join t)
  from sched_inv_stop_join [OF assms(2) Stop_Join(2,3)] Stop_Join(1) show ?thesis by simp
qed (use assms(2) in \<open>auto intro: sched_inv_data simp: keep_flags\<close>)

lemma sched_inv_steps: "sched_step\<^sup>*\<^sup>* s s' \<Longrightarrow> sched_inv s \<Longrightarrow> sched_inv s'"
  by (induction rule: rtranclp_induct) (auto intro: sched_inv_step)

section \<open>A stopped task comes to an end\<close>

definition same_but_worker :: "bytes \<Rightarrow> sched \<Rightarrow> sched \<Rightarrow> bool" where
  "same_but_worker t s s' \<longleftrightarrow> conn s' = conn s \<and> caller s' = caller s \<and> threads s' = threads s \<and>
     (\<forall>u. u \<noteq> t \<longrightarrow> worker s' u = worker s u)"

lemma same_but_worker_trans:
  "same_but_worker t s s' \<Longrightarrow> same_but_worker t s' s'' \<Longrightarrow> same_but_worker t s s''"
  by (simp add: same_but_worker_def)

lemma end_loops:
  assumes "worker s t = Running a b" and "stop_requested (conn s) t"
  shows "\<exists>s'. sched_step\<^sup>*\<^sup>* s s' \<and> worker s' t = Exited \<and> same_but_worker t s s'"
proof -
  have "\<exists>s1. sched_step\<^sup>*\<^sup>* s s1 \<and> worker s1 t = Running False b \<and> same_but_worker t s s1"
  proof (cases a)
    case True
    then have "sched_step s (set_worker t (Running False b) s)"
      using assms by (intro Recv_End stopped_steps) simp_all
    then show ?thesis by (intro exI [of _ "set_worker t (Running False b) s"]) (auto simp: same_but_worker_def)
  qed (use assms(1) in \<open>auto simp: same_but_worker_def\<close>)
  then obtain s1 where s1: "sched_step\<^sup>*\<^sup>* s s1" "worker s1 t = Running False b" "same_but_worker t s s1" by blast
  have c1: "stop_requested (conn s1) t" using assms(2) s1(3) by (simp add: same_but_worker_def)
  have "\<exists>s2. sched_step\<^sup>*\<^sup>* s1 s2 \<and> worker s2 t = Running False False \<and> same_but_worker t s1 s2"
  proof (cases b)
    case True
    then have "sched_step s1 (set_worker t (Running False False) s1)"
      using s1(2) c1 by (intro Send_End stopped_steps) simp_all
    then show ?thesis by (intro exI [of _ "set_worker t (Running False False) s1"]) (auto simp: same_but_worker_def)
  qed (use s1(2) in \<open>auto simp: same_but_worker_def\<close>)
  then obtain s2 where s2: "sched_step\<^sup>*\<^sup>* s1 s2" "worker s2 t = Running False False" "same_but_worker t s1 s2"
    by blast
  have "same_but_worker t s2 (do_start_end t s2)" "worker (do_start_end t s2) t = Exited"
    by (simp_all add: same_but_worker_def do_start_end_def)
  with s1(1,3) s2 sched_step.Work_End [OF s2(2)] show ?thesis
    by (meson same_but_worker_trans rtranclp.rtrancl_into_rtrancl rtranclp_trans)
qed

lemma end_thread:
  assumes "sched_inv s" and "stop_requested (conn s) t"
    and "worker s t = Queued \<or> running (worker s t) \<or> worker s t = Exited"
  shows "\<exists>s'. sched_step\<^sup>*\<^sup>* s s' \<and> worker s' t = Exited \<and> same_but_worker t s s'"
  using assms(3)
proof (elim disjE)
  assume q: "worker s t = Queued"
  show ?thesis
  proof (cases "work_count s = 0")
    case True
    then have "sched_step s (do_start_work t s)" using q by (intro Work) (simp_all add: work_wait_def)
    moreover have "worker (do_start_work t s) t = Running True True" "same_but_worker t s (do_start_work t s)"
      "stop_requested (conn (do_start_work t s)) t"
      using assms(2) by (simp_all add: do_start_work_def same_but_worker_def)
    ultimately show ?thesis
      using end_loops [of "do_start_work t s" t True True]
      by (meson converse_rtranclp_into_rtranclp same_but_worker_trans)
  next
    case False
    then have "sched_step s (set_worker t Exited s)"
      using q assms(2) by (intro Skip) (simp_all add: work_wait_def)
    then show ?thesis by (intro exI [of _ "set_worker t Exited s"]) (auto simp: same_but_worker_def)
  qed
next
  assume "running (worker s t)"
  then obtain a b where "worker s t = Running a b" by (cases "worker s t") auto
  with end_loops assms(2) show ?thesis by blast
next
  assume "worker s t = Exited"
  then show ?thesis by (intro exI [of _ s]) (simp add: same_but_worker_def)
qed

text \<open>The state after a stop, with all other tasks as they were.\<close>

definition stopped_as_before :: "bytes \<Rightarrow> sched \<Rightarrow> sched \<Rightarrow> bool" where
  "stopped_as_before t s s' \<longleftrightarrow>
     caller s' t = Idle \<and> worker s' t = Absent \<and> std_find (stop_works (conn s')) t = None \<and>
     (\<forall>u. u \<noteq> t \<longrightarrow> caller s' u = caller s u \<and> worker s' u = worker s u \<and>
        std_find (stop_works (conn s')) u = std_find (stop_works (conn s)) u)"

lemma join_completes:
  assumes "sched_inv s" and "caller s t = Joining"
  shows "\<exists>s'. sched_step\<^sup>*\<^sup>* s s' \<and> stopped_as_before t s s'"
proof -
  have ok: "worker s t = Queued \<or> running (worker s t) \<or> worker s t = Exited" "stop_requested (conn s) t"
    using sched_invD(2) [OF assms(1), of t] assms(2) by (auto simp: task_ok_def stop_requested_def)
  obtain s1 where s1: "sched_step\<^sup>*\<^sup>* s s1" "worker s1 t = Exited" "same_but_worker t s s1"
    using end_thread [OF assms(1) ok(2,1)] by blast
  let ?s = "set_caller t Idle (set_worker t Absent (s1\<lparr>conn := do_stop_erase t (conn s1)\<rparr>))"
  have step: "sched_step s1 ?s"
    using s1 assms(2) by (intro Stop_Join) (simp_all add: same_but_worker_def)
  have "stopped_as_before t s ?s"
    using s1(3) sched_invD(1) [OF assms(1)]
    by (auto simp: stopped_as_before_def same_but_worker_def do_stop_erase_def std.find_erase)
  with steps_then [OF s1(1) step] show ?thesis by blast
qed

lemma flagged_completes:
  assumes "sched_inv s" and "caller s t = Flagged"
  shows "\<exists>s'. sched_step\<^sup>*\<^sup>* s s' \<and> stopped_as_before t s s'"
proof -
  let ?s = "set_caller t Joining (s\<lparr>threads := threads s - {t}\<rparr>)"
  have "t \<in> threads s" using sched_invD(2) [OF assms(1), of t] assms(2) by (simp add: task_ok_def)
  then have step: "sched_step s ?s" using assms(2) by (intro Stop_Take) (simp_all add: do_stop_take_def)
  obtain s' where s': "sched_step\<^sup>*\<^sup>* ?s s'" "stopped_as_before t ?s s'"
    using join_completes [OF sched_inv_step [OF step assms(1)], of t] by auto
  from s'(2) have "stopped_as_before t s s'" by (simp add: stopped_as_before_def)
  with step_then [OF step s'(1)] show ?thesis by blast
qed

lemma stopping_completes:
  assumes "sched_inv s" and "caller s t = Stopping"
  shows "\<exists>s'. sched_step\<^sup>*\<^sup>* s s' \<and> stopped_as_before t s s'"
proof -
  let ?s = "set_caller t Flagged (s\<lparr>conn := do_stop_flag t (conn s)\<rparr>)"
  have step: "sched_step s ?s" using assms(2) by (intro Stop_Flag) simp_all
  obtain s' where s': "sched_step\<^sup>*\<^sup>* ?s s'" "stopped_as_before t ?s s'"
    using flagged_completes [OF sched_inv_step [OF step assms(1)], of t] by auto
  have "std_find (stop_works (do_stop_flag t (conn s))) u = std_find (stop_works (conn s)) u" if "u \<noteq> t" for u
    using that sched_invD(1) [OF assms(1)] by (simp add: do_stop_flag_def std.find_assign)
  with s'(2) have "stopped_as_before t s s'" by (simp add: stopped_as_before_def)
  with step_then [OF step s'(1)] show ?thesis by blast
qed

section \<open>A concrete run\<close>

lemma sched_inv_reach:
  assumes "sched_step\<^sup>*\<^sup>* (new_sched (new_connection f ev srv p)) s"
  shows "sched_inv s"
  by (rule sched_inv_steps [OF assms sched_inv_new]) (simp add: new_connection_def)

lemma reach_running:
  obtains s where "sched_step\<^sup>*\<^sup>* (new_sched (new_connection 3 0 False ''peer'')) s"
    "worker s ''a'' = Running True True" "caller s ''a'' = Started" "task_mtx s = None"
    "conn_repr (conn s) [] (\<lambda>_. []) (pack (lock_id ''a'') ''1'')" "stop_works (conn s) = [(''a'', False)]"
    "caller s ''b'' = Idle"
proof -
  let ?t = "''a'' :: bytes" and ?c0 = "new_connection 3 0 False ''peer''"
  let ?s0 = "new_sched ?c0"
  have r0: "conn_repr (?c0\<lparr>task_count := task_count ?c0 + 1\<rparr>) [] (\<lambda>_. []) []"
    using new_connection_repr by (simp add: conn_repr_def)
  obtain c where c: "start_lock ?t ?c0 = Inr c" "conn_repr c [] (\<lambda>_. []) (pack (lock_id ?t) ''1'')"
    "stop_works c = []"
    using send_msg_ok [OF r0, of "lock_id ?t" "''1''"]
    by (auto simp: start_lock_def lock_id_def cb_limit_def) (simp add: new_connection_def)
  let ?s1 = "set_caller ?t Starting (?s0\<lparr>conn := c\<rparr>)"
  let ?s2 = "set_caller ?t Awaiting (spawn_thread ?t ?s1)"
  let ?s3 = "set_worker ?t Queued (?s2\<lparr>conn := do_start_insert ?t (conn ?s2)\<rparr>)"
  let ?s4 = "do_start_work ?t ?s3"
  let ?s5 = "set_caller ?t Started ?s4"
  have "sched_step ?s0 ?s1" using c(1) by (intro Start) (simp_all add: new_sched_def)
  moreover have "sched_step ?s1 ?s2" by (intro Spawn) simp
  moreover have "sched_step ?s2 ?s3" by (intro Queue) (simp add: spawn_thread_def)
  moreover have "sched_step ?s3 ?s4"
    by (intro Work) (simp_all add: work_wait_def spawn_thread_def new_sched_def)
  moreover have "sched_step ?s4 ?s5"
    using c(3) by (intro Start_Return)
      (simp_all add: start_done_def do_start_work_def do_start_insert_def spawn_thread_def)
  ultimately have "sched_step\<^sup>*\<^sup>* ?s0 ?s5"
    by (meson converse_rtranclp_into_rtranclp rtranclp.rtrancl_refl)
  moreover have "worker ?s5 ?t = Running True True" "caller ?s5 ?t = Started" "task_mtx ?s5 = None" "caller ?s5 ''b'' = Idle"
    "stop_works (conn ?s5) = [(?t, False)]" "conn_repr (conn ?s5) [] (\<lambda>_. []) (pack (lock_id ?t) ''1'')"
    using c(2,3) by (simp_all add: do_start_work_def do_start_insert_def spawn_thread_def new_sched_def conn_repr_def)
  ultimately show thesis using that by blast
qed

text \<open>A task whose stop would find its lock message.\<close>

lemma stop_lock_ok:
  assumes "conn_repr c rq ms sq" and "ms (lock_id t) = ''1''"
  obtains c' where "stop_lock t (stop_count c) = Inr c'"
proof -
  let ?c = "stop_count c"
  have r: "conn_repr ?c rq ms sq" using assms(1) by (simp add: conn_repr_def stop_count_def)
  then have "std_find (mapbuffer ?c) (lock_id t) \<noteq> None"
    using assms(2) streams_none [of "mapbuffer ?c" ms "lock_id t"] by (auto simp: conn_repr_def)
  then have "\<exists>c'. conn_recv (state ?c) 0 ?c (lock_id t) 1 (-1) = Inr (sint (1 :: u64), ''1'', c')"
    using conn_recv_ok [OF r, of "state ?c" 0 "-1" 1 "lock_id t"] assms(2) by (auto split: if_splits)
  with that show thesis unfolding stop_lock_def by fastforce
qed

lemma reach_lock_received:
  obtains s where "sched_step\<^sup>*\<^sup>* (new_sched (new_connection 3 0 False ''peer'')) s" "caller s ''a'' = Started"
    "task_mtx s = None" "worker s ''a'' = Running True True"
    "conn_repr (conn s) [] ((\<lambda>_. [])(lock_id ''a'' := ''1'')) (pack (lock_id ''a'') ''1'')"
proof (rule reach_running)
  fix s
  let ?t = "''a'' :: bytes" and ?lock = "lock_id ''a''"
  assume s: "sched_step\<^sup>*\<^sup>* (new_sched (new_connection 3 0 False ''peer'')) s"
    "worker s ?t = Running True True" "caller s ?t = Started" "task_mtx s = None"
    "conn_repr (conn s) [] (\<lambda>_. []) (pack ?lock ''1'')" "stop_works (conn s) = [(?t, False)]"
  have ok: "msg_ok (?lock, ''1'')" by (simp add: msg_ok_def lock_id_def cb_limit_def)
  obtain c1 where c1: "conn_write (conn s) (pack ?lock ''1'') = Inr c1"
    "conn_repr c1 (pack ?lock ''1'') (\<lambda>_. []) (pack ?lock ''1'')" "stop_works c1 = [(?t, False)]"
    using conn_write_ok [OF s(5), of "pack ?lock ''1''"] s(6) by (auto simp: lock_id_def cb_limit_def)
  have frame: "parse_frame [] [] (pack ?lock ''1'') = Inr (16, ?lock, ''1'', [])" "frame_ready (pack ?lock ''1'')"
    using parse_message [OF ok, of "[]"] by (simp_all add: lock_id_def)
  have run: "\<not> stop_requested c1 ?t" using c1(3) by (simp add: stop_requested_def)
  obtain c2 where c2: "recv_step ?t c1 = Inr (Stepped c2)"
    "conn_repr c2 [] ((\<lambda>_. [])(?lock := ''1'')) (pack ?lock ''1'')"
    using recv_step_message [OF c1(2) run frame(2,1)] by (auto simp: cb_limit_def)
  let ?s1 = "s\<lparr>conn := c1\<rparr>"
  let ?s2 = "?s1\<lparr>conn := c2\<rparr>"
  have t1: "sched_step s ?s1" using c1(1) by (rule Arrival)
  have t2: "sched_step ?s1 ?s2" by (rule Recv_Round [of _ ?t True]) (use s(2) c2(1) in simp_all)
  show thesis by (rule that [OF steps_then [OF steps_then [OF s(1) t1] t2]]) (use s(2-4) c2(2) in simp_all)
qed

lemma reach_stoppable:
  obtains s c where "sched_step\<^sup>*\<^sup>* (new_sched (new_connection 3 0 False ''peer'')) s" "caller s ''a'' = Started"
    "task_mtx s = None" "stop_lock ''a'' (stop_count (conn s)) = Inr c"
proof (rule reach_lock_received)
  fix s
  assume s: "sched_step\<^sup>*\<^sup>* (new_sched (new_connection 3 0 False ''peer'')) s" "caller s ''a'' = Started" "task_mtx s = None"
    "conn_repr (conn s) [] ((\<lambda>_. [])(lock_id ''a'' := ''1'')) (pack (lock_id ''a'') ''1'')"
  obtain c where "stop_lock ''a'' (stop_count (conn s)) = Inr c" by (rule stop_lock_ok [OF s(4), of "''a''"]) simp
  with s(1-3) show thesis by (rule that)
qed

lemma reach_stopping:
  obtains s where "sched_step\<^sup>*\<^sup>* (new_sched (new_connection 3 0 False ''peer'')) s" "caller s ''a'' = Stopping"
proof (rule reach_stoppable)
  fix s c
  let ?t = "''a'' :: bytes"
  assume s: "sched_step\<^sup>*\<^sup>* (new_sched (new_connection 3 0 False ''peer'')) s" "caller s ?t = Started" "task_mtx s = None"
    "stop_lock ?t (stop_count (conn s)) = Inr c"
  let ?s1 = "set_caller ?t Lock_Waiting (s\<lparr>conn := stop_count (conn s), task_mtx := Some ?t\<rparr>)"
  let ?s2 = "set_caller ?t Stopping (?s1\<lparr>conn := c, task_mtx := None\<rparr>)"
  have t1: "sched_step s ?s1" by (rule Stop [OF s(2,3)])
  have t2: "sched_step ?s1 ?s2" by (rule Stop_Lock) (use s(4) in simp_all)
  show thesis by (rule that [OF steps_then [OF steps_then [OF s(1) t1] t2]]) simp
qed

section \<open>Properties\<close>

text \<open>C8: at most one task at a time works on a connection: in every reachable state at most one task has
  its receiving or sending loop running, \<open>work_count_\<close> is one exactly then, and \<open>work_task_id_\<close> names it.\<close>

theorem one_task_works_at_a_time:
  assumes "sched_step\<^sup>*\<^sup>* (new_sched (new_connection f ev srv p)) s"
    and "running (worker s t)" and "running (worker s u)"
  shows "t = u \<and> work_count s = 1 \<and> work_task_id s = t"
  using sched_invD(3) [OF sched_inv_reach [OF assms(1)]] assms(2,3) by metis

theorem one_task_works_at_a_time_witness:
  "\<exists>s. running (worker (s :: sched) ''a'') \<and> work_count s = 1 \<and> work_task_id s = ''a''"
proof (rule reach_running)
  fix s
  assume s: "sched_step\<^sup>*\<^sup>* (new_sched (new_connection 3 0 False ''peer'')) s" "worker s ''a'' = Running True True"
  then have r: "running (worker s ''a'')" by simp
  from one_task_works_at_a_time [OF s(1) r r] r show ?thesis by (intro exI [of _ s]) simp
qed

text \<open>C27: a stop ends: in every reachable state, the stop of a task that has got its lock message can run to
  its end whatever the other tasks do and without any step of theirs; the task's thread and its stop
  flag are then gone and every other task is as it was.\<close>

theorem stop_runs_to_its_end:
  assumes "sched_step\<^sup>*\<^sup>* (new_sched (new_connection f ev srv p)) s"
    and "caller s t \<in> {Stopping, Flagged, Joining}"
  shows "\<exists>s'. sched_step\<^sup>*\<^sup>* s s' \<and> caller s' t = Idle \<and> worker s' t = Absent \<and>
    std_find (stop_works (conn s')) t = None \<and>
    (\<forall>u. u \<noteq> t \<longrightarrow> caller s' u = caller s u \<and> worker s' u = worker s u \<and>
      std_find (stop_works (conn s')) u = std_find (stop_works (conn s)) u)"
  using stopping_completes flagged_completes join_completes sched_inv_reach [OF assms(1)] assms(2)
  unfolding stopped_as_before_def by blast

theorem stop_runs_to_its_end_witness:
  "\<exists>s s'. sched_step\<^sup>*\<^sup>* (new_sched (new_connection 3 0 False ''peer'')) s \<and> caller s ''a'' = Stopping \<and>
     sched_step\<^sup>*\<^sup>* s s' \<and> caller s' ''a'' = Idle"
proof (rule reach_stopping)
  fix s
  assume s: "sched_step\<^sup>*\<^sup>* (new_sched (new_connection 3 0 False ''peer'')) s" "caller s ''a'' = Stopping"
  then have "caller s ''a'' \<in> {Stopping, Flagged, Joining}" by simp
  from stop_runs_to_its_end [OF s(1) this] s show ?thesis by blast
qed

text \<open>A stop that waits for its peer holds up every start: while a task waits in \<open>stop\<close> for the lock
  message, no step of the program lets another task begin to use the connection, and the wait only ends
  when that message can be received.\<close>

theorem waiting_stop_blocks_starts:
  assumes "sched_step\<^sup>*\<^sup>* (new_sched (new_connection f ev srv p)) s"
    and "caller s t = Lock_Waiting" and "caller s u = Idle" and "sched_step s s'"
  shows "caller s' u = Idle \<and> (caller s' t = Lock_Waiting \<or> (\<exists>c. stop_lock t (conn s) = Inr c))"
proof -
  have m: "task_mtx s = Some t" using sched_invD(5) [OF sched_inv_reach [OF assms(1)], of t] assms(2) by simp
  have ne: "u \<noteq> t" using assms(2,3) by auto
  from assms(4) show ?thesis
    by (cases rule: sched_step.cases)
      (use m ne assms(2,3) in \<open>auto simp: spawn_thread_def do_start_work_def do_start_end_def
        do_stop_take_def split: if_splits\<close>)
qed

theorem waiting_stop_blocks_starts_witness:
  "\<exists>s s'. caller s ''a'' = Lock_Waiting \<and> caller s ''b'' = Idle \<and> sched_step s s' \<and> caller s' ''b'' = Idle"
proof (rule reach_running)
  fix s
  assume s: "sched_step\<^sup>*\<^sup>* (new_sched (new_connection 3 0 False ''peer'')) s"
    "caller s ''a'' = Started" "task_mtx s = None"
    "conn_repr (conn s) [] (\<lambda>_. []) (pack (lock_id ''a'') ''1'')" "caller s ''b'' = Idle"
  let ?s = "set_caller ''a'' Lock_Waiting (s\<lparr>conn := stop_count (conn s), task_mtx := Some ''a''\<rparr>)"
  have r: "sched_step\<^sup>*\<^sup>* (new_sched (new_connection 3 0 False ''peer'')) ?s"
    by (rule steps_then [OF s(1) sched_step.Stop [OF s(2,3)]])
  have "conn_repr (conn ?s) [] (\<lambda>_. []) (pack (lock_id ''a'') ''1'')"
    using s(4) by (simp add: conn_repr_def stop_count_def)
  then obtain c where c: "conn_write (conn ?s) ''x'' = Inr c"
    using conn_write_ok [of "conn ?s" "[]" _ _ "''x''"] by (auto simp: cb_limit_def)
  have a: "caller ?s ''a'' = Lock_Waiting" "caller ?s ''b'' = Idle" using s(5) by simp_all
  from waiting_stop_blocks_starts [OF r a sched_step.Arrival [OF c]] a sched_step.Arrival [OF c]
  show ?thesis by blast
qed

end
