(* ===== verification/Support.thy ===== *)
theory Support
  imports Cycle_Buffer "HOL-Library.Signed_Division"
begin

text \<open>
  The small classes the rest uses: the exceptions of \<open>rtt_exceptions.h\<close>, \<open>SimpleTimer\<close>
  (\<open>simple_timer.cpp\<close>), the network statistics of \<open>stat.cpp\<close>, the decimal printing of \<open>std::to_string\<close>
  and the one user of the timer, \<open>cycle_buffer::can_remove\<close>.

  A clock reading is a number of nanoseconds; the functions that read the clock take it as \<open>now\<close>.
\<close>

section \<open>Exceptions\<close>

text \<open>\<open>make_general_exception(cls)\<close>: the message \<open>what()\<close> returns.\<close>

definition exception_msg :: "string \<Rightarrow> string \<Rightarrow> string" where
  "exception_msg cls s =
    (let msg = ''exception '' @ cls in if s \<noteq> [] then msg @ '' - '' @ s else msg)"

definition other_exp :: "string \<Rightarrow> io_error" where
  "other_exp s = Throw (exception_msg ''other'' s)"

definition socket_exp :: "string \<Rightarrow> io_error" where
  "socket_exp s = Throw (exception_msg ''socket'' s)"

section \<open>Decimal numbers\<close>

fun nat_to_string :: "nat \<Rightarrow> string" where
  "nat_to_string n =
    (if n < 10 then [char_of (48 + n)] else nat_to_string (n div 10) @ [char_of (48 + n mod 10)])"

declare nat_to_string.simps [simp del]

definition int_to_string :: "int \<Rightarrow> string" where
  "int_to_string i = (if i < 0 then ''-'' @ nat_to_string (nat (- i)) else nat_to_string (nat i))"

text \<open>Reading a decimal number back.\<close>

fun string_to_nat :: "nat \<Rightarrow> string \<Rightarrow> nat" where
  "string_to_nat a [] = a"
| "string_to_nat a (c # cs) = string_to_nat (10 * a + (of_char c - 48)) cs"

lemma string_to_nat_append: "string_to_nat a (s @ t) = string_to_nat (string_to_nat a s) t"
  by (induction s arbitrary: a) simp_all

lemma nat_to_string_inverse: "string_to_nat 0 (nat_to_string n) = n"
proof (induction n rule: nat_to_string.induct)
  case (1 n)
  then show ?case
    by (subst nat_to_string.simps) (simp add: string_to_nat_append)
qed

lemma nat_to_string_inj: "nat_to_string m = nat_to_string n \<longleftrightarrow> m = n"
  using nat_to_string_inverse by metis

section \<open>Timer\<close>

record SimpleTimer =
  stoped :: bool
  begin_at :: int
  end_at :: int

definition timer_start :: "int \<Rightarrow> SimpleTimer" where
  "timer_start now = \<lparr>stoped = False, begin_at = now, end_at = now\<rparr>"

text \<open>\<open>stop\<close> and \<open>elapse\<close> return seconds; the difference of the readings is what they divide.\<close>

definition timer_stop :: "int \<Rightarrow> SimpleTimer \<Rightarrow> int \<times> SimpleTimer" where
  "timer_stop now t = (now - begin_at t, t\<lparr>end_at := now, stoped := True\<rparr>)"

definition ns_elapse :: "int \<Rightarrow> SimpleTimer \<Rightarrow> int" where
  "ns_elapse now t = (let ending = (if stoped t then end_at t else now) in ending - begin_at t)"

text \<open>\<open>duration_cast\<close> truncates towards zero.\<close>

definition us_elapse :: "int \<Rightarrow> SimpleTimer \<Rightarrow> int" where
  "us_elapse now t = ns_elapse now t sdiv 1000"

definition ms_elapse :: "int \<Rightarrow> SimpleTimer \<Rightarrow> int" where
  "ms_elapse now t = ns_elapse now t sdiv 1000000"

section \<open>Statistics\<close>

text \<open>\<open>NetStat_st\<close> holds the counters that threads share, one atomic each; a \<open>NetStat\<close> is a copy of them.\<close>

record NetStat_st =
  atomic_bytes_sent :: u64
  atomic_bytes_received :: u64
  atomic_message_sent :: u64
  atomic_message_received :: u64

record NetStat =
  bytes_sent :: u64
  bytes_received :: u64
  message_sent :: u64
  message_received :: u64

definition netstat_reset :: "NetStat_st \<Rightarrow> NetStat_st" where
  "netstat_reset ns = ns\<lparr>atomic_bytes_sent := 0, atomic_bytes_received := 0, atomic_message_sent := 0,
     atomic_message_received := 0\<rparr>"

definition netstat_load :: "NetStat_st \<Rightarrow> NetStat" where
  "netstat_load ns_st = \<lparr>bytes_sent = atomic_bytes_sent ns_st, bytes_received = atomic_bytes_received ns_st,
     message_sent = atomic_message_sent ns_st, message_received = atomic_message_received ns_st\<rparr>"

definition netstat_minus :: "NetStat \<Rightarrow> NetStat \<Rightarrow> NetStat" where
  "netstat_minus ns1 ns2 =
    \<lparr>bytes_sent = bytes_sent ns1 - bytes_sent ns2,
     bytes_received = bytes_received ns1 - bytes_received ns2,
     message_sent = message_sent ns1 - message_sent ns2,
     message_received = message_received ns1 - message_received ns2\<rparr>"

definition netstat_plus :: "NetStat \<Rightarrow> NetStat \<Rightarrow> NetStat" where
  "netstat_plus ns1 ns2 =
    \<lparr>bytes_sent = bytes_sent ns1 + bytes_sent ns2,
     bytes_received = bytes_received ns1 + bytes_received ns2,
     message_sent = message_sent ns1 + message_sent ns2,
     message_received = message_received ns1 + message_received ns2\<rparr>"

text \<open>\<open>setw(n)\<close>: right-aligned in at least \<open>n\<close> columns.\<close>

definition setw :: "nat \<Rightarrow> string \<Rightarrow> string" where
  "setw n s = replicate (n - length s) (CHR '' '') @ s"

definition fmt_string :: "NetStat \<Rightarrow> string" where
  "fmt_string ns =
     '' bytes sent:'' @ setw 15 (nat_to_string (unat (bytes_sent ns))) @
     '' bytes recv:'' @ setw 15 (nat_to_string (unat (bytes_received ns))) @
     '' msges sent:'' @ setw 6 (nat_to_string (unat (message_sent ns))) @
     '' msges recv:'' @ setw 6 (nat_to_string (unat (message_received ns)))"

text \<open>\<open>print\<close>: the line it writes.\<close>

definition netstat_print :: "string \<Rightarrow> NetStat \<Rightarrow> string" where
  "netstat_print str ns = str @ fmt_string ns @ [CHR 0x0A]"

lemma netstat_minus_plus: "netstat_minus (netstat_plus a b) b = a"
  by (simp add: netstat_minus_def netstat_plus_def)

text \<open>A reset forgets what was counted before.\<close>

lemma netstat_after_reset: "netstat_load (netstat_reset ns) = netstat_load (netstat_reset ns')"
  by (simp add: netstat_load_def netstat_reset_def)

text \<open>Every counter has a column that does not shift what follows, up to its width.\<close>

lemma setw_length: "length (setw n s) = max n (length s)"
  by (simp add: setw_def)

section \<open>The user of the timer\<close>

text \<open>\<open>cycle_buffer::can_remove\<close>: empty, and not visited for \<open>t\<close> (here in nanoseconds).\<close>

definition can_remove :: "cycle_buffer \<Rightarrow> SimpleTimer \<Rightarrow> int \<Rightarrow> int \<Rightarrow> bool" where
  "can_remove cb timer now t \<longleftrightarrow> remain_space cb = n_size cb \<and> t < ns_elapse now timer"

lemma can_remove_empty: "cb_repr cb q \<Longrightarrow> can_remove cb timer now t \<Longrightarrow> q = []"
  using cb_repr_bounds(7) [of cb q] by (simp add: can_remove_def)

end
