(* ===== verification/Server.thy ===== *)
theory Server
  imports Task_Scheduling Support
begin

unbundle bit_operations_syntax

text \<open>
  The listening side, \<open>server.h\<close> and \<open>server.cpp\<close>. The connections, the epoll set and the counters are
  static and shared by the servers of all tasks (\<open>server_static\<close>); a \<open>tcp_server\<close> is the object of
  one task. Connections are objects behind pointers (\<open>objs\<close>). \<open>server_step\<close> interleaves the servers of
  all tasks: start, the epoll thread of each, and the parts of \<open>stop\<close>.

  What the kernel answers is an argument: the bytes the two reads of an accepted socket return, the
  results of the reads of a ready connection, whether the sockets could be set up. \<open>hello\<close>, what
  \<open>TCPClient::connect\<close> sends first, is here because \<open>handle_accept\<close> is its only reader.
\<close>

section \<open>State\<close>

type_synonym conn_ptr = nat

record server_static =
  connections :: "(bytes \<times> conn_ptr) list"
  recycle_connections :: "conn_ptr list"
  server_task_count :: int
  is_inited :: bool
  stoped_flag :: bool
  listen_count :: int
  objs :: "conn_ptr \<rightharpoonup> connection"
  epoll_set :: "conn_ptr set"
  listen_open :: bool

definition new_server_static :: server_static where
  "new_server_static = \<lparr>connections = [], recycle_connections = [], server_task_count = 0,
     is_inited = False, stoped_flag = True, listen_count = 0, objs = Map.empty, epoll_set = {}, listen_open = False\<rparr>"

text \<open>How far \<open>loop_thread_\<close> is: never started, in the wait at the beginning of \<open>loop_main\<close>, handling
  events, returned, joined.\<close>

datatype loop_thread = No_Thread | Loop_Waiting | Looping | Loop_Done | Joined

record tcp_server =
  srv_task :: bytes
  stop_flag :: bool                              \<comment> \<open>\<open>stop_\<close>\<close>
  loop_thread :: loop_thread
  server_connections :: "(bytes \<times> conn_ptr) list"
  expected_cids :: "bytes list"

definition new_tcp_server :: "bytes list \<Rightarrow> tcp_server" where
  "new_tcp_server cids = \<lparr>srv_task = [], stop_flag = False, loop_thread = No_Thread,
     server_connections = [], expected_cids = cids\<rparr>"

section \<open>Accepting a client\<close>

text \<open>\<open>TCPClient::connect\<close>: the length of the message, then the client's node id.\<close>

definition hello :: "bytes \<Rightarrow> bytes" where
  "hello cid = u64_bytes (word_of_nat (8 + length cid)) @ cid"

text \<open>The two reads of \<open>handle_accept\<close>: \<open>None\<close> closes the socket. \<open>ack_ret\<close> is the result of writing the
  acknowledgement; \<open>got1\<close> and \<open>got2\<close> are the bytes the reads returned.\<close>

definition read_cid :: "int \<Rightarrow> bytes \<Rightarrow> bytes \<Rightarrow> bytes option res" where
  "read_cid ack_ret got1 got2 =
    (if ack_ret \<noteq> 1 then Inr None
     else if length got1 \<noteq> 8 then Inr None
     else let cid_len = bytes_u64 got1 in
       bindE (resize (cid_len - 8)) (\<lambda>size.
       if length got2 \<noteq> size then Inr None else Inr (Some got2)))"

definition EPOLL_EVENTS :: int where
  "EPOLL_EVENTS = 2147483657"   \<comment> \<open>\<open>EPOLLIN | EPOLLERR | EPOLLET\<close>\<close>

text \<open>\<open>epoll_add\<close> and \<open>epoll_del\<close>; what \<open>epoll_ctl\<close> answers is only logged. \<open>epoll_mod\<close> arms the listening descriptor
  again and leaves the set as it is.\<close>

definition epoll_add :: "conn_ptr \<Rightarrow> server_static \<Rightarrow> server_static" where
  [simp]: "epoll_add ptr st = st\<lparr>epoll_set := insert ptr (epoll_set st)\<rparr>"

definition epoll_del :: "conn_ptr \<Rightarrow> server_static \<Rightarrow> server_static" where
  [simp]: "epoll_del ptr st = st\<lparr>epoll_set := epoll_set st - {ptr}\<rparr>"

definition register_connection :: "conn_ptr \<Rightarrow> int \<Rightarrow> bytes \<Rightarrow> server_static \<Rightarrow> server_static" where
  "register_connection ptr cfd cid st =
    (let st1 = (case std_find (connections st) cid of
           None \<Rightarrow> st
         | Some old \<Rightarrow> st\<lparr>recycle_connections := recycle_connections st @ [old],
             connections := std_erase cid (connections st)\<rparr>)
     in epoll_add ptr (st1\<lparr>connections := std_insert cid ptr (connections st1),
          objs := (objs st1)(ptr \<mapsto> new_connection cfd EPOLL_EVENTS True cid)\<rparr>))"

definition handle_accept :: "tcp_server \<Rightarrow> int \<Rightarrow> int \<Rightarrow> bytes \<Rightarrow> bytes \<Rightarrow> conn_ptr \<Rightarrow> server_static \<Rightarrow>
    server_static res" where
  "handle_accept srv cfd ack_ret got1 got2 ptr st =
    (if cfd = -1 then Inl (socket_exp ''accept failed'')
     else bindE (read_cid ack_ret got1 got2) (\<lambda>cid_opt. case cid_opt of
         None \<Rightarrow> Inr st
       | Some cid \<Rightarrow>
           if \<not> list_ex (\<lambda>c. c = cid) (expected_cids srv) then Inr st
           else Inr (register_connection ptr cfd cid st)))"

definition add_connection_to_epoll :: "conn_ptr \<Rightarrow> server_static \<Rightarrow> server_static" where
  "add_connection_to_epoll ptr st =
    epoll_add ptr (st\<lparr>objs := (objs st)(ptr := map_option (\<lambda>c. c\<lparr>events := EPOLL_EVENTS\<rparr>) (objs st ptr))\<rparr>)"

section \<open>Reading a connection\<close>

text \<open>The loop of \<open>handle_read\<close>: every read takes up to 8192 bytes; the result says whether the end of the
  stream was seen. \<open>None\<close>: the script ended before the loop.\<close>

fun read_loop :: "read_ret list \<Rightarrow> connection \<Rightarrow> (bool \<times> connection) res option" where
  "read_loop [] c = None"
| "read_loop (Got bs # rs) c =
     (if bs = [] then Some (Inr (True, c))
      else case conn_write c (take 8192 bs) of
          Inl e \<Rightarrow> Some (Inl e)
        | Inr c' \<Rightarrow> read_loop rs c')"
| "read_loop (RErr e # rs) c = (if e = EINTR then read_loop rs c else Some (Inr (False, c)))"

text \<open>\<open>handle_read\<close> for a connection: at the end of the stream it leaves the epoll set and is closed.\<close>

definition handle_read :: "read_ret list \<Rightarrow> conn_ptr \<Rightarrow> bool \<Rightarrow> server_static \<Rightarrow> server_static res option" where
  "handle_read rs ptr handshake_ok st =
    (case objs st ptr of
       None \<Rightarrow> Some (Inl Mem_Fault)
     | Some c \<Rightarrow>
         if state c = Closing \<or> state c = Closed then Some (Inr st)
         else if \<not> handshake_ok then Some (Inr st)
         else case read_loop rs c of
             None \<Rightarrow> None
           | Some (Inl e) \<Rightarrow> Some (Inl e)
           | Some (Inr (eof, c1)) \<Rightarrow>
               if \<not> eof then Some (Inr (st\<lparr>objs := (objs st)(ptr \<mapsto> c1)\<rparr>))
               else Some (bindE (close_connection c1) (\<lambda>(_, _, c2).
                 Inr (epoll_del ptr (st\<lparr>objs := (objs st)(ptr \<mapsto> c2)\<rparr>)))))"

text \<open>\<open>handle_error\<close>: only a connection the kernel says is closed is drained, removed and closed; the
  loop ends at the first read that returns no bytes.\<close>

fun drain_loop :: "read_ret list \<Rightarrow> connection \<Rightarrow> connection res option" where
  "drain_loop [] c = None"
| "drain_loop (Got bs # rs) c =
     (if bs = [] then Some (Inr c)
      else case conn_write c (take 8192 bs) of
          Inl e \<Rightarrow> Some (Inl e)
        | Inr c' \<Rightarrow> drain_loop rs c')"
| "drain_loop (RErr e # rs) c = Some (Inr c)"

definition handle_error :: "read_ret list \<Rightarrow> conn_ptr \<Rightarrow> bool \<Rightarrow> server_static \<Rightarrow> server_static res option" where
  "handle_error rs ptr tcp_closed st =
    (case objs st ptr of
       None \<Rightarrow> Some (Inl Mem_Fault)
     | Some c \<Rightarrow>
         if \<not> tcp_closed then Some (Inr st)
         else case drain_loop rs (c\<lparr>reuseable := False\<rparr>) of
             None \<Rightarrow> None
           | Some (Inl e) \<Rightarrow> Some (Inl e)
           | Some (Inr c1) \<Rightarrow> Some (bindE (close_connection c1) (\<lambda>(_, _, c2).
               Inr (epoll_del ptr (st\<lparr>objs := (objs st)(ptr \<mapsto> c2)\<rparr>)))))"

section \<open>Connections of a task\<close>

definition get_obj :: "conn_ptr \<Rightarrow> server_static \<Rightarrow> connection res" where
  "get_obj ptr st = (case objs st ptr of None \<Rightarrow> Inl Mem_Fault | Some c \<Rightarrow> Inr c)"

text \<open>\<open>find_connection\<close> starts the task on the connection; what \<open>start\<close> does beyond its lock message is
  \<open>Task_Scheduling\<close>.\<close>

definition find_connection :: "tcp_server \<Rightarrow> bytes \<Rightarrow> server_static \<Rightarrow> (conn_ptr option \<times> server_static) res" where
  "find_connection srv cid st =
    (case std_find (connections st) cid of
       None \<Rightarrow> Inr (None, st)
     | Some ptr \<Rightarrow>
         bindE (get_obj ptr st) (\<lambda>c.
         if \<not> reuseable c then Inr (None, st)
         else bindE (start_lock (srv_task srv) c) (\<lambda>c'.
           Inr (Some ptr, st\<lparr>objs := (objs st)(ptr \<mapsto> c')\<rparr>))))"

definition put_connection :: "bytes \<Rightarrow> tcp_server \<Rightarrow> server_static \<Rightarrow> (bool \<times> tcp_server \<times> server_static) res" where
  "put_connection node srv st =
    bindE (find_connection srv node st) (\<lambda>(conn, st').
    case conn of
      None \<Rightarrow> Inr (False, srv, st')
    | Some ptr \<Rightarrow>
        bindE (get_obj ptr st') (\<lambda>c.
        if reuseable c
        then Inr (True, srv\<lparr>server_connections := std_insert node ptr (server_connections srv)\<rparr>, st')
        else Inr (False, srv, st')))"

definition get_connection :: "bytes \<Rightarrow> tcp_server \<Rightarrow> conn_ptr option" where
  "get_connection node srv = std_find (server_connections srv) node"

fun sum_unrecv :: "(bytes \<times> conn_ptr) list \<Rightarrow> server_static \<Rightarrow> u64 \<Rightarrow> u64 res" where
  "sum_unrecv [] st ret = Inr ret"
| "sum_unrecv ((_, ptr) # cs) st ret =
     bindE (get_obj ptr st) (\<lambda>c. sum_unrecv cs st (ret + get_unrecv_size c))"

definition server_unrecv_size :: "server_static \<Rightarrow> u64 res" where
  "server_unrecv_size st = sum_unrecv (connections st) st 0"

section \<open>The epoll thread\<close>

text \<open>A ready file descriptor (\<open>None\<close>: the listening one), the event bits and what the calls made for it
  return: reads, whether the kernel calls the connection closed, the handshake, the accepted socket.\<close>

record ready_event =
  ev_conn :: "conn_ptr option"
  ev_bits :: "32 word"
  ev_reads :: "read_ret list"
  ev_closed :: bool
  ev_handshake :: bool
  ev_accept :: "int \<times> int \<times> bytes \<times> bytes \<times> conn_ptr"

definition EPOLLIN :: "32 word" where "EPOLLIN = 1"
definition EPOLLERR :: "32 word" where "EPOLLERR = 8"

definition handle_event :: "tcp_server \<Rightarrow> ready_event \<Rightarrow> server_static \<Rightarrow> server_static res option" where
  "handle_event srv ev st =
    (if ev_bits ev AND EPOLLERR \<noteq> 0 then
       (case ev_conn ev of None \<Rightarrow> Some (Inr st)
        | Some ptr \<Rightarrow> handle_error (ev_reads ev) ptr (ev_closed ev) st)
     else if ev_bits ev AND EPOLLIN \<noteq> 0 then
       (case ev_conn ev of
          None \<Rightarrow> (case ev_accept ev of (cfd, ack_ret, got1, got2, ptr) \<Rightarrow>
            Some (handle_accept srv cfd ack_ret got1 got2 ptr st))
        | Some ptr \<Rightarrow> handle_read (ev_reads ev) ptr (ev_handshake ev) st)
     else Some (Inr st))"

fun loop_once :: "tcp_server \<Rightarrow> ready_event list \<Rightarrow> server_static \<Rightarrow> server_static res option" where
  "loop_once srv [] st = Some (Inr st)"
| "loop_once srv (ev # evs) st =
     (case handle_event srv ev st of
        None \<Rightarrow> None
      | Some (Inl e) \<Rightarrow> Some (Inl e)
      | Some (Inr st') \<Rightarrow> loop_once srv evs st')"

text \<open>\<open>loop_main\<close>: the wait for the other tasks' threads (\<open>None\<close>: it goes on), the test that every
  expected client has connected, and the end.\<close>

definition loop_enter :: "tcp_server \<Rightarrow> server_static \<Rightarrow> (tcp_server \<times> server_static) option" where
  "loop_enter srv st =
    (if \<not> (listen_count st = 0 \<or> stop_flag srv) then None
     else if stop_flag srv then Some (srv\<lparr>loop_thread := Loop_Done\<rparr>, st)
     else Some (srv\<lparr>loop_thread := Looping\<rparr>, st\<lparr>listen_count := listen_count st + 1\<rparr>))"

definition all_connected :: "tcp_server \<Rightarrow> server_static \<Rightarrow> bool" where
  "all_connected srv st \<longleftrightarrow> list_all (\<lambda>cid. std_find (connections st) cid \<noteq> None) (expected_cids srv)"

text \<open>The thread leaves its loops when the task is stopped or, with a client still missing, when the time
  is up.\<close>

definition loop_leaves :: "bool \<Rightarrow> tcp_server \<Rightarrow> server_static \<Rightarrow> bool" where
  "loop_leaves time_up srv st \<longleftrightarrow> stop_flag srv \<or> time_up \<and> \<not> all_connected srv st"

definition loop_exit :: "tcp_server \<Rightarrow> server_static \<Rightarrow> tcp_server \<times> server_static" where
  "loop_exit srv st = (srv\<lparr>loop_thread := Loop_Done\<rparr>, st\<lparr>listen_count := listen_count st - 1\<rparr>)"

section \<open>Starting and stopping\<close>

text \<open>\<open>start\<close>: only the first task sets up the sockets; \<open>ssl_ok\<close> and \<open>init_ok\<close> are the results of
  \<open>init_ssl\<close> and \<open>init\<close>.\<close>

definition server_start :: "bytes \<Rightarrow> bool \<Rightarrow> bool \<Rightarrow> tcp_server \<Rightarrow> server_static \<Rightarrow>
    bool \<times> tcp_server \<times> server_static" where
  "server_start task ssl_ok init_ok srv st =
    (let srv1 = srv\<lparr>srv_task := task\<rparr>;
         st1 = st\<lparr>server_task_count := server_task_count st + 1\<rparr>;
         run = (\<lambda>st'. (True, srv1\<lparr>loop_thread := Loop_Waiting\<rparr>, st'))
     in if is_inited st1 then run st1
        else if \<not> ssl_ok then (False, srv1, st1)
        else if \<not> init_ok then (False, srv1, st1)
        else run (st1\<lparr>stoped_flag := False, is_inited := True, listen_open := True\<rparr>))"

definition system_error :: io_error where
  "system_error = Throw ''std::system_error''"

text \<open>\<open>stop\<close> raises the flag and joins the thread: joining one that never started throws.\<close>

definition stop_join :: "tcp_server \<Rightarrow> tcp_server res" where
  "stop_join srv =
    (case loop_thread srv of
       Loop_Done \<Rightarrow> Inr (srv\<lparr>loop_thread := Joined\<rparr>)
     | Loop_Waiting \<Rightarrow> Inl Would_Block
     | Looping \<Rightarrow> Inl Would_Block
     | _ \<Rightarrow> Inl system_error)"

text \<open>Then it stops its connections one by one: \<open>Connection::stop\<close> seen from here is the lock message and
  the end of the task's thread.\<close>

definition stop_connection :: "tcp_server \<Rightarrow> server_static \<Rightarrow> (tcp_server \<times> server_static) res" where
  "stop_connection srv st =
    (case server_connections srv of
       [] \<Rightarrow> Inr (srv, st)
     | (_, ptr) # cs \<Rightarrow>
         bindE (get_obj ptr st) (\<lambda>c.
         bindE (stop_lock (srv_task srv) (stop_count c)) (\<lambda>c'.
           Inr (srv\<lparr>server_connections := cs\<rparr>,
             st\<lparr>objs := (objs st)(ptr \<mapsto> do_stop_erase (srv_task srv) (do_stop_flag (srv_task srv) c'))\<rparr>))))"

fun close_all :: "(bytes \<times> conn_ptr) list \<Rightarrow> server_static \<Rightarrow> server_static res" where
  "close_all [] st = Inr st"
| "close_all ((_, ptr) # cs) st =
     bindE (get_obj ptr st) (\<lambda>c.
     if state c \<noteq> Closed then
       bindE (close_connection c) (\<lambda>(_, _, c'). close_all cs (st\<lparr>objs := (objs st)(ptr \<mapsto> c')\<rparr>))
     else close_all cs st)"

text \<open>The end of \<open>stop\<close>: the last task, with nothing left unread, closes everything.\<close>

definition last_stop :: "server_static \<Rightarrow> server_static res" where
  "last_stop st =
    (let st1 = st\<lparr>server_task_count := server_task_count st - 1\<rparr> in
     if server_task_count st1 = 0 then
       bindE (server_unrecv_size st1) (\<lambda>unread.
       if unread = 0 then
         bindE (close_all (connections st1) st1) (\<lambda>st2.
           Inr (st2\<lparr>connections := [], recycle_connections := [], listen_open := False,
             epoll_set := {}, is_inited := False, stoped_flag := True\<rparr>))
       else Inr st1)
     else Inr st1)"

text \<open>\<open>stop\<close> as a whole, for a thread that nothing interrupts.\<close>

fun stop_all :: "nat \<Rightarrow> tcp_server \<Rightarrow> server_static \<Rightarrow> (tcp_server \<times> server_static) res" where
  "stop_all 0 srv st = Inr (srv, st)"
| "stop_all (Suc n) srv st = bindE (stop_connection srv st) (\<lambda>(srv', st'). stop_all n srv' st')"

definition server_stop :: "tcp_server \<Rightarrow> server_static \<Rightarrow> (tcp_server \<times> server_static) res" where
  "server_stop srv st =
    (if stop_flag srv then Inr (srv, st)
     else bindE (stop_join (srv\<lparr>stop_flag := True\<rparr>)) (\<lambda>srv1.
       bindE (stop_all (length (server_connections srv1)) srv1 st) (\<lambda>(srv2, st2).
       bindE (last_stop st2) (\<lambda>st3. Inr (srv2, st3)))))"

section \<open>The servers of all tasks\<close>

record server_system =
  static :: server_static
  servers :: "nat \<Rightarrow> tcp_server option"

definition new_system :: server_system where
  "new_system = \<lparr>static = new_server_static, servers = Map.empty\<rparr>"

abbreviation set_server :: "nat \<Rightarrow> tcp_server \<Rightarrow> server_static \<Rightarrow> server_system \<Rightarrow> server_system" where
  "set_server k srv st s \<equiv> s\<lparr>static := st, servers := (servers s)(k \<mapsto> srv)\<rparr>"

text \<open>A server object is created and started by \<open>BasicIO::init\<close>, and gone after \<open>stop\<close>. The threads that
  work on a connection may change the object in any way (\<open>Connection_Work\<close>).\<close>

inductive server_step :: "server_system \<Rightarrow> server_system \<Rightarrow> bool" where
  Server_Start: "servers s k = None \<Longrightarrow>
    server_start task ssl_ok init_ok (new_tcp_server cids) (static s) = (ok, srv, st) \<Longrightarrow>
    server_step s (set_server k srv st s)"
| Loop_Enter: "servers s k = Some srv \<Longrightarrow> loop_thread srv = Loop_Waiting \<Longrightarrow>
    loop_enter srv (static s) = Some (srv', st) \<Longrightarrow> server_step s (set_server k srv' st s)"
| Loop_Event: "servers s k = Some srv \<Longrightarrow> loop_thread srv = Looping \<Longrightarrow>
    loop_once srv evs (static s) = Some (Inr st) \<Longrightarrow> server_step s (s\<lparr>static := st\<rparr>)"
| Loop_Exit: "servers s k = Some srv \<Longrightarrow> loop_thread srv = Looping \<Longrightarrow>
    loop_leaves time_up srv (static s) \<Longrightarrow> loop_exit srv (static s) = (srv', st) \<Longrightarrow>
    server_step s (set_server k srv' st s)"
| Put_Connection: "servers s k = Some srv \<Longrightarrow> \<not> stop_flag srv \<Longrightarrow> loop_thread srv \<noteq> No_Thread \<Longrightarrow>
    put_connection node srv (static s) = Inr (ok, srv', st) \<Longrightarrow> server_step s (set_server k srv' st s)"
| Add_Connection: "servers s k = Some srv \<Longrightarrow> \<not> stop_flag srv \<Longrightarrow> loop_thread srv \<noteq> No_Thread \<Longrightarrow>
    server_step s (s\<lparr>static := add_connection_to_epoll ptr (static s)\<rparr>)"
| Stop_Begin: "servers s k = Some srv \<Longrightarrow> \<not> stop_flag srv \<Longrightarrow>
    server_step s (s\<lparr>servers := (servers s)(k \<mapsto> srv\<lparr>stop_flag := True\<rparr>)\<rparr>)"
| Stop_Thread: "servers s k = Some srv \<Longrightarrow> stop_flag srv \<Longrightarrow> stop_join srv = Inr srv' \<Longrightarrow>
    server_step s (s\<lparr>servers := (servers s)(k \<mapsto> srv')\<rparr>)"
| Stop_Connection: "servers s k = Some srv \<Longrightarrow> loop_thread srv = Joined \<Longrightarrow> server_connections srv \<noteq> [] \<Longrightarrow>
    stop_connection srv (static s) = Inr (srv', st) \<Longrightarrow> server_step s (set_server k srv' st s)"
| Stop_End: "servers s k = Some srv \<Longrightarrow> loop_thread srv = Joined \<Longrightarrow> server_connections srv = [] \<Longrightarrow>
    last_stop (static s) = Inr st \<Longrightarrow>
    server_step s (s\<lparr>static := st, servers := (servers s)(k := None)\<rparr>)"
| Connection_Work: "objs (static s) ptr = Some c \<Longrightarrow>
    server_step s (s\<lparr>static := (static s)\<lparr>objs := (objs (static s))(ptr \<mapsto> c')\<rparr>\<rparr>)"

inductive_cases server_stepE: "server_step s s'"

section \<open>Events leave the counters alone\<close>

text \<open>What accepting, reading and writing change: connections, objects and the epoll set only.\<close>

definition same_service :: "server_static \<Rightarrow> server_static \<Rightarrow> bool" where
  "same_service st st' \<longleftrightarrow> server_task_count st' = server_task_count st \<and> is_inited st' = is_inited st \<and>
     stoped_flag st' = stoped_flag st \<and> listen_count st' = listen_count st \<and> listen_open st' = listen_open st \<and>
     (sorted_map (connections st) \<longrightarrow> sorted_map (connections st'))"

lemma same_service_refl [simp]: "same_service st st"
  by (simp add: same_service_def)

lemma same_service_trans: "same_service st st1 \<Longrightarrow> same_service st1 st2 \<Longrightarrow> same_service st st2"
  by (simp add: same_service_def)

lemma same_service_objs [simp]:
  "same_service st (st\<lparr>objs := m\<rparr>)" "same_service st (st\<lparr>objs := m, epoll_set := e\<rparr>)"
  by (simp_all add: same_service_def)

lemma register_connection_same: "same_service st (register_connection ptr cfd cid st)"
  by (auto simp: same_service_def register_connection_def Let_def
      intro: sorted_std_insert sorted_std_erase split: option.splits)

lemma handle_accept_same: "handle_accept srv cfd a g1 g2 ptr st = Inr st' \<Longrightarrow> same_service st st'"
  by (auto simp: handle_accept_def bindE_eq_Inr register_connection_same split: if_splits option.splits)

lemma handle_read_same: "handle_read rs ptr h st = Some (Inr st') \<Longrightarrow> same_service st st'"
  by (auto simp: handle_read_def bindE_eq_Inr split: if_splits option.splits sum.splits)

lemma handle_error_same: "handle_error rs ptr h st = Some (Inr st') \<Longrightarrow> same_service st st'"
  by (auto simp: handle_error_def bindE_eq_Inr split: if_splits option.splits sum.splits)

lemma handle_event_same: "handle_event srv ev st = Some (Inr st') \<Longrightarrow> same_service st st'"
  by (auto simp: handle_event_def split: if_splits option.splits prod.splits
      dest: handle_accept_same handle_read_same handle_error_same)

lemma loop_once_same: "loop_once srv evs st = Some (Inr st') \<Longrightarrow> same_service st st'"
proof (induction srv evs st rule: loop_once.induct)
  case (2 srv ev evs st)
  then show ?case
    by (auto split: option.splits sum.splits intro: same_service_trans dest: handle_event_same)
qed simp

lemma find_connection_same: "find_connection srv cid st = Inr (p, st') \<Longrightarrow> same_service st st'"
  by (auto simp: find_connection_def bindE_eq_Inr split: if_splits option.splits)

lemma put_connection_same:
  "put_connection node srv st = Inr (ok, srv', st') \<Longrightarrow> same_service st st' \<and>
     loop_thread srv' = loop_thread srv \<and> stop_flag srv' = stop_flag srv \<and> srv_task srv' = srv_task srv"
  by (auto simp: put_connection_def bindE_eq_Inr split: if_splits option.splits dest: find_connection_same)

lemma add_connection_same: "same_service st (add_connection_to_epoll ptr st)"
  by (simp add: add_connection_to_epoll_def)

lemma stop_connection_same:
  "stop_connection srv st = Inr (srv', st') \<Longrightarrow> same_service st st' \<and>
     loop_thread srv' = loop_thread srv \<and> stop_flag srv' = stop_flag srv \<and> srv_task srv' = srv_task srv"
  by (auto simp: stop_connection_def bindE_eq_Inr split: list.splits)

lemma close_all_same: "close_all cs st = Inr st' \<Longrightarrow> same_service st st' \<and> connections st' = connections st"
proof (induction cs st rule: close_all.induct)
  case (2 node ptr cs st)
  then show ?case
    by (auto simp: bindE_eq_Inr split: if_splits) (use same_service_objs same_service_trans in blast)+
qed simp

lemma last_stop_cases:
  assumes "last_stop st = Inr st'"
  shows "server_task_count st' = server_task_count st - 1" "listen_count st' = listen_count st"
    "sorted_map (connections st) \<Longrightarrow> sorted_map (connections st')"
    and "server_task_count st - 1 = 0 \<and> \<not> is_inited st' \<and> stoped_flag st' \<and> \<not> listen_open st' \<or>
      is_inited st' = is_inited st \<and> stoped_flag st' = stoped_flag st \<and> listen_open st' = listen_open st"
proof -
  have same: "server_task_count st2 = n \<and> listen_count st2 = listen_count st"
    if "close_all cs (st\<lparr>server_task_count := n\<rparr>) = Inr st2" for cs st2 n
    using close_all_same [OF that] by (simp add: same_service_def)
  show "server_task_count st' = server_task_count st - 1" "listen_count st' = listen_count st"
    "sorted_map (connections st) \<Longrightarrow> sorted_map (connections st')"
    "server_task_count st - 1 = 0 \<and> \<not> is_inited st' \<and> stoped_flag st' \<and> \<not> listen_open st' \<or>
      is_inited st' = is_inited st \<and> stoped_flag st' = stoped_flag st \<and> listen_open st' = listen_open st"
    using assms by (auto simp: last_stop_def Let_def bindE_eq_Inr split: if_splits dest!: same)
qed

section \<open>Invariant of the servers\<close>

definition looping :: "server_system \<Rightarrow> nat set" where
  "looping s = {k. \<exists>srv. servers s k = Some srv \<and> loop_thread srv = Looping}"

definition servers_ok :: "server_system \<Rightarrow> bool" where
  "servers_ok s \<longleftrightarrow> sorted_map (connections (static s)) \<and> finite (dom (servers s)) \<and>
     server_task_count (static s) = int (card (dom (servers s))) \<and>
     listen_count (static s) = int (card (looping s)) \<and> card (looping s) \<le> 1 \<and>
     listen_open (static s) = is_inited (static s) \<and> stoped_flag (static s) = (\<not> is_inited (static s)) \<and>
     (\<forall>k srv. servers s k = Some srv \<and> loop_thread srv \<noteq> No_Thread \<longrightarrow> is_inited (static s))"

lemma servers_ok_new: "servers_ok new_system"
  by (simp add: servers_ok_def new_system_def new_server_static_def looping_def)

lemma looping_subset: "looping s \<subseteq> dom (servers s)"
  by (auto simp: looping_def)

lemma looping_upd:
  "looping (s\<lparr>static := st, servers := (servers s)(k \<mapsto> srv)\<rparr>) =
     (if loop_thread srv = Looping then insert k (looping s) else looping s - {k})"
  by (auto simp: looping_def)

lemma looping_none: "looping (s\<lparr>static := st, servers := (servers s)(k := None)\<rparr>) = looping s - {k}"
  by (auto simp: looping_def)

text \<open>A step of one server that leaves the shared counters alone.\<close>

lemma servers_ok_local:
  assumes "servers_ok s" and "same_service (static s) st" and "servers s k = Some srv"
    and "loop_thread srv' = Looping \<longleftrightarrow> loop_thread srv = Looping"
    and "loop_thread srv' \<noteq> No_Thread \<longleftrightarrow> loop_thread srv \<noteq> No_Thread"
  shows "servers_ok (set_server k srv' st s)"
proof -
  have "looping (set_server k srv' st s) = looping s"
    using assms(3,4) by (auto simp: looping_def)
  moreover have "dom (servers (set_server k srv' st s)) = dom (servers s)"
    using assms(3) by auto
  ultimately show ?thesis
    using assms(1,2,3,5) by (auto simp: servers_ok_def same_service_def)
qed

lemma servers_ok_static:
  assumes "servers_ok s" and "same_service (static s) st"
  shows "servers_ok (s\<lparr>static := st\<rparr>)"
  using assms by (auto simp: servers_ok_def same_service_def looping_def)

lemma servers_ok_start:
  assumes ok: "servers_ok s" and k: "servers s k = None"
    and start: "server_start task ssl_ok init_ok (new_tcp_server cids) (static s) = (r, srv, st)"
  shows "servers_ok (set_server k srv st s)"
proof -
  have loop: "looping (set_server k srv st s) = looping s"
    using k start by (auto simp: looping_def server_start_def new_tcp_server_def Let_def split: if_splits)
  have dom: "dom (servers (set_server k srv st s)) = insert k (dom (servers s))" by auto
  have card: "card (insert k (dom (servers s))) = Suc (card (dom (servers s)))"
    using ok k by (subst card_insert_disjoint) (auto simp: servers_ok_def)
  show ?thesis
    using ok start loop dom card k
    by (auto simp: servers_ok_def server_start_def new_tcp_server_def Let_def split: if_splits)
qed

lemma servers_ok_enter:
  assumes ok: "servers_ok s" and k: "servers s k = Some srv" "loop_thread srv = Loop_Waiting"
    and enter: "loop_enter srv (static s) = Some (srv', st)"
  shows "servers_ok (set_server k srv' st s)"
proof (cases "stop_flag srv")
  case True
  then show ?thesis using enter k servers_ok_local [OF ok same_service_refl k(1), of srv']
    by (auto simp: loop_enter_def)
next
  case False
  have fin: "finite (looping s)"
    using ok finite_subset [OF looping_subset [of s]] by (simp add: servers_ok_def)
  have none: "looping s = {}" "srv' = srv\<lparr>loop_thread := Looping\<rparr>" "st = (static s)\<lparr>listen_count := 1\<rparr>"
    using enter False ok fin by (auto simp: loop_enter_def servers_ok_def split: if_splits)
  have "looping (set_server k srv' st s) = {k}"
    using none by (simp only: looping_upd) simp
  moreover have "dom (servers (set_server k srv' st s)) = dom (servers s)" using k by auto
  ultimately show ?thesis using ok none k by (auto simp: servers_ok_def)
qed

lemma servers_ok_exit:
  assumes ok: "servers_ok s" and k: "servers s k = Some srv" "loop_thread srv = Looping"
    and leave: "loop_exit srv (static s) = (srv', st)"
  shows "servers_ok (set_server k srv' st s)"
proof -
  have fin: "finite (looping s)"
    using ok finite_subset [OF looping_subset [of s]] by (simp add: servers_ok_def)
  have "looping (set_server k srv' st s) = looping s - {k}"
    using leave by (simp only: looping_upd) (auto simp: loop_exit_def)
  moreover have "k \<in> looping s" using k by (simp add: looping_def)
  moreover have "dom (servers (set_server k srv' st s)) = dom (servers s)" using k by auto
  ultimately show ?thesis
    using ok leave fin k card_gt_0_iff [of "looping s"]
    by (auto simp: servers_ok_def loop_exit_def card_Diff_singleton)
qed

lemma servers_ok_end:
  assumes ok: "servers_ok s" and k: "servers s k = Some srv" "loop_thread srv = Joined"
    and last: "last_stop (static s) = Inr st"
  shows "servers_ok (s\<lparr>static := st, servers := (servers s)(k := None)\<rparr>)" (is "servers_ok ?s")
proof -
  have fin: "finite (dom (servers s))" and count: "server_task_count (static s) = int (card (dom (servers s)))"
    using ok by (auto simp: servers_ok_def)
  have dom: "dom (servers ?s) = dom (servers s) - {k}" by auto
  have pos: "card (dom (servers s)) = Suc (card (dom (servers s) - {k}))"
    using card_Suc_Diff1 [OF fin, of k] k by (simp add: domI)
  have loop: "looping ?s = looping s" using k by (auto simp: looping_def)
  have alone: "servers s k' = None" if "server_task_count (static s) - 1 = 0" "k' \<noteq> k" for k'
    using that count pos fin by auto
  show ?thesis
    using ok last_stop_cases [OF last] dom pos loop fin alone k
    by (auto simp: servers_ok_def)
qed

lemma servers_ok_step: "server_step s s' \<Longrightarrow> servers_ok s \<Longrightarrow> servers_ok s'"
proof (induction rule: server_step.induct)
  case (Loop_Event s k srv evs st)
  then show ?case by (intro servers_ok_static loop_once_same)
next
  case (Put_Connection s k srv node ok srv' st)
  then show ?case using put_connection_same [OF Put_Connection(4)] by (intro servers_ok_local) auto
next
  case (Add_Connection s k srv ptr)
  then show ?case by (intro servers_ok_static add_connection_same)
next
  case (Stop_Begin s k srv)
  then show ?case using servers_ok_local [of s "static s" k srv "srv\<lparr>stop_flag := True\<rparr>"] by simp
next
  case (Stop_Thread s k srv srv')
  then show ?case using servers_ok_local [of s "static s" k srv srv']
    by (auto simp: stop_join_def split: loop_thread.splits)
next
  case (Stop_Connection s k srv srv' st)
  then show ?case using stop_connection_same [OF Stop_Connection(4)] by (intro servers_ok_local) auto
next
  case (Connection_Work s ptr c c')
  then show ?case by (intro servers_ok_static) simp_all
qed (blast intro: servers_ok_start servers_ok_enter servers_ok_exit servers_ok_end)+

lemma servers_ok_reach: "server_step\<^sup>*\<^sup>* new_system s \<Longrightarrow> servers_ok s"
  by (induction rule: rtranclp_induct) (auto intro: servers_ok_step servers_ok_new)

text \<open>A server that failed to start stays: it cannot be joined.\<close>

lemma failed_server_stays:
  assumes "server_step s s'" and "servers s k = Some srv" and "loop_thread srv = No_Thread"
  shows "\<exists>srv'. servers s' k = Some srv' \<and> loop_thread srv' = No_Thread"
  using assms
  by (cases rule: server_step.cases) (auto simp: stop_join_def loop_exit_def loop_enter_def split: if_splits)

lemma failed_server_stays_steps:
  "server_step\<^sup>*\<^sup>* s s' \<Longrightarrow> servers s k = Some srv \<Longrightarrow> loop_thread srv = No_Thread \<Longrightarrow>
   \<exists>srv'. servers s' k = Some srv' \<and> loop_thread srv' = No_Thread"
  by (induction rule: rtranclp_induct) (auto dest: failed_server_stays)

lemma failed_server_keeps_sockets:
  assumes "servers_ok s" and "server_step s s'" and "servers s k = Some srv" and "loop_thread srv = No_Thread"
    and "listen_open (static s)"
  shows "listen_open (static s')"
  using assms(2)
proof (cases rule: server_step.cases)
  case (Server_Start j task ssl_ok init_ok cids r srv' st)
  then show ?thesis using assms(5) by (auto simp: server_start_def Let_def split: if_splits)
next
  case (Loop_Enter j srv' srv'' st)
  then show ?thesis using assms(5) by (auto simp: loop_enter_def split: if_splits)
next
  case (Stop_End j srv' st)
  have "j \<noteq> k" using Stop_End assms(4,3) by auto
  then have "card {j, k} \<le> card (dom (servers s))"
    using assms(1,3) Stop_End by (intro card_mono) (auto simp: servers_ok_def)
  then have "server_task_count (static s) - 1 \<noteq> 0"
    using assms(1) \<open>j \<noteq> k\<close> by (simp add: servers_ok_def)
  then show ?thesis using last_stop_cases(4) [OF Stop_End(5)] Stop_End(1) assms(5) by auto
qed (use assms(5) in \<open>auto simp: loop_exit_def same_service_def add_connection_to_epoll_def
    dest!: loop_once_same put_connection_same stop_connection_same\<close>)

lemma failed_server_keeps_sockets_steps:
  "server_step\<^sup>*\<^sup>* s s' \<Longrightarrow> servers_ok s \<Longrightarrow> servers s k = Some srv \<Longrightarrow> loop_thread srv = No_Thread \<Longrightarrow>
   listen_open (static s) \<Longrightarrow> servers_ok s' \<and> listen_open (static s')"
proof (induction rule: rtranclp_induct)
  case (step y z)
  then obtain srv' where "servers y k = Some srv'" "loop_thread srv' = No_Thread"
    using failed_server_stays_steps by blast
  with step show ?case using failed_server_keeps_sockets servers_ok_step by blast
qed simp

section \<open>stop is a run of steps\<close>

lemma stop_connection_length:
  "stop_connection srv st = Inr (srv', st') \<Longrightarrow> length (server_connections srv') = length (server_connections srv) - 1"
  by (auto simp: stop_connection_def bindE_eq_Inr split: list.splits)

lemma stop_all_steps:
  assumes "stop_all n srv st = Inr (srv', st')" and "n = length (server_connections srv)" and "loop_thread srv = Joined"
    and "servers s k = Some srv" and "static s = st"
  shows "server_step\<^sup>*\<^sup>* s (set_server k srv' st' s) \<and> server_connections srv' = [] \<and> loop_thread srv' = Joined"
  using assms
proof (induction n arbitrary: srv st s)
  case 0
  then have eq: "set_server k srv' st' s = s" by (cases s) (auto simp: fun_upd_idem)
  show ?case unfolding eq using 0 by simp
next
  case (Suc n)
  obtain srv1 st1 where one: "stop_connection srv st = Inr (srv1, st1)" "stop_all n srv1 st1 = Inr (srv', st')"
    using Suc.prems(1) by (auto simp: bindE_eq_Inr)
  let ?s = "set_server k srv1 st1 s"
  have step: "server_step s ?s"
    using Suc.prems(2-5) one(1) by (intro Stop_Connection) auto
  have "server_step\<^sup>*\<^sup>* ?s (set_server k srv' st' ?s) \<and> server_connections srv' = [] \<and> loop_thread srv' = Joined"
    using Suc.prems(2,3) stop_connection_length [OF one(1)] stop_connection_same [OF one(1)]
    by (intro Suc.IH [OF one(2)]) auto
  moreover have "set_server k srv' st' ?s = set_server k srv' st' s" by simp
  ultimately show ?case using converse_rtranclp_into_rtranclp [of server_step, OF step] by metis
qed

lemma server_stop_steps:
  assumes "server_stop srv (static s) = Inr (srv', st')" and "servers s k = Some srv" and "\<not> stop_flag srv"
  shows "server_step\<^sup>*\<^sup>* s (s\<lparr>static := st', servers := (servers s)(k := None)\<rparr>)"
proof -
  let ?srv0 = "srv\<lparr>stop_flag := True\<rparr>"
  obtain srv1 st2 where parts: "stop_join ?srv0 = Inr srv1"
    "stop_all (length (server_connections srv1)) srv1 (static s) = Inr (srv', st2)" "last_stop st2 = Inr st'"
    using assms(1,3) by (auto simp: server_stop_def bindE_eq_Inr)
  let ?s0 = "s\<lparr>servers := (servers s)(k \<mapsto> ?srv0)\<rparr>"
  let ?s1 = "?s0\<lparr>servers := (servers ?s0)(k \<mapsto> srv1)\<rparr>"
  let ?s2 = "set_server k srv' st2 ?s1"
  have s0: "server_step s ?s0" using assms(2,3) by (rule Stop_Begin)
  have s1: "server_step ?s0 ?s1" by (rule Stop_Thread) (use parts(1) in simp_all)
  have "loop_thread srv1 = Joined" using parts(1) by (auto simp: stop_join_def split: loop_thread.splits)
  then have s2: "server_step\<^sup>*\<^sup>* ?s1 ?s2" "server_connections srv' = []" "loop_thread srv' = Joined"
    using stop_all_steps [OF parts(2), of ?s1 k] by auto
  have s3: "server_step ?s2 (?s2\<lparr>static := st', servers := (servers ?s2)(k := None)\<rparr>)"
    by (rule Stop_End) (use s2 parts(3) in simp_all)
  from s0 s1 s2(1) s3 have "server_step\<^sup>*\<^sup>* s (?s2\<lparr>static := st', servers := (servers ?s2)(k := None)\<rparr>)"
    by (meson converse_rtranclp_into_rtranclp rtranclp.rtrancl_into_rtrancl)
  then show ?thesis by simp
qed

section \<open>Accepting the message of connect\<close>

lemma read_hello:
  assumes "8 + length cid \<le> string_max_size"
  shows "read_cid 1 (take 8 (hello cid)) (drop 8 (hello cid)) = Inr (Some cid)"
proof -
  let ?w = "word_of_nat (8 + length cid) :: u64"
  have len: "length (u64_bytes ?w) = 8" by simp
  have "?w - 8 = word_of_nat (length cid)" by simp
  moreover have "unat (word_of_nat (length cid) :: u64) = length cid"
    using assms by (simp add: unat_of_nat string_max_size_def)
  ultimately show ?thesis
    using assms len by (simp add: read_cid_def hello_def resize_def Let_def)
qed

section \<open>Reading a connection\<close>

lemma read_loop_appends:
  assumes "conn_repr c rq ms sq" and "length rq + length (concat chunks) \<le> cb_limit"
    and "\<forall>bs \<in> set chunks. bs \<noteq> [] \<and> length bs \<le> 8192" and "last_ret = Got [] \<or> last_ret = RErr EAGAIN"
  shows "\<exists>c'. read_loop (map Got chunks @ last_ret # rs) c = Some (Inr (last_ret = Got [], c')) \<and>
    conn_repr c' (rq @ concat chunks) ms sq \<and> state c' = state c"
  using assms
proof (induction chunks arbitrary: c rq)
  case Nil
  then show ?case by auto
next
  case (Cons bs chunks)
  obtain c1 where c1: "conn_write c bs = Inr c1" "conn_repr c1 (rq @ bs) ms sq" "state c1 = state c"
    using conn_write_ok [OF Cons.prems(1), of bs] Cons.prems(2) by auto
  obtain c' where "read_loop (map Got chunks @ last_ret # rs) c1 = Some (Inr (last_ret = Got [], c'))"
    "conn_repr c' ((rq @ bs) @ concat chunks) ms sq" "state c' = state c1"
    using Cons.IH [OF c1(2)] Cons.prems by auto
  then show ?case using c1 Cons.prems(3) by auto
qed

section \<open>Properties\<close>

lemma reach_looping:
  obtains s srv where "server_step\<^sup>*\<^sup>* new_system s" "servers s 1 = Some srv" "loop_thread srv = Looping"
proof -
  let ?srv = "(new_tcp_server [''c''])\<lparr>srv_task := ''t'', loop_thread := Loop_Waiting\<rparr>"
  let ?st = "new_server_static\<lparr>server_task_count := 1, stoped_flag := False, is_inited := True, listen_open := True\<rparr>"
  let ?s1 = "set_server 1 ?srv ?st new_system"
  let ?srv2 = "?srv\<lparr>loop_thread := Looping\<rparr>" and ?st2 = "?st\<lparr>listen_count := 1\<rparr>"
  have "server_step new_system ?s1"
    by (rule Server_Start [of _ _ "''t''" True True "[''c'']" True])
      (simp_all add: new_system_def server_start_def new_server_static_def)
  moreover have "server_step ?s1 (set_server 1 ?srv2 ?st2 ?s1)"
    by (rule Loop_Enter [of _ _ ?srv]) (simp_all add: loop_enter_def new_server_static_def new_tcp_server_def)
  ultimately have "server_step\<^sup>*\<^sup>* new_system (set_server 1 ?srv2 ?st2 ?s1)" by auto
  then show thesis by (rule that [of _ ?srv2]) simp_all
qed

text \<open>C23: while the server of any task runs, the shared sockets stay open whatever the servers of other tasks
  do: in every reachable state with a server whose thread was started and which has not been destroyed,
  the listening socket is open, \<open>is_inited_\<close> is set and \<open>stoped_\<close>, which \<open>BasicIO::recv\<close> tests, is not, and
  \<open>task_count_\<close> is the number of servers.\<close>

theorem running_server_keeps_sockets:
  assumes "server_step\<^sup>*\<^sup>* new_system s" and "servers s k = Some srv" and "loop_thread srv \<noteq> No_Thread"
  shows "listen_open (static s) \<and> is_inited (static s) \<and> \<not> stoped_flag (static s) \<and>
    server_task_count (static s) = int (card (dom (servers s)))"
  using servers_ok_reach [OF assms(1)] assms(2,3) by (auto simp: servers_ok_def)

theorem running_server_keeps_sockets_witness:
  "\<exists>s. server_step\<^sup>*\<^sup>* new_system s \<and> listen_open (static s)"
proof (rule reach_looping)
  fix s srv
  assume s: "server_step\<^sup>*\<^sup>* new_system s" "servers s 1 = Some srv" "loop_thread srv = Looping"
  then have "loop_thread srv \<noteq> No_Thread" by simp
  from running_server_keeps_sockets [OF s(1,2) this] s(1) show ?thesis by blast
qed

text \<open>The epoll events are handled by one thread at a time: in every reachable state at most one server
  is past the wait at the beginning of \<open>loop_main\<close>, and \<open>listen_count_\<close> is one then.\<close>

theorem one_thread_handles_events:
  assumes "server_step\<^sup>*\<^sup>* new_system s" and "servers s j = Some srv" and "servers s k = Some srv'"
    and "loop_thread srv = Looping" and "loop_thread srv' = Looping"
  shows "j = k \<and> listen_count (static s) = 1"
proof -
  have ok: "servers_ok s" by (rule servers_ok_reach [OF assms(1)])
  then have "finite (looping s)"
    using finite_subset [OF looping_subset [of s]] by (simp add: servers_ok_def)
  moreover have "j \<in> looping s" "k \<in> looping s" using assms(2-5) by (auto simp: looping_def)
  moreover have "card (looping s) \<le> Suc 0" using ok by (simp add: servers_ok_def)
  moreover have "0 < card (looping s)" using calculation by (auto simp: card_gt_0_iff)
  ultimately show ?thesis using ok card_le_Suc0_iff_eq [of "looping s"] by (auto simp: servers_ok_def)
qed

theorem one_thread_handles_events_witness:
  "\<exists>(s :: server_system) srv. servers s 1 = Some srv \<and> loop_thread srv = Looping \<and> listen_count (static s) = 1"
proof (rule reach_looping)
  fix s srv
  assume s: "server_step\<^sup>*\<^sup>* new_system s" "servers s 1 = Some srv" "loop_thread srv = Looping"
  from one_thread_handles_events [OF s(1,2,2,3,3)] s show ?thesis by blast
qed

text \<open>A start that fails is never undone: when \<open>start\<close> of a server failed, the thread that \<open>stop\<close>, and
  so the destructor, joins does not exist and joining it throws, in every later state; the task stays
  counted, so that the sockets, once open, are never closed again.\<close>

theorem failed_start_is_never_undone:
  assumes "server_step\<^sup>*\<^sup>* new_system s" and "servers s k = Some srv" and "loop_thread srv = No_Thread"
    and "server_step\<^sup>*\<^sup>* s s'"
  shows "(\<exists>srv'. servers s' k = Some srv' \<and> stop_join srv' = Inl system_error) \<and>
    (listen_open (static s) \<longrightarrow> listen_open (static s'))"
  using failed_server_stays_steps [OF assms(4,2,3)] servers_ok_reach [OF assms(1)] assms(2,3)
    failed_server_keeps_sockets_steps [OF assms(4)] by (fastforce simp: stop_join_def)

theorem failed_start_is_never_undone_witness:
  "\<exists>srv st. server_start ''t'' True False (new_tcp_server []) new_server_static = (False, srv, st) \<and>
     stop_join srv = Inl system_error"
proof -
  let ?srv = "(new_tcp_server [])\<lparr>srv_task := ''t''\<rparr>"
  let ?st = "new_server_static\<lparr>server_task_count := 1\<rparr>"
  have start: "server_start ''t'' True False (new_tcp_server []) new_server_static = (False, ?srv, ?st)"
    by (simp add: server_start_def new_server_static_def)
  let ?s = "set_server 0 ?srv ?st new_system"
  have "server_step new_system ?s"
    by (rule Server_Start [of _ _ "''t''" True False "[]" False]) (use start in \<open>simp_all add: new_system_def\<close>)
  then have r: "server_step\<^sup>*\<^sup>* new_system ?s" by blast
  have k: "servers ?s 0 = Some ?srv" "loop_thread ?srv = No_Thread" by (simp_all add: new_tcp_server_def)
  from failed_start_is_never_undone [OF r k rtranclp.rtrancl_refl] start show ?thesis by simp
qed

text \<open>C28: the server registers a client under the id the client sends: when the two reads of
  \<open>handle_accept\<close> return the message of \<open>TCPClient::connect\<close>, a client that is not expected changes nothing; an expected one gets a new
  connection in the epoll set, the connection it had before is kept aside, and no other client is touched.\<close>

theorem hello_registers_client:
  assumes "8 + length cid \<le> string_max_size" and "cfd \<noteq> -1" and "sorted_map (connections st)"
  shows "\<exists>st'. handle_accept srv cfd 1 (take 8 (hello cid)) (drop 8 (hello cid)) ptr st = Inr st' \<and>
    (if cid \<in> set (expected_cids srv)
     then objs st' ptr = Some (new_connection cfd EPOLL_EVENTS True cid) \<and> ptr \<in> epoll_set st' \<and>
       std_find (connections st') = (std_find (connections st))(cid \<mapsto> ptr) \<and>
       recycle_connections st' = recycle_connections st @
         (case std_find (connections st) cid of None \<Rightarrow> [] | Some old \<Rightarrow> [old])
     else st' = st)"
  using assms
  by (auto simp: handle_accept_def read_hello list_ex_iff register_connection_def Let_def
      std.find_insert std.find_erase std.valid_erase split: option.splits)

theorem hello_registers_client_witness:
  "\<exists>st. handle_accept (new_tcp_server [''P1'']) 7 1 (take 8 (hello ''P1'')) (drop 8 (hello ''P1'')) 3
     new_server_static = Inr st \<and> std_find (connections st) ''P1'' = Some 3"
  using hello_registers_client [of "''P1''" 7 new_server_static "new_tcp_server [''P1'']" 3]
  by (auto simp: string_max_size_def new_server_static_def new_tcp_server_def)

text \<open>C29: a ready connection is read to the end: \<open>handle_read\<close> appends all bytes the kernel returns, in
  order, to the receive buffer; when the kernel has no more for now the connection stays open, and at the
  end of the stream it leaves the epoll set and is closed with the received bytes kept.\<close>

theorem ready_connection_is_read:
  assumes "objs st ptr = Some c" and "state c \<noteq> Closing" and "state c \<noteq> Closed"
    and "conn_repr c rq ms sq" and "length rq + length (concat chunks) \<le> cb_limit"
    and "\<forall>bs \<in> set chunks. bs \<noteq> [] \<and> length bs \<le> 8192" and "last_ret = Got [] \<or> last_ret = RErr EAGAIN"
  shows "\<exists>st' c'. handle_read (map Got chunks @ last_ret # rs) ptr True st = Some (Inr st') \<and>
    objs st' ptr = Some c' \<and> connections st' = connections st \<and>
    (if last_ret = Got [] then conn_repr c' (rq @ concat chunks) ms [] \<and> state c' = Closed \<and> epoll_set st' = epoll_set st - {ptr}
     else conn_repr c' (rq @ concat chunks) ms sq \<and> state c' = state c \<and> epoll_set st' = epoll_set st)"
proof -
  obtain c1 where c1: "read_loop (map Got chunks @ last_ret # rs) c = Some (Inr (last_ret = Got [], c1))"
    "conn_repr c1 (rq @ concat chunks) ms sq" "state c1 = state c"
    using read_loop_appends [OF assms(4-7)] by blast
  have "conn_repr (c1\<lparr>state := Closing\<rparr>) (rq @ concat chunks) ms sq" using c1(2) by (simp add: conn_repr_def)
  then obtain c2 where "flush_send_buffer (c1\<lparr>state := Closing\<rparr>) = Inr (sq, c2)" "conn_repr c2 (rq @ concat chunks) ms []"
    using flush_send_buffer_ok by blast
  moreover from this have "conn_repr (c2\<lparr>state := Closed\<rparr>) (rq @ concat chunks) ms []" by (simp add: conn_repr_def)
  ultimately show ?thesis
    using c1 assms(1-3) by (cases "last_ret = Got []") (auto simp: handle_read_def close_connection_def)
qed

theorem ready_connection_is_read_witness:
  "\<exists>st' c'. handle_read [Got ''ab'', Got ''c'', Got []] 3 True
       (new_server_static\<lparr>objs := [3 \<mapsto> new_connection 7 EPOLL_EVENTS True ''P1'']\<rparr>) = Some (Inr st') \<and>
     objs st' 3 = Some c' \<and> conn_repr c' ''abc'' (\<lambda>_. []) [] \<and> state c' = Closed"
proof -
  let ?c = "new_connection 7 EPOLL_EVENTS True ''P1''"
  have "state ?c \<noteq> Closing" "state ?c \<noteq> Closed" by (simp_all add: new_connection_def)
  from ready_connection_is_read [of "new_server_static\<lparr>objs := [3 \<mapsto> ?c]\<rparr>" 3 ?c "[]" "\<lambda>_. []" "[]"
      "[''ab'', ''c'']" "Got []" "[]", OF _ this new_connection_repr]
  show ?thesis by (auto simp: cb_limit_def)
qed


text \<open>C30: a connection the peer has closed is handed to the next task: \<open>handle_read\<close> closes a connection at the end of the
  stream but, unlike \<open>handle_error\<close>, leaves it reusable and registered; \<open>put_connection\<close> then starts the next task
  on the closed connection and reports success.\<close>

theorem closed_connection_is_offered:
  assumes "objs st ptr = Some c" and "state c \<notin> {Closing, Closed}" and "reuseable c"
    and "conn_repr c rq ms sq" and "std_find (connections st) cid = Some ptr"
    and "std_find (server_connections srv) cid = None" and "sorted_map (server_connections srv)"
    and "length (srv_task srv) \<le> 249"
  shows "\<exists>st1 st2 srv' c'. handle_read [Got []] ptr True st = Some (Inr st1) \<and>
    put_connection cid srv st1 = Inr (True, srv', st2) \<and> get_connection cid srv' = Some ptr \<and>
    objs st2 ptr = Some c' \<and> state c' = Closed"
proof -
  have "conn_repr (c\<lparr>state := Closing\<rparr>) rq ms sq" using assms(4) by (simp add: conn_repr_def)
  then obtain c1 where c1: "flush_send_buffer (c\<lparr>state := Closing\<rparr>) = Inr (sq, c1)" "conn_repr c1 rq ms []"
    using flush_send_buffer_ok by blast
  let ?c = "c1\<lparr>state := Closed\<rparr>"
  let ?st = "st\<lparr>objs := (objs st)(ptr \<mapsto> ?c), epoll_set := epoll_set st - {ptr}\<rparr>"
  have re: "reuseable ?c" using c1(1) assms(3) by (auto simp: flush_send_buffer_def bindE_eq_Inr split: if_splits)
  have read: "handle_read [Got []] ptr True st = Some (Inr ?st)"
    using assms(1,2) c1(1) by (auto simp: handle_read_def close_connection_def)
  have r: "conn_repr (?c\<lparr>task_count := task_count ?c + 1\<rparr>) rq ms []" using c1(2) by (simp add: conn_repr_def)
  have "length [] + (9 + length (lock_id (srv_task srv)) + length ''1'') \<le> cb_limit"
    using assms(8) by (simp add: cb_limit_def lock_id_def)
  from send_msg_ok [OF r this] obtain k c2 where
    c2: "send_msg (?c\<lparr>task_count := task_count ?c + 1\<rparr>) (lock_id (srv_task srv)) ''1'' = Inr (k, c2)" "state c2 = Closed"
    by auto
  have start: "start_lock (srv_task srv) ?c = Inr c2" using c2(1) by (simp add: start_lock_def)
  have re2: "reuseable c2" using c2(1) re
    by (auto simp: send_msg_def put_into_send_buffer_def bindE_eq_Inr Let_def split: if_splits)
  have "put_connection cid srv ?st = Inr (True, srv\<lparr>server_connections := std_insert cid ptr (server_connections srv)\<rparr>,
      ?st\<lparr>objs := (objs ?st)(ptr \<mapsto> c2)\<rparr>)"
    using assms(5) re re2 start by (simp add: put_connection_def find_connection_def get_obj_def)
  with read c2(2) assms(6,7) show ?thesis by (auto simp: get_connection_def std.find_insert)
qed

theorem closed_connection_is_offered_witness:
  "\<exists>st1 st2 srv'. handle_read [Got []] 3 True (register_connection 3 7 ''P1'' new_server_static) = Some (Inr st1) \<and>
     put_connection ''P1'' (new_tcp_server [''P1'']) st1 = Inr (True, srv', st2) \<and> get_connection ''P1'' srv' = Some 3"
proof -
  let ?st = "register_connection 3 7 ''P1'' new_server_static" and ?c = "new_connection 7 EPOLL_EVENTS True ''P1''"
  have "objs ?st 3 = Some ?c" "std_find (connections ?st) ''P1'' = Some 3"
    by (simp_all add: register_connection_def new_server_static_def std.find_insert)
  moreover have "state ?c \<notin> {Closing, Closed}" "reuseable ?c" by (simp_all add: new_connection_def)
  ultimately show ?thesis
    using closed_connection_is_offered [of ?st 3 ?c "[]" "\<lambda>_. []" "[]" "''P1''" "new_tcp_server [''P1'']"] new_connection_repr
    by (fastforce simp: new_tcp_server_def)
qed

end
