(* ===== verification/Socket.thy ===== *)
theory Socket
  imports Support "HOL-Library.Signed_Division"
begin

text \<open>
  The base class \<open>Socket\<close> (\<open>socket.h\<close>, \<open>socket.cpp\<close>): the options of a descriptor, the name resolution of
  \<open>gethostip\<close>, and \<open>create_server\<close> and \<open>init\<close> of \<open>server.cpp\<close>, which open the listening descriptor.

  Descriptors are an explicit table of options. The answers of the system calls and of \<open>getaddrinfo\<close> are
  arguments. \<open>std::regex\<close> is modelled on the constructs the one pattern uses.
\<close>

section \<open>Options\<close>

type_synonym timeval = "int \<times> int"         \<comment> \<open>seconds, microseconds\<close>

record socket_options =
  nonblocking :: bool
  reuseaddr :: int
  reuseport :: int
  sendbuf :: int
  recvbuf :: int
  send_timeout :: timeval
  recv_timeout :: timeval
  linger :: "(int \<times> int) option"
  nodelay :: int

definition new_socket :: socket_options where
  "new_socket = \<lparr>nonblocking = False, reuseaddr = 0, reuseport = 0, sendbuf = 0, recvbuf = 0,
     send_timeout = (0, 0), recv_timeout = (0, 0), linger = None, nodelay = 0\<rparr>"

type_synonym fd_table = "int \<rightharpoonup> socket_options"

text \<open>A call on a descriptor that is not open returns -1 and changes nothing.\<close>

definition on_fd :: "(socket_options \<Rightarrow> socket_options) \<Rightarrow> int \<Rightarrow> fd_table \<Rightarrow> int \<times> fd_table" where
  "on_fd f sock fds = (case fds sock of None \<Rightarrow> (-1, fds) | Some opts \<Rightarrow> (0, fds(sock \<mapsto> f opts)))"

definition timeval_of :: "int \<Rightarrow> timeval" where
  "timeval_of timeout = (timeout sdiv 1000, (timeout smod 1000) * 1000)"

text \<open>\<open>set_nonblocking\<close> returns \<open>errno\<close> instead.\<close>

definition EBADF :: int where "EBADF = 9"

definition set_nonblocking :: "int \<Rightarrow> bool \<Rightarrow> fd_table \<Rightarrow> int \<times> fd_table" where
  "set_nonblocking sock v fds =
    (case fds sock of None \<Rightarrow> (EBADF, fds) | Some opts \<Rightarrow> (0, fds(sock \<mapsto> opts\<lparr>nonblocking := v\<rparr>)))"

definition set_reuseaddr :: "int \<Rightarrow> int \<Rightarrow> fd_table \<Rightarrow> int \<times> fd_table" where
  "set_reuseaddr sock v = on_fd (\<lambda>opts. opts\<lparr>reuseaddr := v\<rparr>) sock"

definition set_reuseport :: "int \<Rightarrow> int \<Rightarrow> fd_table \<Rightarrow> int \<times> fd_table" where
  "set_reuseport sock v = on_fd (\<lambda>opts. opts\<lparr>reuseport := v\<rparr>) sock"

definition set_sendbuf :: "int \<Rightarrow> int \<Rightarrow> fd_table \<Rightarrow> int \<times> fd_table" where
  "set_sendbuf sock v = on_fd (\<lambda>opts. opts\<lparr>sendbuf := v\<rparr>) sock"

definition set_recvbuf :: "int \<Rightarrow> int \<Rightarrow> fd_table \<Rightarrow> int \<times> fd_table" where
  "set_recvbuf sock v = on_fd (\<lambda>opts. opts\<lparr>recvbuf := v\<rparr>) sock"

definition set_send_timeout :: "int \<Rightarrow> int \<Rightarrow> fd_table \<Rightarrow> int \<times> fd_table" where
  "set_send_timeout sock v = on_fd (\<lambda>opts. opts\<lparr>send_timeout := timeval_of v\<rparr>) sock"

definition set_recv_timeout :: "int \<Rightarrow> int \<Rightarrow> fd_table \<Rightarrow> int \<times> fd_table" where
  "set_recv_timeout sock v = on_fd (\<lambda>opts. opts\<lparr>recv_timeout := timeval_of v\<rparr>) sock"

definition set_linger :: "int \<Rightarrow> fd_table \<Rightarrow> int \<times> fd_table" where
  "set_linger sock = on_fd (\<lambda>opts. opts\<lparr>linger := Some (1, 0)\<rparr>) sock"

definition set_nodelay :: "int \<Rightarrow> int \<Rightarrow> fd_table \<Rightarrow> int \<times> fd_table" where
  "set_nodelay sock v = on_fd (\<lambda>opts. opts\<lparr>nodelay := v\<rparr>) sock"

definition default_buffer_size :: int where
  "default_buffer_size = 1024 * 1024 * 10"

text \<open>A time-out in milliseconds is kept exactly; what the kernel takes as no time-out at all is given
  for nothing but the time-out 0.\<close>

lemma timeval_of_exact: "0 \<le> t \<Longrightarrow> fst (timeval_of t) * 1000000 + snd (timeval_of t) = t * 1000"
  using div_mult_mod_eq [of t 1000]
  by (cases "t = 0") (simp add: timeval_of_def, simp add: timeval_of_def signed_divide_int_def signed_modulo_int_def,
    presburger)

lemma timeval_of_zero: "0 \<le> t \<Longrightarrow> timeval_of t = (0, 0) \<longleftrightarrow> t = 0"
  using timeval_of_exact [of t] by (auto simp: timeval_of_def)

section \<open>The listening descriptor\<close>

text \<open>\<open>create_server\<close>: \<open>sock\<close> is what \<open>socket\<close> returned, \<open>bind_ret\<close> and \<open>listen_ret\<close> the results of those
  calls. A failure does not close the descriptor.\<close>

definition create_server :: "int \<Rightarrow> int \<Rightarrow> int \<Rightarrow> fd_table \<Rightarrow> int \<times> fd_table" where
  "create_server sock bind_ret listen_ret fds0 =
    (if sock < 0 then (-1, fds0)
     else let fds = fds0(sock \<mapsto> new_socket);
              fds = snd (set_nonblocking sock True fds);
              fds = snd (set_reuseaddr sock 1 fds);
              fds = snd (set_reuseport sock 1 fds);
              fds = snd (set_sendbuf sock default_buffer_size fds);
              fds = snd (set_recvbuf sock default_buffer_size fds);
              fds = snd (set_linger sock fds);
              fds = snd (set_nodelay sock 1 fds)
          in if bind_ret \<noteq> 0 then (-1, fds)
             else if listen_ret \<noteq> 0 then (-1, fds)
             else (sock, fds))"

text \<open>\<open>TCPServer::init\<close>: the epoll descriptor, then the listening one.\<close>

definition server_init :: "int \<Rightarrow> int \<Rightarrow> int \<Rightarrow> int \<Rightarrow> fd_table \<Rightarrow> bool \<times> fd_table" where
  "server_init epfd sock bind_ret listen_ret fds =
    (if epfd < 0 then (False, fds)
     else let fds1 = fds(epfd \<mapsto> new_socket);
              (listenfd, fds2) = create_server sock bind_ret listen_ret fds1
          in (0 \<le> listenfd, fds2))"

lemma create_server_options:
  "0 \<le> sock \<Longrightarrow> snd (create_server sock b l fds) = fds(sock \<mapsto> \<lparr>nonblocking = True, reuseaddr = 1, reuseport = 1,
     sendbuf = default_buffer_size, recvbuf = default_buffer_size, send_timeout = (0, 0), recv_timeout = (0, 0),
     linger = Some (1, 0), nodelay = 1\<rparr>)"
  by (simp add: create_server_def Let_def on_fd_def new_socket_def set_nonblocking_def set_reuseaddr_def
      set_reuseport_def set_sendbuf_def set_recvbuf_def set_linger_def set_nodelay_def)

text \<open>Every failed \<open>init\<close> leaves its descriptors open.\<close>

lemma failed_init_leaks:
  assumes "0 \<le> epfd" and "0 \<le> sock" and "bind_ret \<noteq> 0 \<or> listen_ret \<noteq> 0"
  shows "\<exists>fds'. server_init epfd sock bind_ret listen_ret fds = (False, fds') \<and> dom fds' = insert epfd (insert sock (dom fds))"
  using assms create_server_options [of sock bind_ret listen_ret "fds(epfd \<mapsto> new_socket)"]
  by (auto simp: server_init_def create_server_def Let_def split: prod.splits)

section \<open>Name resolution\<close>

text \<open>Regular expressions: the suffixes left after a match at the beginning.\<close>

datatype rx = Cls "char list" | Seq rx rx | Alt rx rx | Opt rx

fun rests :: "rx \<Rightarrow> string \<Rightarrow> string list" where
  "rests (Cls cs) s = (case s of [] \<Rightarrow> [] | c # t \<Rightarrow> if c \<in> set cs then [t] else [])"
| "rests (Seq r q) s = concat (map (rests q) (rests r s))"
| "rests (Alt r q) s = rests r s @ rests q s"
| "rests (Opt r) s = rests r s @ [s]"

definition regex_match :: "string \<Rightarrow> rx \<Rightarrow> bool" where
  "regex_match s r \<longleftrightarrow> [] \<in> set (rests r s)"

definition digits :: string where "digits = ''0123456789''"

text \<open>\<open>(2(5[0-5]|[0-4]\d))|[0-1]?\d{1,2}\<close> and the whole pattern.\<close>

definition octet_rx :: rx where
  "octet_rx = Alt (Seq (Cls ''2'') (Alt (Seq (Cls ''5'') (Cls ''012345'')) (Seq (Cls ''01234'') (Cls digits))))
     (Seq (Opt (Cls ''01'')) (Seq (Cls digits) (Opt (Cls digits))))"

definition ip4pattern :: rx where
  "ip4pattern = (let dot_octet = Seq (Cls ''.'') octet_rx in
     Seq octet_rx (Seq dot_octet (Seq dot_octet dot_octet)))"

text \<open>An entry of the list \<open>getaddrinfo\<close> returns: whether its family is \<open>AF_INET\<close>, and the text
  \<open>inet_ntop\<close> makes of its address.\<close>

fun first_inet :: "(bool \<times> string) list \<Rightarrow> string" where
  "first_inet [] = []"
| "first_inet ((inet, txt) # infos) = (if inet \<and> txt \<noteq> [] then txt else first_inet infos)"

definition gethostip :: "(string \<Rightarrow> (bool \<times> string) list option) \<Rightarrow> string \<Rightarrow> string" where
  "gethostip getaddrinfo hostname =
    (let ipaddr = (case getaddrinfo hostname of None \<Rightarrow> [] | Some infos \<Rightarrow> first_inet infos)
     in if ipaddr = [] then
          (if regex_match hostname ip4pattern then hostname
           else if hostname = ''localhost'' then ''127.0.0.1'' else ipaddr)
        else ipaddr)"

section \<open>The pattern describes dotted quads\<close>

definition octet :: "string \<Rightarrow> bool" where
  "octet s \<longleftrightarrow> s \<noteq> [] \<and> length s \<le> 3 \<and> set s \<subseteq> set digits \<and> string_to_nat 0 s \<le> 255"

definition dotted_quad :: "string \<Rightarrow> bool" where
  "dotted_quad s \<longleftrightarrow> (\<exists>a b c d. s = a @ ''.'' @ b @ ''.'' @ c @ ''.'' @ d \<and> octet a \<and> octet b \<and> octet c \<and> octet d)"

fun lang :: "rx \<Rightarrow> string set" where
  "lang (Cls cs) = {[c] |c. c \<in> set cs}"
| "lang (Seq r q) = {u @ v |u v. u \<in> lang r \<and> v \<in> lang q}"
| "lang (Alt r q) = lang r \<union> lang q"
| "lang (Opt r) = lang r \<union> {[]}"

lemma rests_lang: "t \<in> set (rests r s) \<longleftrightarrow> (\<exists>u \<in> lang r. s = u @ t)"
proof (induction r arbitrary: s t)
  case (Cls cs)
  then show ?case by (cases s) auto
next
  case (Seq r q)
  have "t \<in> set (rests (Seq r q) s) \<longleftrightarrow> (\<exists>x. x \<in> set (rests r s) \<and> t \<in> set (rests q x))" by auto
  then show ?case by (auto simp: Seq.IH) (metis append.assoc)
qed auto

lemma regex_match_lang: "regex_match s r \<longleftrightarrow> s \<in> lang r"
  by (simp add: regex_match_def rests_lang)

text \<open>Character classes as ranges of codes.\<close>

lemma class_range:
  assumes "set cs = char_of ` {a..<b :: nat}" and "b \<le> 256"
  shows "c \<in> set cs \<longleftrightarrow> a \<le> of_char c \<and> of_char c < b"
proof
  assume "c \<in> set cs"
  then obtain n where "n \<in> {a..<b}" "c = char_of n" using assms(1) by auto
  then show "a \<le> of_char c \<and> of_char c < b" using assms(2) by (simp add: of_char_of)
next
  assume "a \<le> of_char c \<and> of_char c < b"
  then have "char_of (of_char c :: nat) \<in> char_of ` {a..<b}" by (intro imageI) auto
  then show "c \<in> set cs" using assms(1) by simp
qed

lemma digit_classes:
  "c \<in> set digits \<longleftrightarrow> 48 \<le> (of_char c :: nat) \<and> (of_char c :: nat) < 58"
  "c \<in> set ''012345'' \<longleftrightarrow> 48 \<le> (of_char c :: nat) \<and> (of_char c :: nat) < 54"
  "c \<in> set ''01234'' \<longleftrightarrow> 48 \<le> (of_char c :: nat) \<and> (of_char c :: nat) < 53"
  "c \<in> set ''01'' \<longleftrightarrow> 48 \<le> (of_char c :: nat) \<and> (of_char c :: nat) < 50"
  "c \<in> set ''2'' \<longleftrightarrow> 50 \<le> (of_char c :: nat) \<and> (of_char c :: nat) < 51"
  "c \<in> set ''5'' \<longleftrightarrow> 53 \<le> (of_char c :: nat) \<and> (of_char c :: nat) < 54"
  by (rule class_range, code_simp, simp)+

text \<open>What a pattern of the shape of \<open>octet_rx\<close> matches, by length.\<close>

lemma octet_shape:
  fixes t f x l d z :: "char list"
  defines "r \<equiv> Alt (Seq (Cls t) (Alt (Seq (Cls f) (Cls x)) (Seq (Cls l) (Cls d))))
     (Seq (Opt (Cls z)) (Seq (Cls d) (Opt (Cls d))))"
  shows "\<not> regex_match [] r"
    and "regex_match [a] r \<longleftrightarrow> a \<in> set d"
    and "regex_match [a, b] r \<longleftrightarrow> a \<in> set d \<and> b \<in> set d \<or> a \<in> set z \<and> b \<in> set d"
    and "regex_match [a, b, c] r \<longleftrightarrow> a \<in> set t \<and> (b \<in> set f \<and> c \<in> set x \<or> b \<in> set l \<and> c \<in> set d) \<or>
      a \<in> set z \<and> b \<in> set d \<and> c \<in> set d"
    and "\<not> regex_match (a # b # c # e # s) r"
  by (auto simp: r_def regex_match_def)

lemma octet_regex: "regex_match s octet_rx \<longleftrightarrow> octet s"
proof -
  note simps = octet_rx_def octet_shape digit_classes octet_def
  consider "s = []" | a where "s = [a]" | a b where "s = [a, b]" | a b c where "s = [a, b, c]"
    | a b c d t where "s = a # b # c # d # t"
    by (metis list.exhaust)
  then show ?thesis
  proof cases
    case (2 a)
    define x where "x = (of_char a :: nat)"
    show ?thesis unfolding 2 by (simp add: simps del: set_simps add: list.set) (auto simp flip: x_def)
  next
    case (3 a b)
    define x y where "x = (of_char a :: nat)" and "y = (of_char b :: nat)"
    have "(48 \<le> x \<and> x < 58) \<and> (48 \<le> y \<and> y < 58) \<or> (48 \<le> x \<and> x < 50) \<and> 48 \<le> y \<and> y < 58 \<longleftrightarrow>
      (48 \<le> x \<and> x < 58) \<and> (48 \<le> y \<and> y < 58) \<and> 10 * (x - 48) + (y - 48) \<le> 255"
      by presburger
    then show ?thesis unfolding 3 simps x_def y_def by (simp add: digit_classes)
  next
    case (4 a b c)
    define x y z where "x = (of_char a :: nat)" and "y = (of_char b :: nat)" and "z = (of_char c :: nat)"
    have "(50 \<le> x \<and> x < 51) \<and> ((53 \<le> y \<and> y < 54) \<and> (48 \<le> z \<and> z < 54) \<or> (48 \<le> y \<and> y < 53) \<and> 48 \<le> z \<and> z < 58) \<or>
        (48 \<le> x \<and> x < 50) \<and> (48 \<le> y \<and> y < 58) \<and> 48 \<le> z \<and> z < 58 \<longleftrightarrow>
      (48 \<le> x \<and> x < 58) \<and> (48 \<le> y \<and> y < 58) \<and> (48 \<le> z \<and> z < 58) \<and>
        10 * (10 * (x - 48) + (y - 48)) + (z - 48) \<le> 255"
    proof -
      consider "x < 50" | "50 < x" | "x = 50" "y < 53" | "x = 50" "y = 53" | "x = 50" "53 < y" by linarith
      then show ?thesis by cases auto
    qed
    then show ?thesis unfolding 4 simps x_def y_def z_def by (simp add: digit_classes)
  qed (simp_all add: octet_rx_def octet_shape octet_def)
qed

lemma ip4pattern_lang: "regex_match s ip4pattern \<longleftrightarrow> dotted_quad s"
proof -
  have oct: "u \<in> lang octet_rx \<longleftrightarrow> octet u" for u
    using octet_regex by (simp add: regex_match_lang)
  have dot: "u \<in> lang (Seq (Cls ''.'') octet_rx) \<longleftrightarrow> (\<exists>v. u = ''.'' @ v \<and> octet v)" for u
    by (auto simp: oct)
  have seq: "u \<in> lang (Seq r q) \<longleftrightarrow> (\<exists>x y. u = x @ y \<and> x \<in> lang r \<and> y \<in> lang q)" for u r q by auto
  have "s \<in> lang ip4pattern \<longleftrightarrow> dotted_quad s"
  proof
    assume "s \<in> lang ip4pattern"
    then obtain a b c d where "s = a @ (''.'' @ b) @ (''.'' @ c) @ ''.'' @ d" "octet a" "octet b" "octet c" "octet d"
      unfolding ip4pattern_def Let_def seq [of _ octet_rx] seq [of _ "Seq (Cls ''.'') octet_rx" "Seq r q" for r q]
        seq [of _ "Seq (Cls ''.'') octet_rx" "Seq (Cls ''.'') octet_rx"] oct dot by blast
    then show "dotted_quad s" unfolding dotted_quad_def append.assoc by blast
  next
    assume "dotted_quad s"
    then obtain a b c d where s: "s = a @ (''.'' @ b) @ (''.'' @ c) @ (''.'' @ d)" "octet a" "octet b" "octet c" "octet d"
      unfolding dotted_quad_def append.assoc by blast
    have join: "x \<in> lang r \<Longrightarrow> y \<in> lang q \<Longrightarrow> x @ y \<in> lang (Seq r q)" for x y r q by auto
    have part: "''.'' @ v \<in> lang (Seq (Cls ''.'') octet_rx)" if "octet v" for v
      unfolding dot using that by blast
    from s(2) have "a \<in> lang octet_rx" by (simp only: oct)
    from join [OF this join [OF part [OF s(3)] join [OF part [OF s(4)] part [OF s(5)]]]]
    show "s \<in> lang ip4pattern" by (simp only: s(1) ip4pattern_def Let_def)
  qed
  then show ?thesis by (simp add: regex_match_lang)
qed

section \<open>Properties\<close>

text \<open>C34: the address of a host is the first IPv4 address the resolver gives; without one, a host name that
  is itself four decimal numbers of one to three digits, each at most 255, stands for its own address, and
  of all other names only \<open>localhost\<close> has one. So the regular expression accepts exactly the dotted quads.\<close>

theorem host_address_reference:
  "gethostip getaddrinfo host =
    (let ip = first_inet (case getaddrinfo host of None \<Rightarrow> [] | Some infos \<Rightarrow> infos) in
     if ip \<noteq> [] then ip else if dotted_quad host then host
     else if host = ''localhost'' then ''127.0.0.1'' else []) \<and>
   (regex_match host ip4pattern \<longleftrightarrow> dotted_quad host)"
  by (simp add: gethostip_def ip4pattern_lang Let_def split: option.splits)

end
