(* ===== verification/Client.thy ===== *)
theory Client
  imports Server Socket
begin

text \<open>
  The dialling side, \<open>client.h\<close> and \<open>client.cpp\<close>. Connections are shared by all tasks and found by address
  (\<open>client_static\<close>); a \<open>tcp_client\<close> is the object of one task and peer. \<open>TCPClient::connect\<close> is its
  two critical sections with the attempts to connect between them, \<open>client_step\<close> interleaves the clients
  of all tasks.

  The answers of the kernel are arguments: those of \<open>getaddrinfo\<close> and a script of attempts. A host without
  an address makes \<open>connect\<close> return before it touches any state.
\<close>

section \<open>State\<close>

datatype client_phase =
    Created
  | Waits               \<comment> \<open>in the wait for another task's attempt\<close>
  | Dialing
  | Dial_Failed         \<comment> \<open>\<open>connect\<close> returned false\<close>
  | In_Use              \<comment> \<open>\<open>connect\<close> returned true\<close>
  | Disconnecting       \<comment> \<open>\<open>close\<close> after the stop of the connection\<close>
  | Disconnected

record tcp_client =
  cl_task :: bytes
  cl_node_id :: bytes
  cl_address :: bytes              \<comment> \<open>\<open>ip_\<close> and \<open>port_\<close> as \<open>node_address\<close>\<close>
  cl_cid :: bytes
  cl_conn :: "conn_ptr option"
  connected :: bool
  is_first_connect :: bool
  phase :: client_phase

record client_static =
  c_connections :: "(bytes \<times> conn_ptr) list"
  c_recycle :: "conn_ptr list"
  to_connect :: "bytes set"
  client_task_count :: int
  c_objs :: "conn_ptr \<rightharpoonup> connection"

definition new_client_static :: client_static where
  "new_client_static = \<lparr>c_connections = [], c_recycle = [], to_connect = {}, client_task_count = 0,
     c_objs = Map.empty\<rparr>"

definition node_address :: "bytes \<Rightarrow> int \<Rightarrow> bytes" where
  "node_address ip port = ip @ '':'' @ int_to_string port"

definition new_tcp_client :: "bytes \<Rightarrow> bytes \<Rightarrow> bytes \<Rightarrow> bytes \<Rightarrow> tcp_client" where
  "new_tcp_client task node addr cid = \<lparr>cl_task = task, cl_node_id = node, cl_address = addr, cl_cid = cid,
     cl_conn = None, connected = False, is_first_connect = False, phase = Created\<rparr>"

section \<open>Finding or claiming an address\<close>

definition get_c_obj :: "conn_ptr \<Rightarrow> client_static \<Rightarrow> connection res" where
  "get_c_obj ptr st = (case c_objs st ptr of None \<Rightarrow> Inl Mem_Fault | Some c \<Rightarrow> Inr c)"

text \<open>\<open>conn_->start\<close> of a connection that is used again.\<close>

definition use_connection :: "conn_ptr \<Rightarrow> tcp_client \<Rightarrow> client_static \<Rightarrow> (tcp_client \<times> client_static) res" where
  "use_connection ptr cl st =
    bindE (get_c_obj ptr st) (\<lambda>c.
    bindE (start_lock (cl_task cl) c) (\<lambda>c'.
      Inr (cl\<lparr>cl_conn := Some ptr, connected := True, phase := In_Use\<rparr>,
        st\<lparr>c_objs := (c_objs st)(ptr \<mapsto> c')\<rparr>)))"

text \<open>The first critical section, up to the wait: a connection that may be used again is, one that may not
  is kept aside; an address another task connects to is waited for, else it is claimed.\<close>

definition claim_address :: "tcp_client \<Rightarrow> client_static \<Rightarrow> tcp_client \<times> client_static" where
  "claim_address cl st =
    (if cl_address cl \<in> to_connect st then (cl\<lparr>phase := Waits\<rparr>, st)
     else (cl\<lparr>phase := Dialing\<rparr>, st\<lparr>to_connect := insert (cl_address cl) (to_connect st)\<rparr>))"

definition connect_enter :: "tcp_client \<Rightarrow> client_static \<Rightarrow> (tcp_client \<times> client_static) res" where
  "connect_enter cl st0 =
    (let st = st0\<lparr>client_task_count := client_task_count st0 + 1\<rparr> in
     case std_find (c_connections st) (cl_address cl) of
       None \<Rightarrow> Inr (claim_address cl st)
     | Some ptr \<Rightarrow>
         bindE (get_c_obj ptr st) (\<lambda>c.
         if reuseable c then use_connection ptr cl st
         else Inr (claim_address cl (st\<lparr>c_recycle := c_recycle st @ [ptr],
           c_connections := std_erase (cl_address cl) (c_connections st)\<rparr>))))"

text \<open>The wait in that section ends when the connection is there.\<close>

definition connect_wake :: "tcp_client \<Rightarrow> client_static \<Rightarrow> (tcp_client \<times> client_static) res" where
  "connect_wake cl st =
    (case std_find (c_connections st) (cl_address cl) of
       None \<Rightarrow> Inl Would_Block
     | Some ptr \<Rightarrow> use_connection ptr cl st)"

section \<open>Connecting\<close>

text \<open>The loop around \<open>::connect\<close>: each answer is whether the socket is connected and the time elapsed
  after it. \<open>None\<close>: the script ended before the loop.\<close>

definition NEVER_TIMEOUT :: int where
  "NEVER_TIMEOUT = 1000 * 1000000"

fun dial_loop :: "int \<Rightarrow> int \<Rightarrow> (bool \<times> int) list \<Rightarrow> bool option" where
  "dial_loop timeout elapsed rs =
    (if \<not> (timeout < 0 \<or> elapsed \<le> timeout) \<or> timeout \<le> 0 then Some False
     else case rs of
         [] \<Rightarrow> None
       | (ok, now) # rs' \<Rightarrow> if ok then Some True else dial_loop timeout now rs')"

text \<open>One attempt: the socket, the answers to \<open>::connect\<close>, the results of reading the acknowledgement and
  of writing the greeting, and the handshake.\<close>

record attempt =
  at_fd :: int
  at_dials :: "(bool \<times> int) list"
  at_ack :: int
  at_hello :: int
  at_handshake :: bool

datatype attempt_end =
    No_Link               \<comment> \<open>the socket was closed or could not be made\<close>
  | Handshake_Failed
  | Handshake_Done

definition connect_attempt :: "bytes \<Rightarrow> int \<Rightarrow> attempt \<Rightarrow> attempt_end option" where
  "connect_attempt cid timeout a =
    (if at_fd a < 0 then Some No_Link
     else case dial_loop (if timeout < 0 then NEVER_TIMEOUT else timeout) 0 (at_dials a) of
         None \<Rightarrow> None
       | Some False \<Rightarrow> Some No_Link
       | Some True \<Rightarrow>
           if at_ack a \<noteq> 1 then Some No_Link
           else if at_hello a \<noteq> int (length (hello cid)) then Some No_Link
           else Some (if at_handshake a then Handshake_Done else Handshake_Failed))"

text \<open>All attempts. Before its handshake an attempt makes a connection object, sets \<open>conn_\<close> to it and \<open>connected_\<close> to true,
  and a handshake that fails takes neither back: \<open>Not_Dialled\<close> has the descriptor of the last such object, if any.\<close>

datatype dial_end = Not_Dialled "int option" | Dialled int

fun connect_attempts :: "nat \<Rightarrow> bytes \<Rightarrow> int \<Rightarrow> int option \<Rightarrow> attempt list \<Rightarrow> dial_end option" where
  "connect_attempts 0 cid timeout made as = Some (Not_Dialled made)"
| "connect_attempts (Suc k) cid timeout made [] = None"
| "connect_attempts (Suc k) cid timeout made (a # as) =
     (case connect_attempt cid timeout a of
        None \<Rightarrow> None
      | Some No_Link \<Rightarrow> connect_attempts k cid timeout made as
      | Some Handshake_Failed \<Rightarrow> connect_attempts k cid timeout (Some (at_fd a)) as
      | Some Handshake_Done \<Rightarrow> Some (Dialled (at_fd a)))"

definition retries :: "int \<Rightarrow> nat" where
  "retries conn_retries = (if conn_retries \<le> 0 then 1 else nat conn_retries)"

text \<open>The second critical section and the \<open>start\<close> that follows it.\<close>

definition connect_register :: "conn_ptr \<Rightarrow> int \<Rightarrow> tcp_client \<Rightarrow> client_static \<Rightarrow> (tcp_client \<times> client_static) res" where
  "connect_register ptr sock cl st =
    bindE (start_lock (cl_task cl) (new_connection sock 0 False (cl_node_id cl))) (\<lambda>c.
    Inr (cl\<lparr>cl_conn := Some ptr, connected := True, is_first_connect := True, phase := In_Use\<rparr>,
      st\<lparr>c_objs := (c_objs st)(ptr \<mapsto> c),
        c_connections := std_insert (cl_address cl) ptr (c_connections st),
        to_connect := to_connect st - {cl_address cl}\<rparr>))"

text \<open>\<open>connect\<close> gives up: the object of the last handshake stays with the client and is not entered in \<open>connections_\<close>.\<close>

definition connect_give_up :: "conn_ptr \<Rightarrow> int option \<Rightarrow> tcp_client \<Rightarrow> client_static \<Rightarrow> tcp_client \<times> client_static" where
  "connect_give_up ptr made cl st =
    (case made of
       None \<Rightarrow> (cl\<lparr>phase := Dial_Failed\<rparr>, st)
     | Some sock \<Rightarrow> (cl\<lparr>cl_conn := Some ptr, connected := True, phase := Dial_Failed\<rparr>,
         st\<lparr>c_objs := (c_objs st)(ptr \<mapsto> new_connection sock 0 False (cl_node_id cl))\<rparr>))"

definition connect_dial :: "conn_ptr \<Rightarrow> int \<Rightarrow> int \<Rightarrow> attempt list \<Rightarrow> tcp_client \<Rightarrow> client_static \<Rightarrow>
    (tcp_client \<times> client_static) res option" where
  "connect_dial ptr timeout conn_retries as cl st =
    (case connect_attempts (retries conn_retries) (cl_cid cl) timeout None as of
       None \<Rightarrow> None
     | Some (Not_Dialled made) \<Rightarrow> Some (Inr (connect_give_up ptr made cl st))
     | Some (Dialled sock) \<Rightarrow> Some (connect_register ptr sock cl st))"

section \<open>Closing\<close>

text \<open>\<open>close\<close> stops the connection, then drops the task; the last task, with nothing left unread, closes
  every connection.\<close>

definition client_stop :: "tcp_client \<Rightarrow> client_static \<Rightarrow> (tcp_client \<times> client_static) res" where
  "client_stop cl st =
    (case cl_conn cl of
       None \<Rightarrow> Inl Null_Deref
     | Some ptr \<Rightarrow>
         bindE (get_c_obj ptr st) (\<lambda>c.
         bindE (stop_lock (cl_task cl) (stop_count c)) (\<lambda>c'.
           Inr (cl\<lparr>connected := False, phase := Disconnecting\<rparr>,
             st\<lparr>c_objs := (c_objs st)(ptr \<mapsto> do_stop_erase (cl_task cl) (do_stop_flag (cl_task cl) c'))\<rparr>))))"

fun client_unrecv :: "(bytes \<times> conn_ptr) list \<Rightarrow> client_static \<Rightarrow> u64 \<Rightarrow> u64 res" where
  "client_unrecv [] st ret = Inr ret"
| "client_unrecv ((_, ptr) # cs) st ret =
     bindE (get_c_obj ptr st) (\<lambda>c. client_unrecv cs st (ret + get_unrecv_size c))"

fun close_clients :: "(bytes \<times> conn_ptr) list \<Rightarrow> client_static \<Rightarrow> client_static res" where
  "close_clients [] st = Inr st"
| "close_clients ((_, ptr) # cs) st =
     bindE (get_c_obj ptr st) (\<lambda>c.
     bindE (close_connection c) (\<lambda>(_, _, c').
       close_clients cs (st\<lparr>c_objs := (c_objs st)(ptr \<mapsto> c')\<rparr>)))"

definition client_close :: "client_static \<Rightarrow> client_static res" where
  "client_close st0 =
    (let st = st0\<lparr>client_task_count := client_task_count st0 - 1\<rparr> in
     if client_task_count st = 0 then
       bindE (client_unrecv (c_connections st) st 0) (\<lambda>unread.
       if unread = 0 then
         bindE (close_clients (c_connections st) st) (\<lambda>st'.
           Inr (st'\<lparr>c_connections := [], c_recycle := [], to_connect := {}\<rparr>))
       else Inr st)
     else Inr st)"

text \<open>\<open>close\<close> as a whole.\<close>

definition tcp_client_close :: "tcp_client \<Rightarrow> client_static \<Rightarrow> (tcp_client \<times> client_static) res" where
  "tcp_client_close cl st =
    (if connected cl then
       bindE (client_stop cl st) (\<lambda>(cl', st').
       bindE (client_close st') (\<lambda>st''. Inr (cl'\<lparr>phase := Disconnected\<rparr>, st'')))
     else Inr (cl, st))"

section \<open>The clients of all tasks\<close>

record client_system =
  c_static :: client_static
  clients :: "nat \<Rightarrow> tcp_client option"

definition new_client_system :: client_system where
  "new_client_system = \<lparr>c_static = new_client_static, clients = Map.empty\<rparr>"

abbreviation set_client :: "nat \<Rightarrow> tcp_client \<Rightarrow> client_static \<Rightarrow> client_system \<Rightarrow> client_system" where
  "set_client k cl st s \<equiv> s\<lparr>c_static := st, clients := (clients s)(k \<mapsto> cl)\<rparr>"

text \<open>A new connection object has a pointer no other object has. The threads working on a connection may
  change the object in any way (\<open>Object_Work\<close>), except that no thread works on the object of a client whose \<open>connect\<close>
  failed: it was never started nor added to an epoll set. Such a client can be closed like any other (\<open>~TCPClient\<close> calls
  \<open>close\<close>).\<close>

definition left_over :: "client_system \<Rightarrow> conn_ptr \<Rightarrow> bool" where
  "left_over s ptr \<longleftrightarrow> (\<exists>k cl. clients s k = Some cl \<and> phase cl = Dial_Failed \<and> cl_conn cl = Some ptr)"

inductive client_step :: "client_system \<Rightarrow> client_system \<Rightarrow> bool" where
  Connect: "clients s k = None \<Longrightarrow> gethostip getaddrinfo host = ip \<Longrightarrow> ip \<noteq> [] \<Longrightarrow>
    connect_enter (new_tcp_client task node (node_address ip port) cid) (c_static s) = Inr (cl, st) \<Longrightarrow>
    client_step s (set_client k cl st s)"
| Wake: "clients s k = Some cl \<Longrightarrow> phase cl = Waits \<Longrightarrow> connect_wake cl (c_static s) = Inr (cl', st) \<Longrightarrow>
    client_step s (set_client k cl' st s)"
| Dial: "clients s k = Some cl \<Longrightarrow> phase cl = Dialing \<Longrightarrow> c_objs (c_static s) ptr = None \<Longrightarrow>
    connect_dial ptr timeout conn_retries as cl (c_static s) = Some (Inr (cl', st)) \<Longrightarrow>
    client_step s (set_client k cl' st s)"
| Client_Stop: "clients s k = Some cl \<Longrightarrow> phase cl = In_Use \<or> phase cl = Dial_Failed \<Longrightarrow> connected cl \<Longrightarrow>
    client_stop cl (c_static s) = Inr (cl', st) \<Longrightarrow> client_step s (set_client k cl' st s)"
| Client_Close: "clients s k = Some cl \<Longrightarrow> phase cl = Disconnecting \<Longrightarrow> client_close (c_static s) = Inr st \<Longrightarrow>
    client_step s (set_client k (cl\<lparr>phase := Disconnected\<rparr>) st s)"
| Object_Work: "c_objs (c_static s) ptr = Some c \<Longrightarrow> \<not> left_over s ptr \<Longrightarrow>
    client_step s (s\<lparr>c_static := (c_static s)\<lparr>c_objs := (c_objs (c_static s))(ptr \<mapsto> c')\<rparr>\<rparr>)"

inductive_cases client_stepE: "client_step s s'"

section \<open>What the operations leave alone\<close>

definition same_book :: "client_static \<Rightarrow> client_static \<Rightarrow> bool" where
  "same_book st st' \<longleftrightarrow> c_connections st' = c_connections st \<and> to_connect st' = to_connect st \<and>
     client_task_count st' = client_task_count st"

lemma same_book_refl [simp]: "same_book st st" "same_book st (st\<lparr>c_objs := m\<rparr>)"
  by (simp_all add: same_book_def)

lemma use_connection_Inr:
  "use_connection ptr cl st = Inr (cl', st') \<Longrightarrow> same_book st st' \<and> cl_address cl' = cl_address cl \<and> phase cl' = In_Use"
  by (auto simp: use_connection_def bindE_eq_Inr)

lemma client_stop_Inr:
  "client_stop cl st = Inr (cl', st') \<Longrightarrow> same_book st st' \<and> cl_address cl' = cl_address cl \<and> phase cl' = Disconnecting"
  by (auto simp: client_stop_def bindE_eq_Inr split: option.splits)

lemma connect_wake_Inr:
  "connect_wake cl st = Inr (cl', st') \<Longrightarrow> same_book st st' \<and> cl_address cl' = cl_address cl \<and> phase cl' = In_Use"
  by (auto simp: connect_wake_def use_connection_Inr split: option.splits)

lemma close_clients_same: "close_clients cs st = Inr st' \<Longrightarrow> same_book st st'"
proof (induction cs st rule: close_clients.induct)
  case (2 node ptr cs st)
  then show ?case by (auto simp: bindE_eq_Inr same_book_def)
qed simp

text \<open>A client enters by using a connection, or by waiting for or claiming an address that has none.\<close>

lemma claim_address_cases:
  assumes "claim_address cl st = (cl', st')"
  shows "cl_address cl' = cl_address cl" "client_task_count st' = client_task_count st"
    "c_connections st' = c_connections st"
    "phase cl' = Waits \<and> cl_address cl \<in> to_connect st \<and> to_connect st' = to_connect st \<or>
     phase cl' = Dialing \<and> cl_address cl \<notin> to_connect st \<and> to_connect st' = insert (cl_address cl) (to_connect st)"
  using assms by (auto simp: claim_address_def split: if_splits)

lemma connect_enter_cases:
  assumes enter: "connect_enter cl st = Inr (cl', st')" and sorted: "sorted_map (c_connections st)"
  obtains (used) "cl_address cl' = cl_address cl" "client_task_count st' = client_task_count st + 1"
      "phase cl' = In_Use" "c_connections st' = c_connections st" "to_connect st' = to_connect st"
    | (claimed) st1 where "claim_address cl st1 = (cl', st')" "client_task_count st1 = client_task_count st + 1"
      "to_connect st1 = to_connect st" "sorted_map (c_connections st1)"
      "std_find (c_connections st1) = (std_find (c_connections st))(cl_address cl := None)"
proof (cases "std_find (c_connections st) (cl_address cl)")
  case None
  let ?st = "st\<lparr>client_task_count := client_task_count st + 1\<rparr>"
  have "claim_address cl ?st = (cl', st')" using None enter by (simp add: connect_enter_def)
  then show thesis using None sorted by (intro claimed [of ?st]) (simp_all add: fun_upd_idem)
next
  case (Some ptr)
  let ?st = "st\<lparr>client_task_count := client_task_count st + 1\<rparr>"
  let ?st1 = "?st\<lparr>c_recycle := c_recycle ?st @ [ptr],
    c_connections := std_erase (cl_address cl) (c_connections ?st)\<rparr>"
  obtain c where "get_c_obj ptr ?st = Inr c"
    "(if reuseable c then use_connection ptr cl ?st else Inr (claim_address cl ?st1)) = Inr (cl', st')"
    using enter Some by (auto simp: connect_enter_def Let_def bindE_eq_Inr)
  then consider "use_connection ptr cl ?st = Inr (cl', st')" | "claim_address cl ?st1 = (cl', st')"
    by (cases "reuseable c") auto
  then show thesis
  proof cases
    case 1
    from use_connection_Inr [OF this] show thesis by (intro used) (simp_all add: same_book_def)
  next
    case 2
    then show thesis using sorted by (intro claimed [of ?st1]) (simp_all add: std.find_erase std.valid_erase)
  qed
qed

lemma connect_dial_cases:
  assumes "connect_dial ptr timeout n as cl st = Some (Inr (cl', st'))"
  shows "cl_address cl' = cl_address cl \<and> (phase cl' = Dial_Failed \<and> same_book st st' \<or>
    phase cl' = In_Use \<and> client_task_count st' = client_task_count st \<and>
    c_connections st' = std_insert (cl_address cl) ptr (c_connections st) \<and>
    to_connect st' = to_connect st - {cl_address cl})"
  using assms by (auto simp: connect_dial_def connect_register_def connect_give_up_def bindE_eq_Inr
      split: option.splits dial_end.splits)

lemma client_close_cases:
  assumes "client_close st = Inr st'"
  shows "client_task_count st' = client_task_count st - 1"
    and "client_task_count st - 1 = 0 \<and> c_connections st' = [] \<and> to_connect st' = {} \<or>
      c_connections st' = c_connections st \<and> to_connect st' = to_connect st"
proof -
  have same: "client_task_count st2 = n"
    if "close_clients cs (st\<lparr>client_task_count := n\<rparr>) = Inr st2" for cs st2 n
    using close_clients_same [OF that] by (simp add: same_book_def)
  show "client_task_count st' = client_task_count st - 1"
    "client_task_count st - 1 = 0 \<and> c_connections st' = [] \<and> to_connect st' = {} \<or>
      c_connections st' = c_connections st \<and> to_connect st' = to_connect st"
    using assms by (auto simp: client_close_def Let_def bindE_eq_Inr split: if_splits dest!: same)
qed

section \<open>Invariant of the clients\<close>

definition counted :: "client_system \<Rightarrow> nat set" where
  "counted s = {k. \<exists>cl. clients s k = Some cl \<and> phase cl \<noteq> Disconnected}"

text \<open>The clients that have claimed their address: they are connecting, or gave up.\<close>

abbreviation holder :: "tcp_client \<Rightarrow> bool" where
  "holder cl \<equiv> phase cl = Dialing \<or> phase cl = Dial_Failed"

definition clients_ok :: "client_system \<Rightarrow> bool" where
  "clients_ok s \<longleftrightarrow> sorted_map (c_connections (c_static s)) \<and> finite (counted s) \<and>
     client_task_count (c_static s) = int (card (counted s)) \<and>
     (\<forall>a \<in> to_connect (c_static s). std_find (c_connections (c_static s)) a = None) \<and>
     (\<forall>k cl. clients s k = Some cl \<and> holder cl \<longrightarrow> cl_address cl \<in> to_connect (c_static s)) \<and>
     (\<forall>j k cl cl'. clients s j = Some cl \<and> clients s k = Some cl' \<and> holder cl \<and> holder cl' \<and>
        cl_address cl = cl_address cl' \<longrightarrow> j = k)"

lemma clients_ok_new: "clients_ok new_client_system"
  by (simp add: clients_ok_def new_client_system_def new_client_static_def counted_def)

lemma clients_okD:
  assumes "clients_ok s"
  shows "sorted_map (c_connections (c_static s))" "finite (counted s)"
    "client_task_count (c_static s) = int (card (counted s))"
    "a \<in> to_connect (c_static s) \<Longrightarrow> std_find (c_connections (c_static s)) a = None"
    "clients s k = Some cl \<Longrightarrow> holder cl \<Longrightarrow> cl_address cl \<in> to_connect (c_static s)"
    "clients s j = Some cl \<Longrightarrow> clients s k = Some cl' \<Longrightarrow> holder cl \<Longrightarrow> holder cl' \<Longrightarrow>
       cl_address cl = cl_address cl' \<Longrightarrow> j = k"
  using assms unfolding clients_ok_def by blast+

lemma counted_upd:
  "counted (set_client k cl st s) = (if phase cl = Disconnected then counted s - {k} else insert k (counted s))"
  by (auto simp: counted_def)

text \<open>A step of a client that is not left holding its address.\<close>

lemma clients_ok_local:
  assumes ok: "clients_ok s" and "same_book (c_static s) st" and k: "clients s k = Some cl" "phase cl \<noteq> Disconnected"
    and "\<not> holder cl'" and "phase cl' \<noteq> Disconnected"
  shows "clients_ok (set_client k cl' st s)"
proof -
  have "counted (set_client k cl' st s) = counted s"
    using k assms(6) by (auto simp: counted_def)
  then show ?thesis
    using ok assms(2,5) unfolding clients_ok_def same_book_def by (auto split: if_splits)
qed

lemma clients_okI:
  assumes "sorted_map (c_connections (c_static s))" "finite (counted s)"
    "client_task_count (c_static s) = int (card (counted s))"
    "\<And>a. a \<in> to_connect (c_static s) \<Longrightarrow> std_find (c_connections (c_static s)) a = None"
    "\<And>k cl. clients s k = Some cl \<Longrightarrow> holder cl \<Longrightarrow> cl_address cl \<in> to_connect (c_static s)"
    "\<And>j k cl cl'. clients s j = Some cl \<Longrightarrow> clients s k = Some cl' \<Longrightarrow> holder cl \<Longrightarrow> holder cl' \<Longrightarrow>
       cl_address cl = cl_address cl' \<Longrightarrow> j = k"
  shows "clients_ok s"
  using assms unfolding clients_ok_def by (intro conjI) blast+

lemma counted_new: "clients s k = None \<Longrightarrow> finite (counted s) \<Longrightarrow> phase cl \<noteq> Disconnected \<Longrightarrow>
  finite (counted (set_client k cl st s)) \<and> card (counted (set_client k cl st s)) = Suc (card (counted s))"
  by (simp add: counted_upd) (simp add: counted_def)

lemma clients_ok_enter:
  assumes ok: "clients_ok s" and k: "clients s k = None"
    and enter: "connect_enter cl0 (c_static s) = Inr (cl, st)"
  shows "clients_ok (set_client k cl st s)" (is "clients_ok ?s")
proof -
  note ok' = clients_okD [OF ok]
  from enter ok'(1) show ?thesis
  proof (cases rule: connect_enter_cases)
    case used
    then show ?thesis using ok' counted_new [OF k ok'(2), of cl st]
      by (intro clients_okI) (auto split: if_splits)
  next
    case (claimed st1)
    note c = claim_address_cases [OF claimed(1)]
    have sub: "to_connect (c_static s) \<subseteq> to_connect st" using c(4) claimed(3) by auto
    have mine: "cl_address cl \<in> to_connect st" "clients s j = Some cl2 \<Longrightarrow> holder cl2 \<Longrightarrow> cl_address cl2 \<noteq> cl_address cl"
      if "holder cl" for j cl2
      using that c(1,4) claimed(3) ok'(5) [of j cl2] by auto
    have free: "std_find (c_connections st) a = None" if "a \<in> to_connect st" for a
      using that c(3,4) claimed(3,5) ok'(4) by auto
    have n: "finite (counted ?s)" "card (counted ?s) = Suc (card (counted s))"
      using counted_new [OF k ok'(2), of cl st] c(4) by auto
    show ?thesis
    proof (rule clients_okI)
      fix j cl2 assume "clients ?s j = Some cl2" "holder cl2"
      then show "cl_address cl2 \<in> to_connect (c_static ?s)"
        using mine(1) ok'(5) [of j cl2] sub by (cases "j = k") auto
    next
      fix i j cl1 cl2
      assume "clients ?s i = Some cl1" "clients ?s j = Some cl2" "holder cl1" "holder cl2"
        "cl_address cl1 = cl_address cl2"
      then show "i = j"
        using mine(2) [of i cl1] mine(2) [of j cl2] ok'(6) [of i cl1 j cl2]
        by (cases "i = k"; cases "j = k") auto
    qed (use c(2,3) claimed(2,4) ok'(3) n free in simp_all)
  qed
qed

lemma clients_ok_dial:
  assumes ok: "clients_ok s" and k: "clients s k = Some cl" "phase cl = Dialing"
    and dial: "connect_dial ptr timeout n as cl (c_static s) = Some (Inr (cl', st))"
  shows "clients_ok (set_client k cl' st s)" (is "clients_ok ?s")
proof -
  note ok' = clients_okD [OF ok]
  have addr: "cl_address cl' = cl_address cl" using connect_dial_cases [OF dial] by (rule conjunct1)
  have other: "cl_address cl2 \<noteq> cl_address cl" if "clients s j = Some cl2" "holder cl2" "j \<noteq> k" for j cl2
    using ok'(6) [OF that(1) k(1) that(2) disjI1 [OF k(2)]] that(3) by blast
  have mine: "cl_address cl \<in> to_connect (c_static s)" using ok'(5) [OF k(1) disjI1 [OF k(2)]] .
  have unique: "i = j" if "clients ?s i = Some cl1" "clients ?s j = Some cl2" "holder cl1" "holder cl2"
    "cl_address cl1 = cl_address cl2" for i j cl1 cl2
    using that addr other [of i cl1] other [of j cl2] ok'(6) [of i cl1 j cl2]
    by (cases "i = k"; cases "j = k") simp_all
  have "k \<in> counted s" using k by (simp add: counted_def)
  then have count: "counted ?s = counted s" if "phase cl' \<noteq> Disconnected"
    using that by (simp only: counted_upd if_False insert_absorb)
  from connect_dial_cases [OF dial, THEN conjunct2] show ?thesis
  proof (elim disjE conjE)
    assume c: "phase cl' = Dial_Failed" "same_book (c_static s) st"
    show ?thesis
    proof (rule clients_okI)
      fix j cl2 assume "clients ?s j = Some cl2" "holder cl2"
      then show "cl_address cl2 \<in> to_connect (c_static ?s)"
        using c(2) addr mine ok'(5) [of j cl2] by (cases "j = k") (simp_all add: same_book_def)
    next
      fix i j cl1 cl2
      show "clients ?s i = Some cl1 \<Longrightarrow> clients ?s j = Some cl2 \<Longrightarrow> holder cl1 \<Longrightarrow> holder cl2 \<Longrightarrow>
        cl_address cl1 = cl_address cl2 \<Longrightarrow> i = j" by (rule unique)
    qed (use ok'(1-4) count c in \<open>simp_all add: same_book_def\<close>)
  next
    assume c: "phase cl' = In_Use" "client_task_count st = client_task_count (c_static s)"
      "c_connections st = std_insert (cl_address cl) ptr (c_connections (c_static s))"
      "to_connect st = to_connect (c_static s) - {cl_address cl}"
    show ?thesis
    proof (rule clients_okI)
      fix j cl2 assume "clients ?s j = Some cl2" "holder cl2"
      then show "cl_address cl2 \<in> to_connect (c_static ?s)"
        using c(1,4) ok'(5) [of j cl2] other [of j cl2] by (cases "j = k") simp_all
    next
      fix a assume "a \<in> to_connect (c_static ?s)"
      then show "std_find (c_connections (c_static ?s)) a = None"
        using c(3,4) ok'(1) ok'(4) [of a] by (simp add: std.find_insert)
    next
      fix i j cl1 cl2
      show "clients ?s i = Some cl1 \<Longrightarrow> clients ?s j = Some cl2 \<Longrightarrow> holder cl1 \<Longrightarrow> holder cl2 \<Longrightarrow>
        cl_address cl1 = cl_address cl2 \<Longrightarrow> i = j" by (rule unique)
    qed (use ok'(1-3) count c(1-3) in \<open>simp_all add: std.valid_insert\<close>)
  qed
qed

lemma clients_ok_close:
  assumes ok: "clients_ok s" and k: "clients s k = Some cl" "phase cl = Disconnecting"
    and close: "client_close (c_static s) = Inr st"
  shows "clients_ok (set_client k (cl\<lparr>phase := Disconnected\<rparr>) st s)" (is "clients_ok ?s")
proof -
  note ok' = clients_okD [OF ok]
  note c = client_close_cases [OF close]
  have k': "k \<in> counted s" using k by (simp add: counted_def)
  have count: "counted ?s = counted s - {k}" by (simp add: counted_upd)
  have card: "card (counted s) = Suc (card (counted s - {k}))"
    using card_Suc_Diff1 [OF ok'(2) k'] by simp
  have alone: "\<not> holder cl2" if "client_task_count (c_static s) - 1 = 0" "clients s j = Some cl2" "j \<noteq> k" for j cl2
  proof -
    have "counted s - {k} = {}" using that(1) ok'(2,3) card by simp
    then have "j \<notin> counted s" using that(3) by auto
    then show ?thesis using that(2) by (auto simp: counted_def)
  qed
  show ?thesis
  proof (rule clients_okI)
    fix j cl2 assume j: "clients ?s j = Some cl2" "holder cl2"
    then have "j \<noteq> k" by auto
    with j show "cl_address cl2 \<in> to_connect (c_static ?s)"
      using c(2) alone [of j cl2] ok'(5) [of j cl2] by auto
  next
    fix i j cl1 cl2
    assume "clients ?s i = Some cl1" "clients ?s j = Some cl2" "holder cl1" "holder cl2"
      "cl_address cl1 = cl_address cl2"
    then show "i = j" using ok'(6) [of i cl1 j cl2] by (auto split: if_splits)
  qed (use c ok'(1-4) count card in auto)
qed

text \<open>The object of a failed handshake has no message and never gets one, so that a stop on it blocks.\<close>

definition silent :: "conn_ptr \<Rightarrow> client_static \<Rightarrow> bool" where
  "silent ptr st \<longleftrightarrow> (\<exists>c. c_objs st ptr = Some c \<and> mapbuffer c = [])"

definition left_overs_silent :: "client_system \<Rightarrow> bool" where
  "left_overs_silent s \<longleftrightarrow> (\<forall>k cl. clients s k = Some cl \<and> phase cl = Dial_Failed \<and> connected cl \<longrightarrow>
     (\<exists>ptr. cl_conn cl = Some ptr \<and> silent ptr (c_static s)))"

lemma silent_stop: "mapbuffer c = [] \<Longrightarrow> stop_lock task (stop_count c) = Inl Would_Block"
  by (simp add: stop_lock_def stop_count_def conn_recv_def)

lemma silent_client_stop:
  "cl_conn cl = Some ptr \<Longrightarrow> silent ptr st \<Longrightarrow> client_stop cl st = Inl Would_Block"
  by (auto simp: silent_def client_stop_def get_c_obj_def silent_stop)

lemma silent_use: "use_connection p cl st = Inr (cl', st') \<Longrightarrow> silent ptr st \<Longrightarrow> silent ptr st'"
  by (auto simp: use_connection_def get_c_obj_def bindE_eq_Inr silent_def start_lock_def send_msg_def
      put_into_send_buffer_def Let_def split: option.splits if_splits)

lemma silent_enter:
  assumes "connect_enter cl st = Inr (cl', st')" and "silent ptr st"
  shows "silent ptr st'"
proof -
  have claim: "silent ptr st2" if "claim_address cl st1 = (cl2, st2)" "c_objs st1 = c_objs st" for st1 cl2 st2
    using that assms(2) by (auto simp: claim_address_def silent_def split: if_splits)
  have count: "silent ptr (st\<lparr>client_task_count := client_task_count st + 1\<rparr>)" using assms(2) by (simp add: silent_def)
  show ?thesis
    using assms(1) silent_use [OF _ count] claim
    by (auto simp: connect_enter_def Let_def bindE_eq_Inr split: option.splits if_splits)
qed

lemma silent_dial:
  assumes "connect_dial p timeout n as cl st = Some (Inr (cl', st'))" and "c_objs st p = None" and "silent ptr st"
  shows "silent ptr st'"
  using assms by (auto simp: connect_dial_def connect_register_def connect_give_up_def bindE_eq_Inr silent_def
      split: option.splits dial_end.splits)

lemma dial_left_over:
  assumes "connect_dial p timeout n as cl st = Some (Inr (cl', st'))" and "phase cl' = Dial_Failed" and "\<not> connected cl"
    and "connected cl'"
  shows "cl_conn cl' = Some p \<and> silent p st'"
  using assms by (auto simp: connect_dial_def connect_register_def connect_give_up_def bindE_eq_Inr silent_def
      new_connection_def split: option.splits dial_end.splits)

lemma silent_client_stop_other:
  assumes "client_stop cl st = Inr (cl', st')" and "silent ptr st"
  shows "silent ptr st'"
proof -
  have "cl_conn cl \<noteq> Some ptr" using silent_client_stop [OF _ assms(2), of cl] assms(1) by auto
  with assms show ?thesis by (auto simp: client_stop_def bindE_eq_Inr silent_def split: option.splits)
qed

lemma silent_close_clients: "close_clients cs st = Inr st' \<Longrightarrow> silent ptr st \<Longrightarrow> silent ptr st'"
proof (induction cs st rule: close_clients.induct)
  case (2 node p cs st)
  then obtain c data b c' where c: "c_objs st p = Some c" "close_connection c = Inr (data, b, c')"
    "close_clients cs (st\<lparr>c_objs := (c_objs st)(p \<mapsto> c')\<rparr>) = Inr st'"
    by (auto simp: bindE_eq_Inr get_c_obj_def split: option.splits)
  have "mapbuffer c' = mapbuffer c"
    using c(2) by (auto simp: close_connection_def flush_send_buffer_def bindE_eq_Inr split: if_splits)
  then have "silent ptr (st\<lparr>c_objs := (c_objs st)(p \<mapsto> c')\<rparr>)" using 2(3) c(1) by (auto simp: silent_def)
  with 2(1) c show ?case by (auto simp: get_c_obj_def)
qed simp

lemma silent_client_close:
  assumes "client_close st = Inr st'" and "silent ptr st"
  shows "silent ptr st'"
proof -
  have count: "silent ptr (st\<lparr>client_task_count := client_task_count st - 1\<rparr>)" using assms(2) by (simp add: silent_def)
  show ?thesis using assms(1) count silent_close_clients [OF _ count]
    by (auto simp: client_close_def Let_def bindE_eq_Inr silent_def split: if_splits)
qed

definition never_connected :: "client_system \<Rightarrow> bool" where
  "never_connected s \<longleftrightarrow> (\<forall>k cl. clients s k = Some cl \<and> phase cl \<in> {Waits, Dialing} \<longrightarrow> \<not> connected cl)"

definition client_inv :: "client_system \<Rightarrow> bool" where
  "client_inv s \<longleftrightarrow> clients_ok s \<and> left_overs_silent s \<and> never_connected s"

lemma clients_ok_step: "client_step s s' \<Longrightarrow> clients_ok s \<Longrightarrow> clients_ok s'"
proof (induction rule: client_step.induct)
  case (Wake s k cl cl' st)
  then show ?case using connect_wake_Inr [OF Wake(3)] by (intro clients_ok_local) auto
next
  case (Client_Stop s k cl cl' st)
  then show ?case using client_stop_Inr [OF Client_Stop(4)] by (intro clients_ok_local) auto
next
  case (Object_Work s ptr c c')
  note ok' = clients_okD [OF Object_Work(3)]
  show ?case
    by (rule clients_okI) (use ok'(1-4) ok'(5,6) [simplified] in \<open>auto simp: counted_def\<close>)
qed (blast intro: clients_ok_enter clients_ok_dial clients_ok_close)+

lemma left_overs_upd:
  assumes "left_overs_silent s" and "\<And>ptr. silent ptr (c_static s) \<Longrightarrow> silent ptr st"
    and "phase cl' = Dial_Failed \<Longrightarrow> connected cl' \<Longrightarrow> \<exists>ptr. cl_conn cl' = Some ptr \<and> silent ptr st"
  shows "left_overs_silent (set_client k cl' st s)"
  using assms unfolding left_overs_silent_def by (simp split: if_splits) blast

lemma never_connected_upd:
  "never_connected s \<Longrightarrow> (phase cl' \<in> {Waits, Dialing} \<Longrightarrow> \<not> connected cl') \<Longrightarrow> never_connected (set_client k cl' st s)"
  unfolding never_connected_def by (auto split: if_splits)

lemma connect_enter_fresh:
  assumes "connect_enter cl st = Inr (cl', st')" and "\<not> connected cl"
  shows "phase cl' \<noteq> Dial_Failed \<and> (phase cl' \<in> {Waits, Dialing} \<longrightarrow> \<not> connected cl')"
proof -
  have "phase cl2 = In_Use" if "use_connection p cl st1 = Inr (cl2, st2)" for p st1 cl2 st2
    using use_connection_Inr [OF that] by simp
  moreover have "phase cl2 \<in> {Waits, Dialing} \<and> \<not> connected cl2" if "claim_address cl st1 = (cl2, st2)" for st1 cl2 st2
    using that assms(2) by (auto simp: claim_address_def split: if_splits)
  ultimately show ?thesis using assms(1)
    by (fastforce simp: connect_enter_def Let_def bindE_eq_Inr split: option.splits if_splits)
qed

lemma client_inv_step:
  assumes "client_step s s'" and "client_inv s"
  shows "client_inv s'"
proof -
  have inv: "left_overs_silent s" "never_connected s" using assms(2) by (simp_all add: client_inv_def)
  from assms(1) have "left_overs_silent s' \<and> never_connected s'"
  proof cases
    case (Connect k g host ip task node port cid cl st)
    have "\<not> connected (new_tcp_client task node (node_address ip port) cid)" by (simp add: new_tcp_client_def)
    note f = connect_enter_fresh [OF Connect(5) this]
    show ?thesis unfolding Connect(1)
      by (intro conjI left_overs_upd [OF inv(1)] never_connected_upd [OF inv(2)]) (use f silent_enter [OF Connect(5)] in auto)
  next
    case (Wake k cl cl' st)
    obtain p where u: "use_connection p cl (c_static s) = Inr (cl', st)"
      using Wake(4) by (auto simp: connect_wake_def split: option.splits)
    then show ?thesis unfolding Wake(1)
      by (intro conjI left_overs_upd [OF inv(1)] never_connected_upd [OF inv(2)])
        (use silent_use [OF u] use_connection_Inr [OF u] in auto)
  next
    case (Dial k cl ptr timeout n as cl' st)
    have new: "\<not> connected cl" using inv(2) Dial(2,3) by (auto simp: never_connected_def)
    have "phase cl' = Dial_Failed \<or> phase cl' = In_Use" using connect_dial_cases [OF Dial(5)] by blast
    then show ?thesis unfolding Dial(1)
      by (intro conjI left_overs_upd [OF inv(1)] never_connected_upd [OF inv(2)])
        (use silent_dial [OF Dial(5,4)] dial_left_over [OF Dial(5) _ new] in auto)
  next
    case (Client_Stop k cl cl' st)
    show ?thesis unfolding Client_Stop(1)
      by (intro conjI left_overs_upd [OF inv(1)] never_connected_upd [OF inv(2)])
        (use silent_client_stop_other [OF Client_Stop(5)] client_stop_Inr [OF Client_Stop(5)] in auto)
  next
    case (Client_Close k cl st)
    show ?thesis unfolding Client_Close(1)
      by (intro conjI left_overs_upd [OF inv(1)] never_connected_upd [OF inv(2)])
        (use silent_client_close [OF Client_Close(4)] in auto)
  next
    case (Object_Work ptr c c')
    have "silent p (c_static s')" if "silent p (c_static s)" "left_over s p" for p
      using that Object_Work(1,3) by (auto simp: silent_def)
    then show ?thesis using inv Object_Work(1)
      unfolding left_overs_silent_def never_connected_def left_over_def by simp blast
  qed
  with assms clients_ok_step show ?thesis by (simp add: client_inv_def)
qed

lemma client_inv_reach: "client_step\<^sup>*\<^sup>* new_client_system s \<Longrightarrow> client_inv s"
proof (induction rule: rtranclp_induct)
  case base
  show ?case using clients_ok_new
    by (simp add: client_inv_def left_overs_silent_def never_connected_def new_client_system_def)
qed (rule client_inv_step)

lemma clients_ok_reach: "client_step\<^sup>*\<^sup>* new_client_system s \<Longrightarrow> clients_ok s"
  using client_inv_reach by (simp add: client_inv_def)

text \<open>A client that could not complete its handshake cannot be closed.\<close>

lemma left_over_close:
  assumes "client_inv s" and "clients s k = Some cl" and "phase cl = Dial_Failed" and "connected cl"
  shows "client_stop cl (c_static s) = Inl Would_Block" "tcp_client_close cl (c_static s) = Inl Would_Block"
proof -
  show "client_stop cl (c_static s) = Inl Would_Block"
    using assms silent_client_stop by (fastforce simp: client_inv_def left_overs_silent_def)
  then show "tcp_client_close cl (c_static s) = Inl Would_Block" using assms(4) by (simp add: tcp_client_close_def bindE_def)
qed

lemma dial_failed_stays:
  assumes "client_step s s'" and "client_inv s" and "clients s k = Some cl" and "phase cl = Dial_Failed"
  shows "clients s' k = Some cl"
  using assms(1)
proof cases
  case (Client_Stop j cl1 cl' st)
  have "j \<noteq> k"
    by (rule notI) (use Client_Stop left_over_close(1) [OF assms(2-4)] assms(3) in simp)
  then show ?thesis using Client_Stop(1) assms(3) by simp
qed (use assms(3,4) in auto)

text \<open>An address whose claim was given up without a connection: the clients in \<open>K\<close> are all there is, and
  every later one for the address waits.\<close>

definition given_up :: "bytes \<Rightarrow> nat set \<Rightarrow> (nat \<Rightarrow> tcp_client option) \<Rightarrow> bool" where
  "given_up a K cs \<longleftrightarrow>
     (\<exists>k \<in> K. \<exists>cl. cs k = Some cl \<and> cl_address cl = a \<and> phase cl = Dial_Failed) \<and>
     (\<forall>j cl. cs j = Some cl \<longrightarrow> cl_address cl = a \<longrightarrow> j \<notin> K \<longrightarrow> phase cl = Waits) \<and>
     (\<forall>j \<in> K. cs j \<noteq> None)"

lemma given_upE:
  assumes "given_up a K cs"
  obtains k cl where "k \<in> K" "cs k = Some cl" "cl_address cl = a" "phase cl = Dial_Failed"
  using assms unfolding given_up_def by blast

lemma given_upD: "given_up a K cs \<Longrightarrow> cs j = Some cl \<Longrightarrow> cl_address cl = a \<Longrightarrow> phase cl \<noteq> Waits \<Longrightarrow> j \<in> K"
  unfolding given_up_def by blast

lemma given_up_upd:
  assumes up: "given_up a K cs" and k: "cs k = Some cl" "cl_address cl' = cl_address cl"
    and "cl_address cl = a \<Longrightarrow> phase cl \<noteq> Dial_Failed \<and> phase cl \<noteq> Waits"
  shows "given_up a K (cs(k \<mapsto> cl'))"
proof -
  obtain k0 cl0 where k0: "k0 \<in> K" "cs k0 = Some cl0" "cl_address cl0 = a" "phase cl0 = Dial_Failed"
    using up by (rule given_upE)
  have "k0 \<noteq> k" using k0 assms(2,4) by auto
  moreover have "cl_address cl = a \<Longrightarrow> k \<in> K" using given_upD [OF up k(1)] assms(4) by blast
  ultimately show ?thesis using up k k0 unfolding given_up_def by auto
qed

lemma given_up_new:
  assumes up: "given_up a K cs" and k: "cs k = None" and "cl_address cl = a \<Longrightarrow> phase cl = Waits"
  shows "given_up a K (cs(k \<mapsto> cl))"
proof -
  have "k \<notin> K" using up k unfolding given_up_def by blast
  then show ?thesis using up assms(3) unfolding given_up_def by (intro conjI) (auto, metis+)
qed

lemma given_up_address:
  assumes "clients_ok s" and "given_up a K (clients s)"
  shows "a \<in> to_connect (c_static s)" "std_find (c_connections (c_static s)) a = None"
proof -
  obtain k cl where "clients s k = Some cl" "cl_address cl = a" "phase cl = Dial_Failed"
    using assms(2) by (rule given_upE)
  then show "a \<in> to_connect (c_static s)" using clients_okD(5) [OF assms(1)] by auto
  then show "std_find (c_connections (c_static s)) a = None" using clients_okD(4) [OF assms(1)] by auto
qed

lemma given_up_enter:
  assumes ok: "clients_ok s" and up: "given_up (cl_address cl) K (clients s)"
    and enter: "connect_enter cl (c_static s) = Inr (cl', st)"
  shows "phase cl' = Waits"
  using enter given_up_address [OF ok up] by (auto simp: connect_enter_def Let_def claim_address_def)

lemma given_up_step:
  assumes inv: "client_inv s" and up: "given_up a K (clients s)" and step: "client_step s s'"
  shows "given_up a K (clients s')"
proof -
  have ok: "clients_ok s" using inv by (simp add: client_inv_def)
  show ?thesis using step
proof (cases rule: client_step.cases)
  case (Connect k getaddrinfo host ip task node p cid cl st)
  have "phase cl = Waits" if a: "cl_address cl = a"
  proof -
    have "cl_address cl = cl_address (new_tcp_client task node (node_address ip p) cid)"
      using Connect(5) clients_okD(1) [OF ok]
      by (cases rule: connect_enter_cases) (simp_all add: claim_address_cases)
    then show ?thesis using given_up_enter [OF ok _ Connect(5)] up a by simp
  qed
  then show ?thesis using given_up_new [OF up Connect(2)] Connect(1) by simp
next
  case (Wake k cl cl' st)
  then have "cl_address cl \<noteq> a" using given_up_address [OF ok up] by (auto simp: connect_wake_def)
  then show ?thesis using Wake connect_wake_Inr [OF Wake(4)] given_up_upd [OF up Wake(2)] by simp
next
  case (Dial k cl ptr timeout n as cl' st)
  then show ?thesis using connect_dial_cases [OF Dial(5)] given_up_upd [OF up Dial(2)] by auto
next
  case (Client_Stop k cl cl' st)
  have "phase cl = In_Use"
    using Client_Stop(3) left_over_close(1) [OF inv Client_Stop(2) _ Client_Stop(4)] Client_Stop(5) by auto
  then show ?thesis using client_stop_Inr [OF Client_Stop(5)] given_up_upd [OF up Client_Stop(2)] Client_Stop(1) by simp
next
  case (Client_Close k cl st)
  then show ?thesis using given_up_upd [OF up Client_Close(2), of "cl\<lparr>phase := Disconnected\<rparr>"] by simp
qed (use up in simp)
qed

lemma given_up_steps:
  "client_step\<^sup>*\<^sup>* s s' \<Longrightarrow> client_inv s \<Longrightarrow> given_up a K (clients s) \<Longrightarrow> client_inv s' \<and> given_up a K (clients s')"
  by (induction rule: rtranclp_induct) (auto intro: given_up_step client_inv_step)

lemma tcp_client_close_steps:
  assumes "tcp_client_close cl (c_static s) = Inr (cl', st')" and "clients s k = Some cl"
    and "connected cl" and "phase cl = In_Use"
  shows "client_step\<^sup>*\<^sup>* s (set_client k cl' st' s)"
proof -
  obtain cl1 st1 where parts: "client_stop cl (c_static s) = Inr (cl1, st1)" "client_close st1 = Inr st'"
    "cl' = cl1\<lparr>phase := Disconnected\<rparr>"
    using assms(1,3) by (auto simp: tcp_client_close_def bindE_eq_Inr)
  let ?s1 = "set_client k cl1 st1 s"
  have "client_step s ?s1" using assms(2-4) parts(1) by (intro Client_Stop) auto
  moreover have "client_step ?s1 (set_client k (cl1\<lparr>phase := Disconnected\<rparr>) st' ?s1)"
    by (rule Client_Close) (use parts client_stop_Inr [OF parts(1)] in simp_all)
  ultimately have "client_step\<^sup>*\<^sup>* s (set_client k (cl1\<lparr>phase := Disconnected\<rparr>) st' ?s1)" by auto
  then show ?thesis using parts(3) by simp
qed

section \<open>Properties\<close>

text \<open>A run that gives up: the socket cannot be created.\<close>

definition failed_attempt :: attempt where
  "failed_attempt = \<lparr>at_fd = -1, at_dials = [], at_ack = 0, at_hello = 0, at_handshake = False\<rparr>"

definition some_client :: "client_phase \<Rightarrow> tcp_client" where
  "some_client p = (new_tcp_client ''t'' ''P1'' (node_address ''ip'' 80) ''P0'')\<lparr>phase := p\<rparr>"

definition claimed_system :: "client_phase \<Rightarrow> client_system" where
  "claimed_system p = \<lparr>c_static = new_client_static\<lparr>client_task_count := 1, to_connect := {node_address ''ip'' 80}\<rparr>,
     clients = [0 \<mapsto> some_client p]\<rparr>"

lemma sample_host: "gethostip (\<lambda>_. Some [(True, ''ip'')]) ''host'' = ''ip''"
  by (simp add: gethostip_def)

lemma reach_dialing: "client_step\<^sup>*\<^sup>* new_client_system (claimed_system Dialing)"
proof -
  have "connect_enter (new_tcp_client ''t'' ''P1'' (node_address ''ip'' 80) ''P0'') (c_static new_client_system) =
      Inr (some_client Dialing, c_static (claimed_system Dialing))"
    by (simp add: new_client_system_def connect_enter_def claim_address_def new_client_static_def
        new_tcp_client_def some_client_def claimed_system_def)
  from Connect [OF _ sample_host _ this, of 0] show ?thesis
    by (simp add: new_client_system_def claimed_system_def r_into_rtranclp)
qed

lemma reach_failed: "client_step\<^sup>*\<^sup>* new_client_system (claimed_system Dial_Failed)"
proof -
  have "connect_dial 3 1000 1 [failed_attempt] (some_client Dialing) (c_static (claimed_system Dialing)) =
      Some (Inr (some_client Dial_Failed, c_static (claimed_system Dialing)))"
    by (simp add: connect_dial_def connect_give_up_def retries_def connect_attempt_def failed_attempt_def some_client_def)
  from Dial [OF _ _ _ this, of 0] have "client_step (claimed_system Dialing) (claimed_system Dial_Failed)"
    by (simp add: claimed_system_def some_client_def new_client_static_def)
  with reach_dialing show ?thesis by (rule rtranclp.rtrancl_into_rtrancl)
qed

text \<open>A run that gives up after the handshake of its only attempt has failed.\<close>

definition refused_attempt :: attempt where
  "refused_attempt = \<lparr>at_fd = 5, at_dials = [(True, 0)], at_ack = 1, at_hello = int (length (hello ''P0'')), at_handshake = False\<rparr>"

definition refused_client :: tcp_client where
  "refused_client = (some_client Dial_Failed)\<lparr>cl_conn := Some 3, connected := True\<rparr>"

definition refused_system :: client_system where
  "refused_system = \<lparr>c_static = (c_static (claimed_system Dialing))\<lparr>c_objs := [3 \<mapsto> new_connection 5 0 False ''P1'']\<rparr>,
     clients = [0 \<mapsto> refused_client]\<rparr>"

lemma refused_attempt: "connect_attempt ''P0'' 1000 refused_attempt = Some Handshake_Failed"
  by (subst connect_attempt_def, subst dial_loop.simps) (simp add: refused_attempt_def)

lemma reach_refused: "client_step\<^sup>*\<^sup>* new_client_system refused_system"
proof -
  have "retries 1 = Suc 0" by (simp add: retries_def)
  then have "connect_attempts (retries 1) ''P0'' 1000 None [refused_attempt] = Some (Not_Dialled (Some 5))"
    using refused_attempt by (simp add: refused_attempt_def)
  then have "connect_dial 3 1000 1 [refused_attempt] (some_client Dialing) (c_static (claimed_system Dialing)) =
      Some (Inr (refused_client, c_static refused_system))"
    by (simp add: connect_dial_def connect_give_up_def some_client_def new_tcp_client_def refused_client_def
        refused_system_def claimed_system_def new_client_static_def)
  from Dial [OF _ _ _ this, of 0] have "client_step (claimed_system Dialing) refused_system"
    by (simp add: claimed_system_def some_client_def new_client_static_def refused_system_def)
  with reach_dialing show ?thesis by (rule rtranclp.rtrancl_into_rtrancl)
qed



text \<open>C24: two tasks never connect to the same address at the same time: in every reachable state at most one
  client is connecting to an address, and there is no connection to it already, so the connection it makes
  is the one that is registered.\<close>

theorem one_dial_per_address:
  assumes "client_step\<^sup>*\<^sup>* new_client_system s" and "clients s j = Some cl" and "phase cl = Dialing"
  shows "std_find (c_connections (c_static s)) (cl_address cl) = None \<and>
    (\<forall>k cl'. clients s k = Some cl' \<and> phase cl' = Dialing \<and> cl_address cl' = cl_address cl \<longrightarrow> k = j) \<and>
    (\<forall>ptr timeout n as cl' st. connect_dial ptr timeout n as cl (c_static s) = Some (Inr (cl', st)) \<longrightarrow>
       phase cl' = In_Use \<longrightarrow> std_find (c_connections st) (cl_address cl) = Some ptr)"
proof -
  note ok = clients_okD [OF clients_ok_reach [OF assms(1)]]
  have none: "std_find (c_connections (c_static s)) (cl_address cl) = None"
    using ok(4,5) assms(2,3) by blast
  moreover have "k = j" if "clients s k = Some cl'" "phase cl' = Dialing" "cl_address cl' = cl_address cl" for k cl'
    using ok(6) [OF that(1) assms(2) disjI1 [OF that(2)] disjI1 [OF assms(3)] that(3)] .
  moreover have "std_find (c_connections st) (cl_address cl) = Some ptr"
    if "connect_dial ptr timeout n as cl (c_static s) = Some (Inr (cl', st))" "phase cl' = In_Use"
    for ptr timeout n as cl' st
    using connect_dial_cases [OF that(1)] that(2) none ok(1) by (auto simp: std.find_insert)
  ultimately show ?thesis by blast
qed

theorem one_dial_per_address_witness:
  "std_find (c_connections (c_static (claimed_system Dialing))) (node_address ''ip'' 80) = None"
  using one_dial_per_address [OF reach_dialing, of 0 "some_client Dialing"]
  by (simp add: claimed_system_def some_client_def new_tcp_client_def)

text \<open>C39: an address that could not be reached stays blocked: once \<open>connect\<close> of a client has failed, every
  client created later for the same address waits, in every later state, for a connection that no thread
  is making; it never even tries.\<close>

theorem failed_connect_blocks_address:
  assumes "client_step\<^sup>*\<^sup>* new_client_system s" and "clients s k = Some cl" and "phase cl = Dial_Failed"
    and "client_step\<^sup>*\<^sup>* s s'" and "clients s j = None"
    and "clients s' j = Some cl'" and "cl_address cl' = cl_address cl"
  shows "phase cl' = Waits \<and> connect_wake cl' (c_static s') = Inl Would_Block"
proof -
  have "given_up (cl_address cl) (dom (clients s)) (clients s)"
    using assms(2,3) by (auto simp: given_up_def)
  then have up: "clients_ok s'" "given_up (cl_address cl) (dom (clients s)) (clients s')"
    using given_up_steps [OF assms(4) client_inv_reach [OF assms(1)]] by (auto simp: client_inv_def)
  have "j \<notin> dom (clients s)" using assms(5) by auto
  then show ?thesis using given_upD [OF up(2) assms(6,7)] given_up_address [OF up] assms(7)
    by (auto simp: connect_wake_def)
qed

theorem failed_connect_blocks_address_witness:
  "\<exists>s' cl'. client_step (claimed_system Dial_Failed) s' \<and> clients s' 1 = Some cl' \<and> phase cl' = Waits"
proof -
  let ?s = "claimed_system Dial_Failed"
  let ?st = "(c_static ?s)\<lparr>client_task_count := 2\<rparr>"
  have "connect_enter (new_tcp_client ''t'' ''P1'' (node_address ''ip'' 80) ''P0'') (c_static ?s) =
      Inr (some_client Waits, ?st)"
    by (simp add: connect_enter_def claim_address_def new_client_static_def
        new_tcp_client_def some_client_def claimed_system_def)
  from Connect [OF _ sample_host _ this, of 1] have step: "client_step ?s (set_client 1 (some_client Waits) ?st ?s)"
    by (simp add: claimed_system_def)
  then have steps: "client_step\<^sup>*\<^sup>* ?s (set_client 1 (some_client Waits) ?st ?s)" ..
  have "phase (some_client Waits) = Waits \<and>
      connect_wake (some_client Waits) (c_static (set_client 1 (some_client Waits) ?st ?s)) = Inl Would_Block"
    by (rule failed_connect_blocks_address [OF reach_failed _ _ steps,
          of 0 "some_client Dial_Failed" 1])
      (simp_all add: claimed_system_def some_client_def new_tcp_client_def)
  with step show ?thesis by (intro exI [of _ "set_client 1 (some_client Waits) ?st ?s"]) auto
qed

end
