(* ===== verification/C_Encode.thy ===== *)
theory C_Encode
  imports Std_Map
begin

text \<open>
  The C structures through which node ids leave the library: \<open>NodeIDVec\<close>, \<open>NodeIDPair\<close> and
  \<open>NodeIDMap\<close> of \<open>channel.h\<close>, the \<open>encode_\<dots>\<close> functions of \<open>channel_encode.h\<close> and the \<open>decode_\<dots>\<close>
  functions of \<open>channel_decode.h\<close>. A \<open>char*\<close> is the block it points to, terminator included; a
  count is a 32-bit \<open>int\<close>.
\<close>

type_synonym cint = "32 word"

record NodeIDVec =
  node_count :: cint
  node_ids :: "bytes list"

record NodeIDPair =
  node_id :: bytes
  party_id :: cint

record NodeIDMap =
  map_node_count :: cint
  pairs :: "NodeIDPair list"

section \<open>Encoding\<close>

definition encode_string :: "bytes \<Rightarrow> bytes" where
  "encode_string str = str @ [CHR 0x00]"

definition encode_vector :: "bytes list \<Rightarrow> NodeIDVec" where
  "encode_vector vec = \<lparr>node_count = word_of_nat (length vec), node_ids = map encode_string vec\<rparr>"

definition encode_map :: "(bytes \<times> cint) list \<Rightarrow> NodeIDMap" where
  "encode_map m = \<lparr>map_node_count = word_of_nat (length m),
     pairs = map (\<lambda>(k, v). \<lparr>node_id = encode_string k, party_id = v\<rparr>) m\<rparr>"

section \<open>Decoding\<close>

text \<open>\<open>strlen\<close> reads up to the first terminator; a block without one is read past its end.\<close>

fun strlen :: "bytes \<Rightarrow> nat res" where
  "strlen [] = Inl Mem_Fault"
| "strlen (c # cs) = (if c = CHR 0x00 then Inr 0 else bindE (strlen cs) (\<lambda>n. Inr (Suc n)))"

definition decode_string :: "bytes \<Rightarrow> bytes res" where
  "decode_string pointer = bindE (strlen pointer) (\<lambda>n. Inr (take n pointer))"

text \<open>The loop \<open>for (int i = 0; i < node_count; i++)\<close> over an array of blocks.\<close>

fun decode_ids :: "nat \<Rightarrow> bytes list \<Rightarrow> bytes list res" where
  "decode_ids 0 ids = Inr []"
| "decode_ids (Suc k) [] = Inl Mem_Fault"
| "decode_ids (Suc k) (p # ids) =
     bindE (decode_string p) (\<lambda>s. bindE (decode_ids k ids) (\<lambda>ss. Inr (s # ss)))"

definition decode_vector :: "NodeIDVec \<Rightarrow> bytes list res" where
  "decode_vector pointer =
    (let n = sint (node_count pointer) in
     if n < 0 then Inl Length_Error  \<comment> \<open>\<open>resize\<close> of a negative count\<close>
     else decode_ids (nat n) (node_ids pointer))"

fun decode_pairs :: "nat \<Rightarrow> NodeIDPair list \<Rightarrow> (bytes \<times> cint) list \<Rightarrow> (bytes \<times> cint) list res" where
  "decode_pairs 0 ps m = Inr m"
| "decode_pairs (Suc k) [] m = Inl Mem_Fault"
| "decode_pairs (Suc k) (p # ps) m =
     bindE (decode_string (node_id p)) (\<lambda>s. decode_pairs k ps (std_insert s (party_id p) m))"

definition decode_map :: "NodeIDMap \<Rightarrow> (bytes \<times> cint) list res" where
  "decode_map pointer =
    (let n = sint (map_node_count pointer) in
     if n \<le> 0 then Inr [] else decode_pairs (nat n) (pairs pointer) [])"

section \<open>Lemmas\<close>

text \<open>What a C string can carry of a \<open>std::string\<close>: the part before the first terminator.\<close>

definition c_part :: "bytes \<Rightarrow> bytes" where
  "c_part s = takeWhile (\<lambda>c. c \<noteq> CHR 0x00) s"

definition c_clean :: "bytes \<Rightarrow> bool" where
  "c_clean s \<longleftrightarrow> CHR 0x00 \<notin> set s"

lemma c_part_clean [simp]: "c_clean s \<Longrightarrow> c_part s = s"
  by (induction s) (auto simp: c_part_def c_clean_def)

lemma strlen_encode: "strlen (encode_string s) = Inr (length (c_part s))"
  by (induction s) (auto simp: encode_string_def c_part_def)

lemma take_c_part: "take (length (c_part s)) (s @ t) = c_part s"
  by (induction s) (auto simp: c_part_def)

lemma decode_encode_string: "decode_string (encode_string s) = Inr (c_part s)"
  by (simp add: decode_string_def strlen_encode) (simp only: encode_string_def take_c_part)

lemma sint_count: "n < 2 ^ 31 \<Longrightarrow> sint (word_of_nat n :: cint) = int n"
  by (simp add: signed_of_nat signed_take_bit_int_eq_self)

lemma decode_ids_encode: "decode_ids (length vec) (map encode_string vec) = Inr (map c_part vec)"
  by (induction vec) (simp_all add: decode_encode_string)

lemma decode_encode_vector:
  "length vec < 2 ^ 31 \<Longrightarrow> decode_vector (encode_vector vec) = Inr (map c_part vec)"
  by (simp add: decode_vector_def encode_vector_def sint_count decode_ids_encode)

lemma decode_pairs_encode:
  "decode_pairs (length kvs) (map (\<lambda>(k, v). \<lparr>node_id = encode_string k, party_id = v\<rparr>) kvs) m =
     Inr (fold (\<lambda>(k, v). std_insert k v) (map (\<lambda>(k, v). (c_part k, v)) kvs) m)"
  by (induction kvs arbitrary: m) (auto simp: decode_encode_string)

lemma decode_encode_map:
  "length m < 2 ^ 31 \<Longrightarrow> decode_map (encode_map m) =
     Inr (fold (\<lambda>(k, v). std_insert k v) (map (\<lambda>(k, v). (c_part k, v)) m) [])"
  using decode_pairs_encode [of m "[]"]
  by (cases "m = []") (simp_all add: decode_map_def encode_map_def sint_count)

section \<open>Properties\<close>

text \<open>A map of node ids to party numbers crosses the C interface unchanged, provided no id
  contains the terminator and the count fits an \<open>int\<close>.\<close>

theorem node_map_crosses_interface:
  assumes "sorted_map m" and "\<forall>k \<in> fst ` set m. c_clean k" and "length m < 2 ^ 31"
  shows "decode_map (encode_map m) = Inr m"
proof -
  have "map (\<lambda>(k, v). (c_part k, v)) m = m"
    using assms(2) by (intro map_idI) (auto simp: image_iff)
  then show ?thesis
    using decode_encode_map [OF assms(3)] fold_std_insert_sorted [of "[]" m] assms(1) by simp
qed

theorem node_map_crosses_interface_witness:
  "decode_map (encode_map [(''P0'', 0), (''P1'', 1)]) = Inr [(''P0'', 0), (''P1'', 1)]"
  using node_map_crosses_interface [of "[(''P0'', 0), (''P1'', 1)]"]
  by (simp add: sorted_map_Cons c_clean_def less_list_code)

text \<open>A vector of node ids crosses the C interface with each id cut at its first terminator,
  and unchanged when there is none.\<close>

theorem node_ids_cross_interface:
  assumes "length ids < 2 ^ 31"
  shows "decode_vector (encode_vector ids) = Inr (map c_part ids) \<and>
    (list_all c_clean ids \<longrightarrow> decode_vector (encode_vector ids) = Inr ids)"
  using decode_encode_vector [OF assms] by (auto simp: list_all_iff intro: map_idI)

theorem node_ids_cross_interface_witness:
  "decode_vector (encode_vector [''a'', ''b'' @ [CHR 0x00] @ ''c'']) = Inr [''a'', ''b'']"
  using node_ids_cross_interface [of "[''a'', ''b'' @ [CHR 0x00] @ ''c'']"] by (simp add: c_part_def)

end
