(* ===== verification/Config.thy ===== *)
theory Config
  imports Support C_Encode
begin

text \<open>
  The configuration of a task, \<open>config.h\<close> and \<open>config.cpp\<close>: which nodes take part, as data, computation
  or result nodes, and where they listen. The document is a value of RapidJSON, whose documented
  interface is modelled by \<open>json\<close> and its accessors: an access of the wrong kind violates a
  \<open>RAPIDJSON_ASSERT\<close> (\<open>Assert_Fail\<close>). \<open>GetString\<close> of RapidJSON returns a C string, so a \<open>std::string\<close>
  made from it ends at the first terminator.
\<close>

section \<open>JSON values\<close>

datatype json =
    JNull
  | JBool bool
  | JInt int                           \<comment> \<open>a number that is an integer\<close>
  | JDouble string                     \<comment> \<open>any other number, as written\<close>
  | JString bytes
  | JArray "json list"
  | JObject "(bytes \<times> json) list"     \<comment> \<open>the members in document order\<close>

definition int32 :: "int \<Rightarrow> int" where
  "int32 i = sint (word_of_int i :: cint)"

fun HasMember :: "json \<Rightarrow> bytes \<Rightarrow> bool res" where
  "HasMember (JObject ms) key = Inr (map_of ms key \<noteq> None)"
| "HasMember _ key = Inl Assert_Fail"

fun member :: "json \<Rightarrow> bytes \<Rightarrow> json res" where
  "member (JObject ms) key = (case map_of ms key of Some v \<Rightarrow> Inr v | None \<Rightarrow> Inl Assert_Fail)"
| "member _ key = Inl Assert_Fail"

fun json_string :: "json \<Rightarrow> bytes res" where
  "json_string (JString s) = Inr (c_part s)"
| "json_string _ = Inl Assert_Fail"

text \<open>\<open>IsInt\<close>: an integer that fits an \<open>int\<close>.\<close>

fun IsInt :: "json \<Rightarrow> bool" where
  "IsInt (JInt i) \<longleftrightarrow> - (2 ^ 31) \<le> i \<and> i < 2 ^ 31"
| "IsInt _ \<longleftrightarrow> False"

fun json_int :: "json \<Rightarrow> int res" where
  "json_int (JInt i) = (if IsInt (JInt i) then Inr i else Inl Assert_Fail)"
| "json_int _ = Inl Assert_Fail"

fun json_bool :: "json \<Rightarrow> bool res" where
  "json_bool (JBool b) = Inr b"
| "json_bool _ = Inl Assert_Fail"

fun elements :: "json \<Rightarrow> json list" where
  "elements (JArray vs) = vs"
| "elements _ = []"

fun members :: "json \<Rightarrow> (bytes \<times> json) list" where
  "members (JObject ms) = ms"
| "members _ = []"

definition IsArray :: "json \<Rightarrow> bool" where
  "IsArray v \<longleftrightarrow> (\<exists>vs. v = JArray vs)"

definition IsObject :: "json \<Rightarrow> bool" where
  "IsObject v \<longleftrightarrow> (\<exists>ms. v = JObject ms)"

lemma IsArray_code [simp, code]:
  "IsArray (JArray vs) = True" "IsArray (JObject ms) = False" "IsArray (JString s) = False"
  "IsArray (JInt i) = False" "IsArray (JDouble d) = False" "IsArray (JBool b) = False" "IsArray JNull = False"
  by (simp_all add: IsArray_def)

lemma IsObject_code [simp, code]:
  "IsObject (JArray vs) = False" "IsObject (JObject ms) = True" "IsObject (JString s) = False"
  "IsObject (JInt i) = False" "IsObject (JDouble d) = False" "IsObject (JBool b) = False"
  "IsObject JNull = False"
  by (simp_all add: IsObject_def)

section \<open>Reading values with defaults\<close>

definition if_key_not_exist_then_exit :: "bool \<Rightarrow> bytes \<Rightarrow> unit res" where
  "if_key_not_exist_then_exit must_exist key =
    (if must_exist then Inl (other_exp (''key['' @ key @ ''] not exist!'')) else Inr ())"

definition get_value :: "(json \<Rightarrow> 'a res) \<Rightarrow> json \<Rightarrow> bytes \<Rightarrow> 'a \<Rightarrow> bool \<Rightarrow> 'a res" where
  "get_value access v key default_value must_exist =
    bindE (HasMember v key) (\<lambda>has.
    if has then bindE (member v key) access
    else bindE (if_key_not_exist_then_exit must_exist key) (\<lambda>_. Inr default_value))"

definition GetString :: "json \<Rightarrow> bytes \<Rightarrow> bytes \<Rightarrow> bool \<Rightarrow> bytes res" where
  "GetString = get_value json_string"

definition GetInt :: "json \<Rightarrow> bytes \<Rightarrow> int \<Rightarrow> bool \<Rightarrow> int res" where
  "GetInt = get_value json_int"

definition GetBool :: "json \<Rightarrow> bytes \<Rightarrow> bool \<Rightarrow> bool \<Rightarrow> bool res" where
  "GetBool = get_value json_bool"

section \<open>State\<close>

record Node =
  DESC :: bytes
  NODE_ID :: bytes
  NAME :: bytes
  HOST :: bytes
  PORT :: int

definition node_eq :: "Node \<Rightarrow> Node \<Rightarrow> bool" where
  "node_eq m n \<longleftrightarrow> NODE_ID m = NODE_ID n"

definition copy_from :: "Node \<Rightarrow> Node \<Rightarrow> Node" where
  "copy_from this node = this\<lparr>DESC := DESC node, NODE_ID := NODE_ID node, NAME := NAME node,
     HOST := HOST node, PORT := PORT node\<rparr>"

datatype NODE_TYPE = NODE_TYPE_INVALID | NODE_TYPE_DATA | NODE_TYPE_COMPUTE | NODE_TYPE_RESULT

record NodeInfo =
  nid :: bytes                 \<comment> \<open>\<open>id\<close>\<close>
  address :: bytes
  port :: int

text \<open>The vectors \<open>P\<close> of \<open>data_config_\<close>, \<open>compute_config_\<close> and \<open>result_config_\<close> are the last fields.\<close>

record ChannelConfig =
  node_info_config :: "(bytes \<times> Node) list"
  data_nodes :: "bytes list"
  pure_data_nodes :: "bytes list"
  compute_nodes :: "(bytes \<times> int) list"
  result_nodes :: "bytes list"
  pure_result_nodes :: "bytes list"
  connect_timeout :: int
  connect_retries :: int
  data_config :: "Node list"
  compute_config :: "Node list"
  result_config :: "Node list"

definition new_config :: ChannelConfig where
  "new_config = \<lparr>node_info_config = [], data_nodes = [], pure_data_nodes = [], compute_nodes = [],
     result_nodes = [], pure_result_nodes = [], connect_timeout = 10 * 1000, connect_retries = 5,
     data_config = [], compute_config = [], result_config = []\<rparr>"

section \<open>Parsing\<close>

definition section_of :: "json \<Rightarrow> bytes \<Rightarrow> (json \<Rightarrow> bool) \<Rightarrow> json option res" where
  "section_of doc key kind =
    bindE (HasMember doc key) (\<lambda>has.
    if has then bindE (member doc key) (\<lambda>v. Inr (if kind v then Some v else None)) else Inr None)"

definition parse_node :: "nat \<Rightarrow> json \<Rightarrow> Node res" where
  "parse_node i v =
    bindE (GetString v ''NODE_ID'' [] False) (\<lambda>node_id.
    bindE (GetString v ''NAME'' (''Node-'' @ nat_to_string i) False) (\<lambda>name.
    bindE (GetString v ''HOST'' ''127.0.0.1'' False) (\<lambda>host.
    bindE (GetInt v ''PORT'' 0 False) (\<lambda>port.
      Inr \<lparr>DESC = [], NODE_ID = node_id, NAME = name, HOST = host, PORT = port\<rparr>))))"

fun parse_nodes :: "nat \<Rightarrow> json list \<Rightarrow> (bytes \<times> Node) list \<Rightarrow> (bytes \<times> Node) list res" where
  "parse_nodes i [] infos = Inr infos"
| "parse_nodes i (v # vs) infos =
     bindE (parse_node i v) (\<lambda>n. parse_nodes (Suc i) vs (std_insert (NODE_ID n) n infos))"

definition parse_node_info :: "json \<Rightarrow> ChannelConfig \<Rightarrow> ChannelConfig res" where
  "parse_node_info doc cfg =
    bindE (section_of doc ''NODE_INFO'' IsArray) (\<lambda>s. case s of
      None \<Rightarrow> Inr cfg
    | Some v \<Rightarrow> bindE (parse_nodes 0 (elements v) (node_info_config cfg)) (\<lambda>infos.
        Inr (cfg\<lparr>node_info_config := infos\<rparr>)))"

text \<open>The loop shared by \<open>parse_data\<close> and \<open>parse_result\<close>: the ids, and the nodes known by \<open>NODE_INFO\<close>.\<close>

fun parse_ids :: "json list \<Rightarrow> bytes list res" where
  "parse_ids [] = Inr []"
| "parse_ids (v # vs) = bindE (json_string v) (\<lambda>i. bindE (parse_ids vs) (\<lambda>is. Inr (i # is)))"

definition known_nodes :: "(bytes \<times> Node) list \<Rightarrow> bytes list \<Rightarrow> Node list" where
  "known_nodes infos ids = List.map_filter (std_find infos) ids"

definition parse_data :: "json \<Rightarrow> ChannelConfig \<Rightarrow> ChannelConfig res" where
  "parse_data doc cfg =
    bindE (section_of doc ''DATA_NODES'' IsArray) (\<lambda>s. case s of
      None \<Rightarrow> Inr cfg
    | Some v \<Rightarrow> bindE (parse_ids (elements v)) (\<lambda>ids.
        Inr (cfg\<lparr>data_nodes := ids,
          data_config := data_config cfg @ known_nodes (node_info_config cfg) ids\<rparr>)))"

fun parse_parties :: "(bytes \<times> json) list \<Rightarrow> (bytes \<times> int) list \<Rightarrow> (bytes \<times> int) list res" where
  "parse_parties [] ps = Inr ps"
| "parse_parties ((k, v) # ms) ps =
     bindE (json_int v) (\<lambda>i. parse_parties ms (std_insert (c_part k) i ps))"

definition parse_compute :: "json \<Rightarrow> ChannelConfig \<Rightarrow> ChannelConfig res" where
  "parse_compute doc cfg =
    bindE (section_of doc ''COMPUTATION_NODES'' IsObject) (\<lambda>s. case s of
      None \<Rightarrow> Inr cfg
    | Some v \<Rightarrow> bindE (parse_parties (members v) (compute_nodes cfg)) (\<lambda>ps.
        Inr (cfg\<lparr>compute_nodes := ps,
          compute_config := compute_config cfg @ known_nodes (node_info_config cfg) (map fst ps)\<rparr>)))"

definition parse_result :: "json \<Rightarrow> ChannelConfig \<Rightarrow> ChannelConfig res" where
  "parse_result doc cfg =
    bindE (section_of doc ''RESULT_NODES'' IsArray) (\<lambda>s. case s of
      None \<Rightarrow> Inr cfg
    | Some v \<Rightarrow> bindE (parse_ids (elements v)) (\<lambda>ids.
        Inr (cfg\<lparr>result_nodes := ids,
          result_config := result_config cfg @ known_nodes (node_info_config cfg) ids\<rparr>)))"

text \<open>A parameter is used when it is present, an \<open>int\<close> and positive.\<close>

definition positive_param :: "json \<Rightarrow> bytes \<Rightarrow> int option res" where
  "positive_param v key =
    bindE (section_of v key IsInt) (\<lambda>s. case s of
      None \<Rightarrow> Inr None
    | Some w \<Rightarrow> bindE (json_int w) (\<lambda>i. Inr (if 0 < i then Some i else None)))"

definition parse_connect_params :: "json \<Rightarrow> ChannelConfig \<Rightarrow> ChannelConfig res" where
  "parse_connect_params doc cfg =
    bindE (section_of doc ''CONNECT_PARAMS'' IsObject) (\<lambda>s. case s of
      None \<Rightarrow> Inr cfg
    | Some v \<Rightarrow>
        bindE (positive_param v ''TIMEOUT'') (\<lambda>t.
        bindE (positive_param v ''RETRIES'') (\<lambda>r.
          Inr (cfg\<lparr>connect_timeout := (case t of None \<Rightarrow> connect_timeout cfg | Some i \<Rightarrow> int32 (i * 1000)),
            connect_retries := (case r of None \<Rightarrow> connect_retries cfg | Some i \<Rightarrow> i)\<rparr>))))"

section \<open>Node types\<close>

text \<open>A loop over a vector that erases the elements satisfying \<open>p\<close>.\<close>

fun erase_if :: "('a \<Rightarrow> bool) \<Rightarrow> 'a list \<Rightarrow> 'a list" where
  "erase_if p [] = []"
| "erase_if p (x # xs) = (if p x then erase_if p xs else x # erase_if p xs)"

definition listed :: "Node list \<Rightarrow> Node \<Rightarrow> bool" where
  "listed P n \<longleftrightarrow> list_ex (\<lambda>m. node_eq m n) P"

definition process_node_type :: "ChannelConfig \<Rightarrow> ChannelConfig" where
  "process_node_type cfg =
    (let is_compute = (\<lambda>i. std_find (compute_nodes cfg) i \<noteq> None);
         pure_data = erase_if is_compute (data_nodes cfg);
         pure_result = erase_if (\<lambda>i. is_compute i \<or> i \<in> set pure_data) (result_nodes cfg);
         data_P = erase_if (listed (compute_config cfg)) (data_config cfg);
         result_P = erase_if (\<lambda>n. listed (compute_config cfg) n \<or> listed data_P n) (result_config cfg)
     in cfg\<lparr>pure_data_nodes := pure_data, pure_result_nodes := pure_result,
          data_config := data_P, result_config := result_P\<rparr>)"

text \<open>\<open>parse\<close> and \<open>load\<close> return whether they succeeded, and the object.\<close>

definition parse_doc :: "json \<Rightarrow> ChannelConfig \<Rightarrow> (bool \<times> ChannelConfig) res" where
  "parse_doc doc cfg =
    bindE (parse_node_info doc cfg) (\<lambda>c1.
    bindE (parse_data doc c1) (\<lambda>c2.
    bindE (parse_compute doc c2) (\<lambda>c3.
    bindE (parse_result doc c3) (\<lambda>c4.
    bindE (parse_connect_params doc c4) (\<lambda>c5.
      Inr (True, process_node_type c5))))))"

text \<open>The loop of \<open>getline\<close> over a file: the lines joined without their ends.\<close>

fun join_lines :: "bytes \<Rightarrow> bytes" where
  "join_lines [] = []"
| "join_lines (c # cs) = (if c = CHR 0x0A then join_lines cs else c # join_lines cs)"

text \<open>The file system (\<open>file\<close>, the content of a file that can be opened) and the JSON parser
  (\<open>parse_json\<close>, \<open>None\<close> for a parse error) are parameters.\<close>

definition load_config :: "(bytes \<Rightarrow> bytes option) \<Rightarrow> (bytes \<Rightarrow> json option) \<Rightarrow> bytes \<Rightarrow> ChannelConfig \<Rightarrow>
    (bool \<times> ChannelConfig) res" where
  "load_config file parse_json config_file cfg =
    (let sjson = (case file (c_part config_file) of None \<Rightarrow> config_file | Some text \<Rightarrow> join_lines text)
     in case parse_json (c_part sjson) of
          None \<Rightarrow> Inr (False, cfg)
        | Some doc \<Rightarrow> parse_doc doc cfg)"

definition make_config :: "(bytes \<Rightarrow> bytes option) \<Rightarrow> (bytes \<Rightarrow> json option) \<Rightarrow> bytes \<Rightarrow> bytes \<Rightarrow>
    ChannelConfig res" where
  "make_config file parse_json nodeid config_json =
    bindE (load_config file parse_json config_json new_config) (\<lambda>(ret, cfg).
    if ret then Inr cfg else Inl (other_exp ''ChannelConfig load2 config json failed!''))"

section \<open>Queries\<close>

definition GetPrimaryNodeType :: "ChannelConfig \<Rightarrow> bytes \<Rightarrow> NODE_TYPE" where
  "GetPrimaryNodeType cfg nodeid =
    (if list_ex (\<lambda>i. nodeid = i) (pure_data_nodes cfg) then NODE_TYPE_DATA
     else if list_ex (\<lambda>(i, _). nodeid = i) (compute_nodes cfg) then NODE_TYPE_COMPUTE
     else if list_ex (\<lambda>i. nodeid = i) (pure_result_nodes cfg) then NODE_TYPE_RESULT
     else NODE_TYPE_INVALID)"

definition find_node :: "Node list \<Rightarrow> bytes \<Rightarrow> Node option" where
  "find_node P nodeid = List.find (\<lambda>n. nodeid = NODE_ID n) P"

definition GetNode :: "ChannelConfig \<Rightarrow> bytes \<Rightarrow> Node res" where
  "GetNode cfg nodeid =
    (case find_node (data_config cfg) nodeid of
       Some n \<Rightarrow> Inr n
     | None \<Rightarrow> case find_node (compute_config cfg) nodeid of
         Some n \<Rightarrow> Inr n
       | None \<Rightarrow> case find_node (result_config cfg) nodeid of
           Some n \<Rightarrow> Inr n
         | None \<Rightarrow> Inl (other_exp ''can not find node in config!''))"

text \<open>\<open>to_string\<close>, the same text for the three groups.\<close>

fun print_nodes :: "nat \<Rightarrow> Node list \<Rightarrow> string" where
  "print_nodes i [] = []"
| "print_nodes i (n # P) =
     CHR 0x0A # ''        P'' @ nat_to_string i @ '' NAME: '' @ NAME n @
     CHR 0x0A # ''        P'' @ nat_to_string i @ '' HOST: '' @ HOST n @
     CHR 0x0A # ''        P'' @ nat_to_string i @ '' PORT: '' @ int_to_string (PORT n) @ print_nodes (Suc i) P"

definition config_to_string :: "Node list \<Rightarrow> string" where
  "config_to_string P = print_nodes 0 P @ [CHR 0x0A]"

section \<open>Lemmas\<close>

lemma erase_if_filter: "erase_if p xs = filter (\<lambda>x. \<not> p x) xs"
  by (induction xs) simp_all

text \<open>The entries of \<open>node_info_config\<close> are keyed by the id of their node.\<close>

definition info_ok :: "(bytes \<times> Node) list \<Rightarrow> bool" where
  "info_ok infos \<longleftrightarrow> sorted_map infos \<and> (\<forall>k n. std_find infos k = Some n \<longrightarrow> NODE_ID n = k)"

lemma info_okD: "info_ok infos \<Longrightarrow> std_find infos k = Some n \<Longrightarrow> NODE_ID n = k"
  by (simp add: info_ok_def)

lemma info_ok_insert:
  assumes "info_ok infos"
  shows "info_ok (std_insert (NODE_ID n) n infos)"
proof -
  have sorted: "sorted_map infos" using assms by (simp add: info_ok_def)
  have "NODE_ID m = k" if "std_find (std_insert (NODE_ID n) n infos) k = Some m" for k m
  proof (cases "k = NODE_ID n")
    case True
    with that have "m = (case std_find infos (NODE_ID n) of None \<Rightarrow> n | Some w \<Rightarrow> w)"
      by (simp add: std.find_insert [OF sorted])
    with True info_okD [OF assms] show ?thesis by (metis option.case_eq_if option.collapse)
  next
    case False
    with that have "std_find infos k = Some m" by (simp add: std.find_insert [OF sorted])
    then show ?thesis by (rule info_okD [OF assms])
  qed
  then show ?thesis using std.valid_insert [OF sorted] unfolding info_ok_def by blast
qed

lemma parse_nodes_ok: "parse_nodes i vs infos = Inr infos' \<Longrightarrow> info_ok infos \<Longrightarrow> info_ok infos'"
proof (induction vs arbitrary: i infos)
  case (Cons v vs)
  obtain n where n: "parse_nodes (Suc i) vs (std_insert (NODE_ID n) n infos) = Inr infos'"
    using Cons.prems(1) by (simp only: parse_nodes.simps bindE_eq_Inr) blast
  show ?case by (rule Cons.IH [OF n info_ok_insert [OF Cons.prems(2)]])
qed simp

lemma parse_parties_sorted: "parse_parties ms ps = Inr ps' \<Longrightarrow> sorted_map ps \<Longrightarrow> sorted_map ps'"
proof (induction ms arbitrary: ps)
  case (Cons m ms)
  obtain k v where m: "m = (k, v)" by fastforce
  with Cons.prems(1) obtain i where
    p: "parse_parties ms (std_insert (c_part k) i ps) = Inr ps'"
    by (auto simp: bindE_eq_Inr)
  show ?case by (rule Cons.IH [OF p std.valid_insert [OF Cons.prems(2)]])
qed simp

lemma known_nodes_simps [simp]:
  "known_nodes infos [] = []"
  "known_nodes infos (i # is) = (case std_find infos i of None \<Rightarrow> [] | Some n \<Rightarrow> [n]) @ known_nodes infos is"
  by (simp_all add: known_nodes_def List.map_filter_simps split: option.splits)

lemma known_nodes_ids:
  assumes "info_ok infos"
  shows "map NODE_ID (known_nodes infos ids) = filter (\<lambda>i. std_find infos i \<noteq> None) ids"
proof (induction ids)
  case (Cons i ids)
  then show ?case using info_okD [OF assms, of i] by (cases "std_find infos i") simp_all
qed simp

lemma known_nodes_find:
  assumes "info_ok infos"
  shows "n \<in> set (known_nodes infos ids) \<longleftrightarrow> NODE_ID n \<in> set ids \<and> std_find infos (NODE_ID n) = Some n"
proof (induction ids)
  case (Cons i ids)
  show ?case
  proof (cases "std_find infos i")
    case None
    then have "std_find infos (NODE_ID n) = Some n \<Longrightarrow> NODE_ID n \<noteq> i" by auto
    with None Cons show ?thesis by auto
  next
    case (Some m)
    then have "NODE_ID m = i" by (rule info_okD [OF assms])
    with Some Cons show ?thesis by auto
  qed
qed simp

text \<open>Before \<open>process_node_type\<close>: the groups as the document lists them.\<close>

definition parsed :: "ChannelConfig \<Rightarrow> bool" where
  "parsed cfg \<longleftrightarrow> info_ok (node_info_config cfg) \<and> sorted_map (compute_nodes cfg) \<and>
     data_config cfg = known_nodes (node_info_config cfg) (data_nodes cfg) \<and>
     compute_config cfg = known_nodes (node_info_config cfg) (map fst (compute_nodes cfg)) \<and>
     result_config cfg = known_nodes (node_info_config cfg) (result_nodes cfg)"

lemma parse_doc_parsed:
  assumes "parse_doc doc new_config = Inr (ok, cfg)"
  shows "\<exists>c. parsed c \<and> cfg = process_node_type c \<and> ok"
proof -
  obtain c1 c2 c3 c4 c5 where
    p: "parse_node_info doc new_config = Inr c1" "parse_data doc c1 = Inr c2" "parse_compute doc c2 = Inr c3"
      "parse_result doc c3 = Inr c4" "parse_connect_params doc c4 = Inr c5"
    and cfg: "cfg = process_node_type c5" "ok"
    using assms by (auto simp: parse_doc_def bindE_eq_Inr)
  have c1: "parsed c1" "data_config c1 = []" "compute_config c1 = []" "compute_nodes c1 = []"
    "result_config c1 = []" "data_nodes c1 = []" "result_nodes c1 = []"
    using p(1) parse_nodes_ok [of 0 _ "[]"]
    by (auto simp: parse_node_info_def new_config_def parsed_def info_ok_def bindE_eq_Inr
        split: option.splits)
  have c2: "parsed c2" "compute_config c2 = []" "compute_nodes c2 = []" "result_config c2 = []"
    "result_nodes c2 = []"
    using p(2) c1 by (auto simp: parse_data_def parsed_def bindE_eq_Inr split: option.splits)
  have c3: "parsed c3" "result_config c3 = []" "result_nodes c3 = []"
    using p(3) c2 parse_parties_sorted [of _ "[]"]
    by (auto simp: parse_compute_def parsed_def bindE_eq_Inr split: option.splits)
  have c4: "parsed c4"
    using p(4) c3 by (auto simp: parse_result_def parsed_def bindE_eq_Inr split: option.splits)
  have "parsed c5"
    using p(5) c4 by (auto simp: parse_connect_params_def parsed_def bindE_eq_Inr split: option.splits)
  with cfg show ?thesis by blast
qed

lemma map_of_dom: "map_of m i \<noteq> None \<longleftrightarrow> i \<in> fst ` set m"
  by (simp add: map_of_eq_None_iff)

lemma primary_type_process:
  "GetPrimaryNodeType (process_node_type c) i =
    (if i \<in> fst ` set (compute_nodes c) then NODE_TYPE_COMPUTE
     else if i \<in> set (data_nodes c) then NODE_TYPE_DATA
     else if i \<in> set (result_nodes c) then NODE_TYPE_RESULT else NODE_TYPE_INVALID)"
proof -
  have "list_ex (\<lambda>(j, _). i = j) m \<longleftrightarrow> i \<in> fst ` set m" for m :: "(bytes \<times> int) list"
    by (induction m) auto
  moreover have "list_ex (\<lambda>j. i = j) is \<longleftrightarrow> i \<in> set is" for "is" by (induction "is") auto
  ultimately show ?thesis
    by (simp add: GetPrimaryNodeType_def process_node_type_def Let_def erase_if_filter map_of_dom
        del: not_None_eq)
qed

lemma process_fields [simp]:
  "node_info_config (process_node_type c) = node_info_config c"
  "compute_nodes (process_node_type c) = compute_nodes c"
  "data_nodes (process_node_type c) = data_nodes c"
  "result_nodes (process_node_type c) = result_nodes c"
  "compute_config (process_node_type c) = compute_config c"
  by (simp_all add: process_node_type_def Let_def)

lemma listed_ids: "listed P n \<longleftrightarrow> NODE_ID n \<in> NODE_ID ` set P"
  unfolding listed_def node_eq_def list_ex_iff by (metis image_iff)

lemma find_node_known:
  assumes "info_ok infos"
  shows "find_node (filter (\<lambda>n. P (NODE_ID n)) (known_nodes infos ids)) i =
    (if i \<in> set ids \<and> P i then std_find infos i else None)"
proof (induction ids)
  case Nil
  then show ?case by (simp add: find_node_def)
next
  case (Cons j ids)
  show ?case
  proof (cases "std_find infos j")
    case None
    with Cons show ?thesis by (auto simp: find_node_def)
  next
    case (Some n)
    then have "NODE_ID n = j" by (rule info_okD [OF assms])
    with Some Cons show ?thesis by (auto simp: find_node_def)
  qed
qed

lemma known_ids_set:
  "info_ok infos \<Longrightarrow> NODE_ID ` set (known_nodes infos ids) = {i \<in> set ids. std_find infos i \<noteq> None}"
  using arg_cong [OF known_nodes_ids, of infos set ids] by auto

lemma image_filter_mem: "f n \<in> f ` {x \<in> A. f x \<notin> K} \<longleftrightarrow> f n \<in> f ` A \<and> f n \<notin> K"
  by auto

text \<open>The nodes of the three groups after \<open>process_node_type\<close>, by their ids.\<close>

lemma process_configs:
  assumes "parsed c"
  shows "data_config (process_node_type c) = filter (\<lambda>n. NODE_ID n \<notin> fst ` set (compute_nodes c))
      (known_nodes (node_info_config c) (data_nodes c))"
    and "result_config (process_node_type c) = filter (\<lambda>n. NODE_ID n \<notin> fst ` set (compute_nodes c) \<and>
      NODE_ID n \<notin> set (data_nodes c)) (known_nodes (node_info_config c) (result_nodes c))"
proof -
  let ?info = "node_info_config c"
  have info: "info_ok ?info" using assms by (simp add: parsed_def)
  have some: "std_find ?info (NODE_ID n) \<noteq> None" if "n \<in> set (known_nodes ?info ids)" for n ids
    using that known_nodes_find [OF info] by auto
  have comp: "listed (compute_config c) n \<longleftrightarrow> NODE_ID n \<in> fst ` set (compute_nodes c)"
    if "n \<in> set (known_nodes ?info ids)" for n ids
    using assms known_ids_set [OF info] some [OF that] by (auto simp: listed_ids parsed_def)
  have data: "data_config (process_node_type c) = filter (\<lambda>n. \<not> listed (compute_config c) n)
      (known_nodes ?info (data_nodes c))"
    using assms by (simp add: process_node_type_def Let_def erase_if_filter parsed_def)
  then show d: "data_config (process_node_type c) = filter (\<lambda>n. NODE_ID n \<notin> fst ` set (compute_nodes c))
      (known_nodes ?info (data_nodes c))"
    using comp by (simp cong: filter_cong)
  have dat: "listed (data_config (process_node_type c)) n \<longleftrightarrow>
      NODE_ID n \<in> set (data_nodes c) \<and> NODE_ID n \<notin> fst ` set (compute_nodes c)"
    if "n \<in> set (known_nodes ?info ids)" for n ids
    using some [OF that] by (simp add: listed_ids d image_filter_mem known_ids_set [OF info])
  have "result_config (process_node_type c) = filter (\<lambda>n. \<not> (listed (compute_config c) n \<or>
      listed (data_config (process_node_type c)) n)) (known_nodes ?info (result_nodes c))"
    using assms by (simp add: process_node_type_def Let_def erase_if_filter parsed_def)
  then show "result_config (process_node_type c) = filter (\<lambda>n. NODE_ID n \<notin> fst ` set (compute_nodes c) \<and>
      NODE_ID n \<notin> set (data_nodes c)) (known_nodes ?info (result_nodes c))"
    using comp dat by (auto intro!: filter_cong)
qed

lemma get_node_process:
  assumes "parsed c"
  shows "GetNode (process_node_type c) i =
    (case std_find (node_info_config c) i of
       Some n \<Rightarrow> if GetPrimaryNodeType (process_node_type c) i \<noteq> NODE_TYPE_INVALID then Inr n
         else Inl (other_exp ''can not find node in config!'')
     | None \<Rightarrow> Inl (other_exp ''can not find node in config!''))"
proof -
  have info: "info_ok (node_info_config c)"
    and comp: "compute_config c = filter (\<lambda>n. True) (known_nodes (node_info_config c) (map fst (compute_nodes c)))"
    using assms by (simp_all add: parsed_def)
  show ?thesis
    unfolding GetNode_def process_configs [OF assms] process_fields comp primary_type_process
    using find_node_known [OF info, of "\<lambda>i. i \<notin> fst ` set (compute_nodes c)" "data_nodes c" i]
      find_node_known [OF info, of "\<lambda>i. True" "map fst (compute_nodes c)" i]
      find_node_known [OF info, of "\<lambda>i. i \<notin> fst ` set (compute_nodes c) \<and> i \<notin> set (data_nodes c)" "result_nodes c" i]
    by (cases "std_find (node_info_config c) i") simp_all
qed

section \<open>A concrete document\<close>

definition sample_node :: "bytes \<Rightarrow> int \<Rightarrow> json" where
  "sample_node i p = JObject [(''NODE_ID'', JString i), (''PORT'', JInt p)]"

definition sample_doc :: json where
  "sample_doc = JObject
     [(''NODE_INFO'', JArray [sample_node ''d0'' 0, sample_node ''p0'' 11121, sample_node ''p1'' 11122,
        sample_node ''r0'' 11123]),
      (''DATA_NODES'', JArray [JString ''d0'', JString ''p1'']),
      (''COMPUTATION_NODES'', JObject [(''p1'', JInt 1), (''p0'', JInt 0)]),
      (''RESULT_NODES'', JArray [JString ''r0'', JString ''d0'', JString ''p0'', JString ''x'']),
      (''CONNECT_PARAMS'', JObject [(''TIMEOUT'', JInt 30), (''RETRIES'', JInt 3)])]"

lemma sample_parsed:
  "case parse_doc sample_doc new_config of Inl e \<Rightarrow> False
   | Inr (ok, cfg) \<Rightarrow> ok \<and> fst ` set (compute_nodes cfg) = {''p0'', ''p1''} \<and> data_nodes cfg = [''d0'', ''p1''] \<and>
       map NODE_ID (data_config cfg) = [''d0''] \<and> map NODE_ID (compute_config cfg) = [''p0'', ''p1''] \<and>
       map NODE_ID (result_config cfg) = [''r0''] \<and> connect_timeout cfg = 30000 \<and>
       map_option PORT (std_find (node_info_config cfg) ''p1'') = Some 11122"
  by code_simp

lemma sample_config:
  obtains cfg where "parse_doc sample_doc new_config = Inr (True, cfg)"
    "fst ` set (compute_nodes cfg) = {''p0'', ''p1''}" "data_nodes cfg = [''d0'', ''p1'']"
    "map_option PORT (std_find (node_info_config cfg) ''p1'') = Some 11122"
  using sample_parsed by (auto split: sum.splits prod.splits)

section \<open>Properties\<close>

text \<open>C36: every configuration the parser builds gives each node one primary type: computation if it is a
  computation node, else data, else result, and invalid exactly if it is in none of the groups. The
  pure groups are the rest of the data nodes and of the result nodes.\<close>

theorem every_node_has_one_type:
  assumes "parse_doc doc new_config = Inr (ok, cfg)"
  shows "ok \<and> GetPrimaryNodeType cfg i =
      (if i \<in> fst ` set (compute_nodes cfg) then NODE_TYPE_COMPUTE
       else if i \<in> set (data_nodes cfg) then NODE_TYPE_DATA
       else if i \<in> set (result_nodes cfg) then NODE_TYPE_RESULT else NODE_TYPE_INVALID) \<and>
    set (pure_data_nodes cfg) = set (data_nodes cfg) - fst ` set (compute_nodes cfg) \<and>
    set (pure_result_nodes cfg) =
      set (result_nodes cfg) - fst ` set (compute_nodes cfg) - set (data_nodes cfg)"
proof -
  obtain c where c: "cfg = process_node_type c" "ok" using parse_doc_parsed [OF assms] by blast
  have "set (pure_data_nodes cfg) = set (data_nodes c) - fst ` set (compute_nodes c)"
    and "set (pure_result_nodes cfg) = set (result_nodes c) - fst ` set (compute_nodes c) - set (data_nodes c)"
    using c(1) by (auto simp: process_node_type_def Let_def erase_if_filter map_of_dom simp del: not_None_eq)
  with c primary_type_process [of c i] show ?thesis by simp
qed

theorem every_node_has_one_type_witness:
  "\<exists>cfg. parse_doc sample_doc new_config = Inr (True, cfg) \<and>
     GetPrimaryNodeType cfg ''d0'' = NODE_TYPE_DATA \<and> GetPrimaryNodeType cfg ''p1'' = NODE_TYPE_COMPUTE"
proof -
  obtain cfg where c: "parse_doc sample_doc new_config = Inr (True, cfg)"
    "fst ` set (compute_nodes cfg) = {''p0'', ''p1''}" "data_nodes cfg = [''d0'', ''p1'']"
    by (rule sample_config)
  from every_node_has_one_type [OF c(1), of "''d0''"] every_node_has_one_type [OF c(1), of "''p1''"] c
  show ?thesis by auto
qed

text \<open>\<open>GetNode\<close> returns the description of a node under exactly its own id, for every node that is
  in one of the groups and described in \<open>NODE_INFO\<close>, and throws for every other id.\<close>

theorem get_node_returns_description:
  assumes "parse_doc doc new_config = Inr (ok, cfg)"
  shows "case std_find (node_info_config cfg) i of
      None \<Rightarrow> GetNode cfg i = Inl (other_exp ''can not find node in config!'')
    | Some n \<Rightarrow> NODE_ID n = i \<and> GetNode cfg i =
        (if GetPrimaryNodeType cfg i \<noteq> NODE_TYPE_INVALID then Inr n
         else Inl (other_exp ''can not find node in config!''))"
proof -
  obtain c where c: "parsed c" "cfg = process_node_type c" using parse_doc_parsed [OF assms] by blast
  then have "info_ok (node_info_config c)" by (simp add: parsed_def)
  with c get_node_process [OF c(1), of i] show ?thesis by (auto dest: info_okD split: option.splits)
qed

theorem get_node_returns_description_witness:
  "\<exists>cfg n. parse_doc sample_doc new_config = Inr (True, cfg) \<and> std_find (node_info_config cfg) ''p1'' = Some n \<and>
     PORT n = 11122 \<and> NODE_ID n = ''p1''"
proof -
  obtain cfg where c: "parse_doc sample_doc new_config = Inr (True, cfg)"
    "map_option PORT (std_find (node_info_config cfg) ''p1'') = Some 11122"
    by (rule sample_config)
  from get_node_returns_description [OF c(1), of "''p1''"] c show ?thesis
    by (auto split: option.splits)
qed

text \<open>The time-out is given in seconds and kept in milliseconds, in an \<open>int\<close>.\<close>

lemma connect_timeout_wraps:
  "map_sum id connect_timeout (parse_connect_params
     (JObject [(''CONNECT_PARAMS'', JObject [(''TIMEOUT'', JInt 2147484)])]) new_config) = Inr (-2147483296)"
  by code_simp

end
