(* ===== verification/Topology.thy ===== *)
theory Topology
  imports Config
begin

text \<open>
  Who connects to whom: the part of \<open>CreateInternalChannel\<close> (\<open>channel.cpp\<close>) that turns the configuration
  into the nodes a node dials (\<open>serverInfos\<close>) and the nodes it waits for (\<open>clientInfos\<close>), and the part
  of \<open>BasicIO::init\<close> and \<open>CreateChannel\<close> that orders them.

  Every node of a task runs this on its own; the properties say that two nodes come to matching
  conclusions.
\<close>

section \<open>Dialling or waiting\<close>

definition CopyNodeInfo :: "Node \<Rightarrow> NodeInfo" where
  "CopyNodeInfo src = \<lparr>nid = NODE_ID src, address = HOST src, port = PORT src\<rparr>"

definition dials :: "bytes \<Rightarrow> Node \<Rightarrow> NodeInfo \<Rightarrow> bool" where
  "dials this node tmp \<longleftrightarrow> PORT node \<le> 0 \<or> (0 < port tmp \<and> this < nid tmp)"

text \<open>The loop body shared by all groups, over \<open>(serverInfos, clientInfos)\<close>.\<close>

fun split_infos :: "bytes \<Rightarrow> Node \<Rightarrow> Node list \<Rightarrow> NodeInfo list \<times> NodeInfo list \<Rightarrow>
    NodeInfo list \<times> NodeInfo list" where
  "split_infos this node [] acc = acc"
| "split_infos this node (n # P) (servers, clients) =
    (let tmp = CopyNodeInfo n in
     if dials this node tmp then split_infos this node P (servers @ [tmp], clients)
     else split_infos this node P (servers, clients @ [tmp]))"

definition channel_peers :: "ChannelConfig \<Rightarrow> bytes \<Rightarrow> (NodeInfo \<times> NodeInfo list \<times> NodeInfo list) res" where
  "channel_peers config this =
    bindE (GetNode config this) (\<lambda>node.
    bindE (case GetPrimaryNodeType config this of
        NODE_TYPE_DATA \<Rightarrow> Inr (split_infos this node (compute_config config) ([], []))
      | NODE_TYPE_COMPUTE \<Rightarrow>
          Inr (split_infos this node (result_config config)
            (split_infos this node (filter (\<lambda>n. this \<noteq> NODE_ID n) (compute_config config))
              (split_infos this node (data_config config) ([], []))))
      | NODE_TYPE_RESULT \<Rightarrow> Inr (split_infos this node (compute_config config) ([], []))
      | NODE_TYPE_INVALID \<Rightarrow> Inl (other_exp ''can not find node in config file!''))
    (\<lambda>(servers, clients). Inr (CopyNodeInfo node, clients, servers)))"

text \<open>\<open>connected_nodes\<close> of \<open>CreateChannel\<close>: the clients, then the servers.\<close>

definition connected_node_ids :: "NodeInfo list \<Rightarrow> NodeInfo list \<Rightarrow> bytes list" where
  "connected_node_ids clientInfos serverInfos = map nid clientInfos @ map nid serverInfos"

section \<open>Lemmas\<close>

lemma split_infos_filter:
  "split_infos this node P (sv, cl) =
    (sv @ filter (dials this node) (map CopyNodeInfo P),
     cl @ filter (\<lambda>t. \<not> dials this node t) (map CopyNodeInfo P))"
  by (induction P arbitrary: sv cl) (simp_all add: Let_def)

text \<open>The peers of a node, by the types of the two nodes.\<close>

definition peer_types :: "NODE_TYPE \<Rightarrow> NODE_TYPE \<Rightarrow> bool" where
  "peer_types s t \<longleftrightarrow>
     s = NODE_TYPE_COMPUTE \<and> t \<in> {NODE_TYPE_DATA, NODE_TYPE_COMPUTE, NODE_TYPE_RESULT} \<or>
     t = NODE_TYPE_COMPUTE \<and> s \<in> {NODE_TYPE_DATA, NODE_TYPE_COMPUTE, NODE_TYPE_RESULT}"

lemma peer_types_sym: "peer_types s t \<longleftrightarrow> peer_types t s"
  by (auto simp: peer_types_def)

definition peer_nodes :: "ChannelConfig \<Rightarrow> bytes \<Rightarrow> Node list" where
  "peer_nodes config this =
    (case GetPrimaryNodeType config this of
        NODE_TYPE_COMPUTE \<Rightarrow> data_config config @ filter (\<lambda>n. this \<noteq> NODE_ID n) (compute_config config) @
          result_config config
      | NODE_TYPE_INVALID \<Rightarrow> [] | _ \<Rightarrow> compute_config config)"

lemma channel_peers_eq:
  "channel_peers config this =
    bindE (GetNode config this) (\<lambda>node.
      if GetPrimaryNodeType config this = NODE_TYPE_INVALID
      then Inl (other_exp ''can not find node in config file!'')
      else Inr (CopyNodeInfo node,
        filter (\<lambda>t. \<not> dials this node t) (map CopyNodeInfo (peer_nodes config this)),
        filter (dials this node) (map CopyNodeInfo (peer_nodes config this))))"
  by (cases "GetPrimaryNodeType config this")
    (simp_all add: channel_peers_def peer_nodes_def split_infos_filter)

text \<open>The groups of a parsed configuration hold the described nodes of their type.\<close>

lemma group_nodes:
  assumes "parse_doc doc new_config = Inr (ok, config)"
  shows "n \<in> set (data_config config) \<longleftrightarrow> std_find (node_info_config config) (NODE_ID n) = Some n \<and>
      GetPrimaryNodeType config (NODE_ID n) = NODE_TYPE_DATA"
    and "n \<in> set (compute_config config) \<longleftrightarrow> std_find (node_info_config config) (NODE_ID n) = Some n \<and>
      GetPrimaryNodeType config (NODE_ID n) = NODE_TYPE_COMPUTE"
    and "n \<in> set (result_config config) \<longleftrightarrow> std_find (node_info_config config) (NODE_ID n) = Some n \<and>
      GetPrimaryNodeType config (NODE_ID n) = NODE_TYPE_RESULT"
proof -
  obtain c where c: "parsed c" "config = process_node_type c" using parse_doc_parsed [OF assms] by blast
  then have info: "info_ok (node_info_config c)"
    and comp: "compute_config c = known_nodes (node_info_config c) (map fst (compute_nodes c))"
    by (simp_all add: parsed_def)
  show "n \<in> set (data_config config) \<longleftrightarrow> std_find (node_info_config config) (NODE_ID n) = Some n \<and>
      GetPrimaryNodeType config (NODE_ID n) = NODE_TYPE_DATA"
    and "n \<in> set (compute_config config) \<longleftrightarrow> std_find (node_info_config config) (NODE_ID n) = Some n \<and>
      GetPrimaryNodeType config (NODE_ID n) = NODE_TYPE_COMPUTE"
    and "n \<in> set (result_config config) \<longleftrightarrow> std_find (node_info_config config) (NODE_ID n) = Some n \<and>
      GetPrimaryNodeType config (NODE_ID n) = NODE_TYPE_RESULT"
    unfolding c(2) process_configs [OF c(1)] process_fields primary_type_process
    using known_nodes_find [OF info] by (simp_all add: comp)
qed

lemma peer_node_iff:
  assumes "parse_doc doc new_config = Inr (ok, config)"
  shows "n \<in> set (peer_nodes config this) \<longleftrightarrow> std_find (node_info_config config) (NODE_ID n) = Some n \<and>
    NODE_ID n \<noteq> this \<and> peer_types (GetPrimaryNodeType config this) (GetPrimaryNodeType config (NODE_ID n))"
  by (cases "GetPrimaryNodeType config this")
    (auto simp: peer_nodes_def peer_types_def group_nodes [OF assms])

lemma get_node_found:
  assumes "parse_doc doc new_config = Inr (ok, config)" and "GetNode config i = Inr n"
  shows "std_find (node_info_config config) i = Some n" and "NODE_ID n = i"
    and "GetPrimaryNodeType config i \<noteq> NODE_TYPE_INVALID"
proof -
  obtain c where c: "parsed c" "config = process_node_type c" using parse_doc_parsed [OF assms(1)] by blast
  have "case std_find (node_info_config c) i of None \<Rightarrow> False
     | Some m \<Rightarrow> m = n \<and> GetPrimaryNodeType config i \<noteq> NODE_TYPE_INVALID"
    using get_node_process [OF c(1), of i] assms(2) c(2) by (auto split: option.splits if_splits)
  with c show "std_find (node_info_config config) i = Some n"
    and "GetPrimaryNodeType config i \<noteq> NODE_TYPE_INVALID"
    by (auto split: option.splits)
  then have "std_find (node_info_config c) i = Some n" using c(2) by simp
  moreover have "info_ok (node_info_config c)" using c(1) by (simp add: parsed_def)
  ultimately show "NODE_ID n = i" by (rule info_okD [rotated])
qed

text \<open>Whether \<open>b\<close> is among the nodes \<open>a\<close> dials, or waits for.\<close>

lemma channel_peers_sides:
  assumes "parse_doc doc new_config = Inr (ok, config)"
    and "channel_peers config a = Inr (ia, clients, servers)" and "GetNode config b = Inr nb"
  shows "\<exists>na. GetNode config a = Inr na \<and>
    (b \<in> nid ` set servers \<longleftrightarrow> a \<noteq> b \<and>
      peer_types (GetPrimaryNodeType config a) (GetPrimaryNodeType config b) \<and> dials a na (CopyNodeInfo nb)) \<and>
    (b \<in> nid ` set clients \<longleftrightarrow> a \<noteq> b \<and>
      peer_types (GetPrimaryNodeType config a) (GetPrimaryNodeType config b) \<and> \<not> dials a na (CopyNodeInfo nb))"
proof -
  obtain na where na: "GetNode config a = Inr na"
    and lists: "clients = filter (\<lambda>t. \<not> dials a na t) (map CopyNodeInfo (peer_nodes config a))"
      "servers = filter (dials a na) (map CopyNodeInfo (peer_nodes config a))"
    using assms(2) by (auto simp: channel_peers_eq bindE_eq_Inr split: if_splits)
  note nb = get_node_found [OF assms(1,3)]
  have mem: "(\<exists>n \<in> set (peer_nodes config a). NODE_ID n = b \<and> P (CopyNodeInfo n)) \<longleftrightarrow>
      a \<noteq> b \<and> peer_types (GetPrimaryNodeType config a) (GetPrimaryNodeType config b) \<and> P (CopyNodeInfo nb)" for P
  proof -
    have "n = nb" if "n \<in> set (peer_nodes config a)" "NODE_ID n = b" for n
      using that peer_node_iff [OF assms(1), of n a] nb(1) by simp
    moreover have "nb \<in> set (peer_nodes config a) \<longleftrightarrow>
        b \<noteq> a \<and> peer_types (GetPrimaryNodeType config a) (GetPrimaryNodeType config b)"
      using peer_node_iff [OF assms(1), of nb a] nb by simp
    ultimately show ?thesis using nb(2) by blast
  qed
  have side: "b \<in> nid ` set (filter P (map CopyNodeInfo ns)) \<longleftrightarrow>
      (\<exists>n \<in> set ns. NODE_ID n = b \<and> P (CopyNodeInfo n))" for P ns
    by (auto simp: CopyNodeInfo_def image_iff)
  have "b \<in> nid ` set servers \<longleftrightarrow> a \<noteq> b \<and>
      peer_types (GetPrimaryNodeType config a) (GetPrimaryNodeType config b) \<and> dials a na (CopyNodeInfo nb)"
    unfolding lists(2) side by (rule mem)
  moreover have "b \<in> nid ` set clients \<longleftrightarrow> a \<noteq> b \<and>
      peer_types (GetPrimaryNodeType config a) (GetPrimaryNodeType config b) \<and> \<not> dials a na (CopyNodeInfo nb)"
    unfolding lists(1) side by (rule mem)
  ultimately show ?thesis using na by blast
qed

text \<open>An id has one description, so a node is not both dialled and waited for.\<close>

lemma channel_peers_info:
  assumes "parse_doc doc new_config = Inr (ok, config)"
    and "channel_peers config a = Inr (ia, clients, servers)"
    and "x \<in> set clients \<union> set servers" and "GetNode config (nid x) = Inr n"
  shows "x = CopyNodeInfo n"
proof -
  obtain m where m: "m \<in> set (peer_nodes config a)" "x = CopyNodeInfo m"
    using assms(2,3) by (auto simp: channel_peers_eq bindE_eq_Inr split: if_splits)
  then have "std_find (node_info_config config) (nid x) = Some m"
    using peer_node_iff [OF assms(1), of m a] by (simp add: CopyNodeInfo_def)
  then show ?thesis using get_node_found(1) [OF assms(1,4)] m(2) by simp
qed

lemma dialled_info:
  assumes "parse_doc doc new_config = Inr (ok, config)"
    and "channel_peers config a = Inr (ia, clients, servers)" and "GetNode config b = Inr nb"
  shows "CopyNodeInfo nb \<in> set servers \<longleftrightarrow> b \<in> nid ` set servers"
proof
  have "nid (CopyNodeInfo nb) = b" using get_node_found(2) [OF assms(1,3)] by (simp add: CopyNodeInfo_def)
  then show "CopyNodeInfo nb \<in> set servers \<Longrightarrow> b \<in> nid ` set servers" by (metis image_eqI)
next
  assume "b \<in> nid ` set servers"
  then obtain x where x: "x \<in> set servers" "nid x = b" by auto
  then have "x = CopyNodeInfo nb" using channel_peers_info [OF assms(1,2), of x nb] assms(3) by simp
  with x show "CopyNodeInfo nb \<in> set servers" by simp
qed

lemma channel_peers_disjoint:
  assumes "parse_doc doc new_config = Inr (ok, config)"
    and "channel_peers config a = Inr (ia, clients, servers)"
  shows "nid ` set clients \<inter> nid ` set servers = {}"
proof -
  obtain na where lists: "clients = filter (\<lambda>t. \<not> dials a na t) (map CopyNodeInfo (peer_nodes config a))"
      "servers = filter (dials a na) (map CopyNodeInfo (peer_nodes config a))"
    using assms(2) by (auto simp: channel_peers_eq bindE_eq_Inr split: if_splits)
  have same: "m = n" if "m \<in> set (peer_nodes config a)" "n \<in> set (peer_nodes config a)" "NODE_ID m = NODE_ID n" for m n
    using that peer_node_iff [OF assms(1), of m a] peer_node_iff [OF assms(1), of n a] by simp
  show ?thesis
  proof (rule ccontr)
    assume "nid ` set clients \<inter> nid ` set servers \<noteq> {}"
    then obtain x y where xy: "x \<in> set clients" "y \<in> set servers" "nid x = nid y" by auto
    then obtain m n where mn: "m \<in> set (peer_nodes config a)" "x = CopyNodeInfo m"
      "n \<in> set (peer_nodes config a)" "y = CopyNodeInfo n" using lists by auto
    then have "x = y" using same [of m n] xy(3) by (simp add: CopyNodeInfo_def)
    then show False using xy(1,2) lists by auto
  qed
qed

lemma dials_exclusive:
  assumes "NODE_ID na = a" and "NODE_ID nb = b" and "a \<noteq> b" and "0 < PORT na \<or> 0 < PORT nb"
  shows "dials a na (CopyNodeInfo nb) \<longleftrightarrow> \<not> dials b nb (CopyNodeInfo na)"
  using assms by (auto simp: dials_def CopyNodeInfo_def)

section \<open>Properties\<close>

text \<open>Being connected is mutual: whatever the configuration, a node expects a connection with another
  one, in one direction or the other, exactly if that one expects a connection with it.\<close>

theorem peers_are_mutual:
  assumes "parse_doc doc new_config = Inr (ok, config)"
    and "channel_peers config a = Inr (ia, clients_a, servers_a)"
    and "channel_peers config b = Inr (ib, clients_b, servers_b)"
  shows "b \<in> set (connected_node_ids clients_a servers_a) \<longleftrightarrow>
    a \<in> set (connected_node_ids clients_b servers_b)"
proof -
  obtain na nb where n: "GetNode config a = Inr na" "GetNode config b = Inr nb"
    using assms(2,3) by (auto simp: channel_peers_eq bindE_eq_Inr)
  from channel_peers_sides [OF assms(1,2) n(2)] channel_peers_sides [OF assms(1,3) n(1)] n
  show ?thesis
    by (auto simp: connected_node_ids_def peer_types_sym [of "GetPrimaryNodeType config a"])
qed

lemma sample_peers:
  "(case parse_doc sample_doc new_config of Inl e \<Rightarrow> False | Inr (ok, cfg) \<Rightarrow>
     (case channel_peers cfg ''p0'' of Inl e \<Rightarrow> False | Inr (i, cl, sv) \<Rightarrow>
        map nid sv = [''p1'', ''r0''] \<and> map nid cl = [''d0'']) \<and>
     (case channel_peers cfg ''p1'' of Inl e \<Rightarrow> False | Inr (i, cl, sv) \<Rightarrow>
        map nid sv = [''r0''] \<and> map nid cl = [''d0'', ''p0'']) \<and>
     map_sum (\<lambda>e. e) PORT (GetNode cfg ''p0'') = Inr 11121 \<and>
     map_sum (\<lambda>e. e) PORT (GetNode cfg ''p1'') = Inr 11122)"
  by code_simp

lemma sample_channels:
  obtains cfg i0 cl0 sv0 i1 cl1 sv1 where "parse_doc sample_doc new_config = Inr (True, cfg)"
    "channel_peers cfg ''p0'' = Inr (i0, cl0, sv0)" "map nid sv0 = [''p1'', ''r0'']" "map nid cl0 = [''d0'']"
    "channel_peers cfg ''p1'' = Inr (i1, cl1, sv1)" "map nid sv1 = [''r0'']" "map nid cl1 = [''d0'', ''p0'']"
    "map_sum (\<lambda>e. e) PORT (GetNode cfg ''p0'') = Inr 11121"
    "map_sum (\<lambda>e. e) PORT (GetNode cfg ''p1'') = Inr 11122"
proof -
  obtain cfg where c: "parse_doc sample_doc new_config = Inr (True, cfg)" by (rule sample_config)
  with sample_peers that show thesis by (auto split: sum.splits prod.splits)
qed

theorem peers_are_mutual_witness:
  "\<exists>cfg i0 cl0 sv0 i1 cl1 sv1. channel_peers cfg ''p0'' = Inr (i0, cl0, sv0) \<and>
     channel_peers cfg ''p1'' = Inr (i1, cl1, sv1) \<and> ''p1'' \<in> set (connected_node_ids cl0 sv0) \<and>
     ''p0'' \<in> set (connected_node_ids cl1 sv1)"
proof (rule sample_channels)
  fix cfg i0 cl0 sv0 i1 cl1 sv1
  assume a: "parse_doc sample_doc new_config = Inr (True, cfg)"
    "channel_peers cfg ''p0'' = Inr (i0, cl0, sv0)" "map nid sv0 = [''p1'', ''r0'']"
    "channel_peers cfg ''p1'' = Inr (i1, cl1, sv1)"
  have "''p1'' \<in> set (connected_node_ids cl0 sv0)" using a(3) by (simp add: connected_node_ids_def)
  with peers_are_mutual [OF a(1,2,4)] have "''p0'' \<in> set (connected_node_ids cl1 sv1)" by simp
  with a(2,4) \<open>''p1'' \<in> set (connected_node_ids cl0 sv0)\<close> show ?thesis by blast
qed

text \<open>Exactly one side dials: if at least one of two connected nodes has a listening port, one of them
  dials and the other one waits for it.\<close>

theorem exactly_one_side_dials:
  assumes "parse_doc doc new_config = Inr (ok, config)"
    and "channel_peers config a = Inr (ia, clients_a, servers_a)" and "GetNode config a = Inr na"
    and "channel_peers config b = Inr (ib, clients_b, servers_b)" and "GetNode config b = Inr nb"
    and "0 < PORT na \<or> 0 < PORT nb" and "b \<in> set (connected_node_ids clients_a servers_a)"
  shows "(b \<in> nid ` set servers_a \<and> a \<in> nid ` set clients_b) \<noteq>
      (a \<in> nid ` set servers_b \<and> b \<in> nid ` set clients_a) \<and>
    (b \<in> nid ` set servers_a \<longleftrightarrow> a \<in> nid ` set clients_b) \<and>
    (a \<in> nid ` set servers_b \<longleftrightarrow> b \<in> nid ` set clients_a)"
proof -
  have ids: "NODE_ID na = a" "NODE_ID nb = b"
    using get_node_found(2) [OF assms(1,3)] get_node_found(2) [OF assms(1,5)] by simp_all
  have ne: "a \<noteq> b" and types: "peer_types (GetPrimaryNodeType config a) (GetPrimaryNodeType config b)"
    using channel_peers_sides [OF assms(1,2,5)] assms(7) by (auto simp: connected_node_ids_def)
  note excl = dials_exclusive [OF ids ne assms(6)]
  from channel_peers_sides [OF assms(1,2,5)] channel_peers_sides [OF assms(1,4,3)] assms(3,5) ne types
    types [THEN peer_types_sym [THEN iffD1]] excl show ?thesis by auto
qed

theorem exactly_one_side_dials_witness:
  "\<exists>cfg i0 cl0 sv0 i1 cl1 sv1. channel_peers cfg ''p0'' = Inr (i0, cl0, sv0) \<and>
     channel_peers cfg ''p1'' = Inr (i1, cl1, sv1) \<and> ''p1'' \<in> nid ` set sv0 \<and> ''p0'' \<in> nid ` set cl1"
proof (rule sample_channels)
  fix cfg i0 cl0 sv0 i1 cl1 sv1
  assume a: "parse_doc sample_doc new_config = Inr (True, cfg)"
    "channel_peers cfg ''p0'' = Inr (i0, cl0, sv0)" "map nid sv0 = [''p1'', ''r0'']"
    "channel_peers cfg ''p1'' = Inr (i1, cl1, sv1)"
    and p: "map_sum (\<lambda>e. e) PORT (GetNode cfg ''p0'') = Inr 11121"
      "map_sum (\<lambda>e. e) PORT (GetNode cfg ''p1'') = Inr 11122"
  obtain n0 n1 where n: "GetNode cfg ''p0'' = Inr n0" "PORT n0 = 11121" "GetNode cfg ''p1'' = Inr n1"
    using p by (cases "GetNode cfg ''p0''"; cases "GetNode cfg ''p1''") auto
  have s: "''p1'' \<in> nid ` set sv0"
    using arg_cong [OF a(3), of set] by (simp only: set_map) simp
  then have m: "''p1'' \<in> set (connected_node_ids cl0 sv0)" by (simp add: connected_node_ids_def)
  have "0 < PORT n0 \<or> 0 < PORT n1" using n(2) by simp
  from exactly_one_side_dials [OF a(1,2) n(1) a(4) n(3) this m] s have "''p0'' \<in> nid ` set cl1" by blast
  with a(2,4) s show ?thesis by blast
qed

definition portless_doc :: json where
  "portless_doc = JObject
     [(''NODE_INFO'', JArray [sample_node ''p0'' 0, sample_node ''p1'' 0]),
      (''COMPUTATION_NODES'', JObject [(''p1'', JInt 1), (''p0'', JInt 0)])]"

lemma portless_peers:
  "(case parse_doc portless_doc new_config of Inl e \<Rightarrow> False | Inr (ok, cfg) \<Rightarrow>
     (case channel_peers cfg ''p0'' of Inl e \<Rightarrow> False | Inr (i, cl, sv) \<Rightarrow> map nid sv = [''p1''] \<and> cl = []) \<and>
     (case channel_peers cfg ''p1'' of Inl e \<Rightarrow> False | Inr (i, cl, sv) \<Rightarrow> map nid sv = [''p0''] \<and> cl = []) \<and>
     map_sum (\<lambda>e. e) PORT (GetNode cfg ''p0'') = Inr 0 \<and> map_sum (\<lambda>e. e) PORT (GetNode cfg ''p1'') = Inr 0)"
  by code_simp

text \<open>Two connected nodes without a listening port both dial each other and neither waits, so they can
  never meet.\<close>

theorem portless_nodes_never_meet:
  assumes "parse_doc doc new_config = Inr (ok, config)"
    and "channel_peers config a = Inr (ia, clients_a, servers_a)" and "GetNode config a = Inr na"
    and "channel_peers config b = Inr (ib, clients_b, servers_b)" and "GetNode config b = Inr nb"
    and "PORT na \<le> 0" and "PORT nb \<le> 0" and "b \<in> set (connected_node_ids clients_a servers_a)"
  shows "b \<in> nid ` set servers_a \<and> a \<in> nid ` set servers_b \<and>
    b \<notin> nid ` set clients_a \<and> a \<notin> nid ` set clients_b"
proof -
  have ne: "a \<noteq> b" and types: "peer_types (GetPrimaryNodeType config a) (GetPrimaryNodeType config b)"
    using channel_peers_sides [OF assms(1,2,5)] assms(8) by (auto simp: connected_node_ids_def)
  from channel_peers_sides [OF assms(1,2,5)] channel_peers_sides [OF assms(1,4,3)] assms(3,5,6,7) ne types
    types [THEN peer_types_sym [THEN iffD1]] show ?thesis by (auto simp: dials_def)
qed

theorem portless_nodes_never_meet_witness:
  "\<exists>cfg i0 cl0 sv0 i1 cl1 sv1. channel_peers cfg ''p0'' = Inr (i0, cl0, sv0) \<and>
     channel_peers cfg ''p1'' = Inr (i1, cl1, sv1) \<and> ''p1'' \<in> nid ` set sv0 \<and> ''p0'' \<in> nid ` set sv1"
proof -
  obtain ok cfg where c: "parse_doc portless_doc new_config = Inr (ok, cfg)"
    using portless_peers by (cases "parse_doc portless_doc new_config") auto
  note q = portless_peers [unfolded c, simplified]
  obtain i0 cl0 sv0 where a0: "channel_peers cfg ''p0'' = Inr (i0, cl0, sv0)" "map nid sv0 = [''p1'']"
    using q by (cases "channel_peers cfg ''p0''") auto
  obtain i1 cl1 sv1 where a1: "channel_peers cfg ''p1'' = Inr (i1, cl1, sv1)"
    using q by (cases "channel_peers cfg ''p1''") auto
  note a = c a0 a1
  have p: "map_sum (\<lambda>e. e) PORT (GetNode cfg ''p0'') = Inr 0"
      "map_sum (\<lambda>e. e) PORT (GetNode cfg ''p1'') = Inr 0"
    using q by simp_all
  obtain n0 n1 where n: "GetNode cfg ''p0'' = Inr n0" "PORT n0 = 0" "GetNode cfg ''p1'' = Inr n1" "PORT n1 = 0"
    using p by (cases "GetNode cfg ''p0''"; cases "GetNode cfg ''p1''") auto
  have m: "''p1'' \<in> set (connected_node_ids cl0 sv0)"
    using a(3) by (simp add: connected_node_ids_def)
  have "PORT n0 \<le> 0" "PORT n1 \<le> 0" using n by simp_all
  from portless_nodes_never_meet [OF a(1,2) n(1) a(4) n(3) this m] a(2,4) show ?thesis by blast
qed

end
