(* ===== verification/Hex_Codec.thy ===== *)
theory Hex_Codec
  imports IO_Prelude
begin

unbundle bit_operations_syntax

text \<open>
  Message ids are given to \<open>Send\<close> and \<open>Recv\<close> in hexadecimal and travel in binary:
  \<open>get_hex_index\<close>, \<open>get_char\<close>, \<open>get_binary_string\<close> and \<open>get_string\<close> of \<open>io_channel_impl.cpp\<close> (with
  \<open>DEBUG_MSG_ID\<close> 0, as \<open>internal_channel.h\<close> sets it). \<open>get_hex_char\<close> and \<open>get_hex_buffer\<close> of \<open>helper.h\<close>
  are the printing direction, used for the audit log.
\<close>

section \<open>Printing: helper.h\<close>

definition PRINT_HEX_SIZE :: nat where
  "PRINT_HEX_SIZE = 128"

text \<open>The argument is a \<open>char\<close> used as a number, the result is narrowed back to a \<open>char\<close>.\<close>

definition get_hex_char :: "int \<Rightarrow> char" where
  "get_hex_char p = (if 0 \<le> p \<and> p \<le> 9 then char_of (48 + p) else char_of (97 + (p - 10)))"

fun hex_digits :: "bytes \<Rightarrow> bytes" where
  "hex_digits [] = []"
| "hex_digits (c # cs) =
     [get_hex_char (of_char c div 16), get_hex_char (of_char c AND 0x0F)] @ hex_digits cs"

definition get_hex_buffer :: "bytes \<Rightarrow> bytes" where
  "get_hex_buffer buf =
    (let min_size = (if length buf < PRINT_HEX_SIZE then length buf else PRINT_HEX_SIZE);
         s = hex_digits (take min_size buf)
     in if min_size < length buf then s @ replicate 3 (CHR ''.'') else s)"

section \<open>Parsing: \<open>io_channel_impl.cpp\<close>\<close>

definition get_hex_index :: "char \<Rightarrow> int" where
  "get_hex_index c =
    (if CHR ''0'' \<le> c \<and> c \<le> CHR ''9'' then of_char c - 48
     else if CHR ''A'' \<le> c \<and> c \<le> CHR ''Z'' then 10 + of_char c - 65
     else if CHR ''a'' \<le> c \<and> c \<le> CHR ''z'' then 10 + of_char c - 97
     else 0)"

definition get_char :: "char \<Rightarrow> char \<Rightarrow> char" where
  "get_char c1 c2 = char_of (push_bit 4 (get_hex_index c1) OR get_hex_index c2)"

text \<open>The loop reads \<open>str[i]\<close> and \<open>str[i + 1]\<close> and writes \<open>ret[i / 2]\<close>. With an odd length its last
  round reads the terminator of \<open>str\<close> and writes the terminator of \<open>ret\<close>, which is undefined
  unless the value written is the terminator itself.\<close>

fun get_binary_string :: "bytes \<Rightarrow> bytes res" where
  "get_binary_string [] = Inr []"
| "get_binary_string [c] = (if get_char c (CHR 0x00) = CHR 0x00 then Inr [] else Inl Mem_Fault)"
| "get_binary_string (a # b # str) = bindE (get_binary_string str) (\<lambda>ret. Inr (get_char a b # ret))"

abbreviation get_string :: "bytes \<Rightarrow> bytes res" where
  "get_string \<equiv> get_binary_string"

section \<open>Lemmas\<close>

lemma length_hex_digits [simp]: "length (hex_digits cs) = 2 * length cs"
  by (induction cs) simp_all

lemma hex_index_char_all: "\<forall>p \<in> set [0..15]. get_hex_index (get_hex_char p) = p"
  by code_simp

lemma hex_index_char: "0 \<le> p \<Longrightarrow> p < 16 \<Longrightarrow> get_hex_index (get_hex_char p) = p"
  using hex_index_char_all by simp

lemma nibbles: "char_of (push_bit 4 (of_char c div 16) OR (of_char c AND 0x0F) :: int) = c"
proof -
  have "of_char c AND 0x0F = (of_char c mod 16 :: int)"
    using take_bit_eq_mask [of 4 "of_char c :: int"] by (simp add: take_bit_eq_mod mask_eq_exp_minus_1)
  moreover have "push_bit 4 (drop_bit 4 x) OR take_bit 4 x = x" for x :: int
    by (rule bit_eqI) (auto simp: bit_simps)
  ultimately show ?thesis
    by (simp add: drop_bit_eq_div take_bit_eq_mod)
qed

lemma get_char_hex:
  "get_char (get_hex_char (of_char c div 16)) (get_hex_char (of_char c AND 0x0F)) = c"
proof -
  have "of_char c < (256 :: int)" using nat_of_char_less_256 [of c] 
    by (metis of_nat_less_iff of_nat_numeral of_nat_of_char)
  moreover have "(0 :: int) \<le> of_char c" by (metis of_nat_0_le_iff of_nat_of_char)
  ultimately have "0 \<le> of_char c div (16 :: int)" "of_char c div (16 :: int) < 16" by auto
  moreover have "0 \<le> of_char c AND (0x0F :: int)" "of_char c AND (0x0F :: int) < 16"
    by (simp, rule order_le_less_trans [OF AND_upper2]) simp_all
  ultimately show ?thesis using nibbles [of c] by (simp add: get_char_def hex_index_char)
qed

lemma binary_of_hex_digits: "get_binary_string (hex_digits cs) = Inr cs"
  by (induction cs) (simp_all add: get_char_hex)

text \<open>The other direction, on the digits the printer uses.\<close>

definition lower_hex :: "bytes" where
  "lower_hex = ''0123456789abcdef''"

definition is_hex_id :: "bytes \<Rightarrow> bool" where
  "is_hex_id s \<longleftrightarrow> even (length s) \<and> set s \<subseteq> set lower_hex"

lemma lower_hex_index: "\<forall>a \<in> set lower_hex. get_hex_index a \<in> set [0..15] \<and> get_hex_char (get_hex_index a) = a"
  by code_simp

lemma digits_of_pair:
  assumes "a \<in> set lower_hex" and "b \<in> set lower_hex"
  shows "hex_digits [get_char a b] = [a, b]"
proof -
  let ?i = "get_hex_index a" and ?j = "get_hex_index b"
  have ij: "0 \<le> ?i" "?i < 16" "0 \<le> ?j" "?j < 16" and ab: "get_hex_char ?i = a" "get_hex_char ?j = b"
    using lower_hex_index assms by force+
  define c :: char where "c = char_of (16 * ?i + ?j)"
  have c: "of_char c = 16 * ?i + ?j" using ij by (simp add: c_def)
  have "of_char c AND 0x0F = (of_char c mod 16 :: int)"
    using take_bit_eq_mask [of 4 "of_char c :: int"] by (simp add: take_bit_eq_mod mask_eq_exp_minus_1)
  with c ij have "of_char c div 16 = ?i" and "of_char c AND 0x0F = ?j" by simp_all
  with ab get_char_hex [of c] show ?thesis by simp
qed

lemma is_hex_id_binary:
  "is_hex_id s \<Longrightarrow> \<exists>b. get_binary_string s = Inr b \<and> hex_digits b = s \<and> 2 * length b = length s"
proof (induction s rule: get_binary_string.induct)
  case (3 a b s)
  then have "is_hex_id s" and ab: "a \<in> set lower_hex" "b \<in> set lower_hex"
    by (auto simp: is_hex_id_def)
  then obtain t where "get_binary_string s = Inr t" "hex_digits t = s" "2 * length t = length s"
    using "3.IH" by auto
  moreover have "hex_digits [get_char a b] = [a, b]"
    using ab by (rule digits_of_pair)
  ultimately show ?case by simp
qed (simp_all add: is_hex_id_def)

lemma get_binary_string_inj:
  "is_hex_id s \<Longrightarrow> is_hex_id t \<Longrightarrow> get_binary_string s = get_binary_string t \<Longrightarrow> s = t"
  using is_hex_id_binary [of s] is_hex_id_binary [of t] by auto

section \<open>Properties\<close>

text \<open>A message id printed in hexadecimal is parsed back to the same bytes.\<close>

theorem hex_round_trip: "get_binary_string (hex_digits cs) = Inr cs"
  by (rule binary_of_hex_digits)

text \<open>Two different ids in lower-case hexadecimal, of even length, travel as different binary
  ids of half the length, so their messages are never mixed.\<close>

theorem hex_ids_stay_apart:
  assumes "is_hex_id s" and "is_hex_id t" and "s \<noteq> t"
  shows "\<exists>a b. get_string s = Inr a \<and> get_string t = Inr b \<and> a \<noteq> b \<and>
    2 * length a = length s \<and> 2 * length b = length t"
  using is_hex_id_binary [OF assms(1)] is_hex_id_binary [OF assms(2)]
    get_binary_string_inj [OF assms(1,2)] assms(3) by auto

theorem hex_ids_stay_apart_witness: "\<exists>a b. get_string ''00ff'' = Inr a \<and> get_string ''01ff'' = Inr b \<and> a \<noteq> b"
  using hex_ids_stay_apart [of "''00ff''" "''01ff''"] by (auto simp: is_hex_id_def lower_hex_def)

text \<open>An id that is not hexadecimal is not rejected: the letters beyond F and every other
  character have an index too, so different ids can become the same binary id.\<close>

theorem other_ids_collide:
  "get_string ''config str'' = get_string ''config@str'' \<and>
    get_string ''0G'' = get_string ''10'' \<and> get_string ''0G'' \<noteq> Inl Mem_Fault"
  by code_simp

end
