(* ===== verification/Net_IO.thy ===== *)
theory Net_IO
  imports Client Topology Hex_Codec
begin

text \<open>
  What a channel is made of: \<open>BasicIO\<close> of \<open>net_io.h\<close> and \<open>net_io.cpp\<close>, which joins one server and a client for
  every node to dial, and \<open>Send\<close> and \<open>Recv\<close> of \<open>TCPChannel\<close> (\<open>io_channel_impl.cpp\<close>), which translate the
  message id and use the connection of a node.

  \<open>BasicIO::init\<close> runs a thread for every peer. What such a thread does is \<open>conn_action\<close>; how it ends
  (the connection, or none when \<open>connect\<close> failed) is an argument, because \<open>Client\<close> and \<open>Server\<close> are
  its model.
\<close>

section \<open>State\<close>

record basic_io =
  io_task :: bytes
  io_node :: NodeInfo
  client_infos :: "NodeInfo list"
  server_infos :: "NodeInfo list"
  connection_map :: "(bytes \<times> conn_ptr option) list"

definition new_basic_io :: "bytes \<Rightarrow> NodeInfo \<Rightarrow> NodeInfo list \<Rightarrow> NodeInfo list \<Rightarrow> basic_io" where
  "new_basic_io task node cl sv = \<lparr>io_task = task, io_node = node, client_infos = cl, server_infos = sv,
     connection_map = []\<rparr>"

section \<open>Classes\<close>

text \<open>The classes that derive from \<open>BasicIO\<close> differ in \<open>init_inner\<close>, which sets \<open>is_ssl_io_\<close> and \<open>is_parallel_io_\<close>; the
  first chooses between TCP and TLS for the server and the clients \<open>init\<close> makes, nothing reads the second.\<close>

datatype io_class = NetIOInterface | SSLNetIO | ParallelNetIO | SSLParallelNetIO

record io_flags =
  is_ssl_io :: bool
  is_parallel_io :: bool

fun init_inner :: "io_class \<Rightarrow> io_flags" where
  "init_inner NetIOInterface = \<lparr>is_ssl_io = False, is_parallel_io = False\<rparr>"
| "init_inner SSLNetIO = \<lparr>is_ssl_io = True, is_parallel_io = False\<rparr>"
| "init_inner ParallelNetIO = \<lparr>is_ssl_io = False, is_parallel_io = True\<rparr>"
| "init_inner SSLParallelNetIO = \<lparr>is_ssl_io = True, is_parallel_io = True\<rparr>"

text \<open>\<open>CreateChannel\<close>: \<open>use_ssl\<close> is \<open>USE_SSL_SOCKET\<close>, \<open>enabled\<close> the flag of \<open>netutil\<close>.\<close>

definition channel_io_class :: "bool \<Rightarrow> bool \<Rightarrow> io_class" where
  "channel_io_class use_ssl enabled =
    (if use_ssl then (if enabled then SSLParallelNetIO else ParallelNetIO) else ParallelNetIO)"

lemma channel_uses_tls: "is_ssl_io (init_inner (channel_io_class use_ssl enabled)) \<longleftrightarrow> use_ssl \<and> enabled"
  by (simp add: channel_io_class_def)

section \<open>Initialisation\<close>

text \<open>The ids of the peers: those to dial, then those to wait for. The vector given to the server
  (\<open>set_expected_cids\<close>) holds the latter.\<close>

definition init_cids :: "basic_io \<Rightarrow> bytes list" where
  "init_cids io = map nid (client_infos io)"

definition init_sids :: "basic_io \<Rightarrow> bytes list" where
  "init_sids io = map nid (server_infos io)"

definition expected_ids :: "basic_io \<Rightarrow> bytes list" where
  "expected_ids io = init_sids io @ init_cids io"

datatype conn_action = Connect_To NodeInfo | Await_Client bytes | Do_Nothing

text \<open>The thread \<open>conn_f(i, j)\<close>: a node to dial is looked up by its position.\<close>

definition conn_action :: "basic_io \<Rightarrow> bytes \<Rightarrow> nat \<Rightarrow> conn_action res" where
  "conn_action io i j =
    (if i \<in> set (init_sids io) then
       (if j < length (server_infos io) then Inr (Connect_To (server_infos io ! j)) else Inl Mem_Fault)
     else if i \<in> set (init_cids io) then Inr (Await_Client i)
     else Inr Do_Nothing)"

fun conn_actions :: "basic_io \<Rightarrow> bytes list \<Rightarrow> nat \<Rightarrow> conn_action list res" where
  "conn_actions io [] j = Inr []"
| "conn_actions io (i # is) j =
     bindE (conn_action io i j) (\<lambda>a. bindE (conn_actions io is (Suc j)) (\<lambda>as. Inr (a # as)))"

text \<open>The end of one thread. Waiting for a client goes on until there is a connection.\<close>

definition conn_end :: "conn_action \<Rightarrow> bytes \<Rightarrow> conn_ptr option \<Rightarrow> bool \<times> basic_io \<Rightarrow> (bool \<times> basic_io) res" where
  "conn_end a i outcome = (\<lambda>(ok, io). case a of
     Connect_To info \<Rightarrow>
       (case outcome of
          None \<Rightarrow> Inr (False, io)
        | Some ptr \<Rightarrow> Inr (ok, io\<lparr>connection_map := std_assign i (Some ptr) (connection_map io)\<rparr>))
   | Await_Client c \<Rightarrow>
       (case outcome of
          None \<Rightarrow> Inl Would_Block
        | Some ptr \<Rightarrow> Inr (ok, io\<lparr>connection_map := std_assign i (Some ptr) (connection_map io)\<rparr>))
   | Do_Nothing \<Rightarrow> Inr (ok, io))"

fun conn_ends :: "conn_action list \<Rightarrow> bytes list \<Rightarrow> conn_ptr option list \<Rightarrow> bool \<times> basic_io \<Rightarrow>
    (bool \<times> basic_io) res" where
  "conn_ends (a # as) (i # is) (c # cs) r = bindE (conn_end a i c r) (conn_ends as is cs)"
| "conn_ends _ _ _ r = Inr r"

text \<open>\<open>init\<close>: \<open>server_ok\<close> is the result of starting the server, \<open>conns\<close> how the threads end.\<close>

definition basic_init :: "bool \<Rightarrow> conn_ptr option list \<Rightarrow> basic_io \<Rightarrow> (bool \<times> basic_io) res" where
  "basic_init server_ok conns io =
    (if \<not> server_ok then Inr (False, io)
     else let ids = expected_ids io;
              io1 = io\<lparr>connection_map := fold (\<lambda>i. std_insert i None) ids (connection_map io)\<rparr> in
       bindE (conn_actions io ids 0) (\<lambda>as. conn_ends as ids conns (True, io1)))"

section \<open>Sending and receiving\<close>

type_synonym conn_heap = "conn_ptr \<rightharpoonup> connection"

text \<open>\<open>connection_map[node_id]->\<close>: an unknown node gets a null pointer.\<close>

definition node_connection :: "basic_io \<Rightarrow> bytes \<Rightarrow> conn_heap \<Rightarrow> (conn_ptr \<times> connection) res" where
  "node_connection io node h =
    (case std_find (connection_map io) node of
       Some (Some ptr) \<Rightarrow> (case h ptr of None \<Rightarrow> Inl Mem_Fault | Some c \<Rightarrow> Inr (ptr, c))
     | _ \<Rightarrow> Inl Null_Deref)"

definition basic_recv :: "basic_io \<Rightarrow> bool \<Rightarrow> conn_heap \<Rightarrow> conn_state \<Rightarrow> int \<Rightarrow> bytes \<Rightarrow> bytes \<Rightarrow> u64 \<Rightarrow> int \<Rightarrow>
    (int \<times> bytes \<times> conn_heap) res" where
  "basic_recv io server_stopped h tmpstate elapsed node mid len timeout =
    (if server_stopped then Inl (socket_exp ''m server->stoped()'')
     else bindE (node_connection io node h) (\<lambda>(ptr, c).
       bindE (conn_recv tmpstate elapsed c mid len timeout) (\<lambda>(ret, data, c').
         Inr (ret, data, h(ptr \<mapsto> c')))))"

definition basic_send :: "basic_io \<Rightarrow> conn_heap \<Rightarrow> bytes \<Rightarrow> bytes \<Rightarrow> bytes \<Rightarrow> (int \<times> conn_heap) res" where
  "basic_send io h node mid data =
    bindE (node_connection io node h) (\<lambda>(ptr, c).
    bindE (send_msg c mid data) (\<lambda>(ret, c'). Inr (sint ret, h(ptr \<mapsto> c'))))"

text \<open>\<open>TCPChannel::Recv\<close> and \<open>Send\<close>: the id is given in hexadecimal.\<close>

definition Recv :: "basic_io \<Rightarrow> bool \<Rightarrow> conn_heap \<Rightarrow> conn_state \<Rightarrow> int \<Rightarrow> bytes \<Rightarrow> bytes \<Rightarrow> u64 \<Rightarrow> int \<Rightarrow>
    (int \<times> bytes \<times> conn_heap) res" where
  "Recv io server_stopped h tmpstate elapsed node hexid len timeout =
    bindE (get_string hexid) (\<lambda>mid. basic_recv io server_stopped h tmpstate elapsed node mid len timeout)"

definition Send :: "basic_io \<Rightarrow> conn_heap \<Rightarrow> bytes \<Rightarrow> bytes \<Rightarrow> bytes \<Rightarrow> (int \<times> conn_heap) res" where
  "Send io h node hexid data = bindE (get_string hexid) (\<lambda>mid. basic_send io h node mid data)"

text \<open>\<open>BasicIO::close\<close>: every client, then the server; the threads that close the clients are taken one
  after the other.\<close>

fun close_clients_of :: "tcp_client list \<Rightarrow> client_static \<Rightarrow> client_static res" where
  "close_clients_of [] st = Inr st"
| "close_clients_of (cl # cls) st = bindE (tcp_client_close cl st) (\<lambda>(_, st'). close_clients_of cls st')"

definition basic_close :: "tcp_client list \<Rightarrow> tcp_server option \<Rightarrow> client_static \<Rightarrow> server_static \<Rightarrow>
    (client_static \<times> server_static) res" where
  "basic_close cls srv cst sst =
    bindE (close_clients_of cls cst) (\<lambda>cst'.
    case srv of
      None \<Rightarrow> Inr (cst', sst)
    | Some s \<Rightarrow> bindE (server_stop s sst) (\<lambda>(_, sst'). Inr (cst', sst')))"

text \<open>Destroying a channel whose server never started throws.\<close>

lemma basic_close_failed_start:
  "server_start task ssl_ok init_ok (new_tcp_server cids) sst = (False, srv, sst') \<Longrightarrow>
   basic_close [] (Some srv) cst sst' = Inl system_error"
  by (auto simp: server_start_def new_tcp_server_def basic_close_def server_stop_def stop_join_def Let_def split: if_splits)

section \<open>What init does\<close>

lemma conn_actions_servers:
  assumes "set (map nid ns) \<subseteq> set (init_sids io)" and "j + length ns \<le> length (server_infos io)"
    and "ns = take (length ns) (drop j (server_infos io))"
  shows "conn_actions io (map nid ns @ is) j =
    bindE (conn_actions io is (j + length ns)) (\<lambda>as. Inr (map Connect_To ns @ as))"
  using assms
proof (induction ns arbitrary: j)
  case Nil
  then show ?case by (cases "conn_actions io is j") simp_all
next
  case (Cons n ns)
  have j: "j < length (server_infos io)" using Cons.prems(2) by simp
  then have "drop j (server_infos io) = server_infos io ! j # drop (Suc j) (server_infos io)"
    by (rule Cons_nth_drop_Suc [symmetric])
  with Cons.prems(3) have n: "n = server_infos io ! j" "ns = take (length ns) (drop (Suc j) (server_infos io))"
    by simp_all
  have "conn_action io (nid n) j = Inr (Connect_To n)"
    using Cons.prems(1) j n(1) by (simp add: conn_action_def)
  moreover have "conn_actions io (map nid ns @ is) (Suc j) =
      bindE (conn_actions io is (Suc j + length ns)) (\<lambda>as. Inr (map Connect_To ns @ as))"
    using Cons.prems(1,2) n(2) by (intro Cons.IH) auto
  ultimately show ?case by (cases "conn_actions io is (Suc j + length ns)") simp_all
qed

lemma conn_actions_clients:
  "set is \<subseteq> set (init_cids io) - set (init_sids io) \<Longrightarrow> conn_actions io is j = Inr (map Await_Client is)"
  by (induction "is" arbitrary: j) (simp_all add: conn_action_def)

text \<open>When no node is both dialled and waited for, the threads dial the one group and wait for the other.\<close>

lemma conn_actions_all:
  assumes "set (init_cids io) \<inter> set (init_sids io) = {}"
  shows "conn_actions io (expected_ids io) 0 =
    Inr (map Connect_To (server_infos io) @ map Await_Client (init_cids io))"
proof -
  have "conn_actions io (init_cids io) (length (server_infos io)) = Inr (map Await_Client (init_cids io))"
    using assms by (intro conn_actions_clients) auto
  then show ?thesis
    using conn_actions_servers [of "server_infos io" io 0 "init_cids io"]
    by (simp add: expected_ids_def init_sids_def)
qed

lemma sorted_fold_none:
  "sorted_map m \<Longrightarrow> sorted_map (fold (\<lambda>i. std_insert i None) ids m)"
  by (induction ids arbitrary: m) (simp_all add: std.valid_insert)

text \<open>The ends of the threads, when all of them got a connection.\<close>

lemma conn_ends_ok:
  assumes "length as = length is" and "length ptrs = length is" and "Do_Nothing \<notin> set as"
    and "sorted_map (connection_map io)"
  shows "\<exists>io'. conn_ends as is (map Some ptrs) (True, io) = Inr (True, io') \<and>
    sorted_map (connection_map io') \<and>
    std_find (connection_map io') = std_find (connection_map io) ++ map_of (rev (zip is (map Some ptrs)))"
  using assms
proof (induction as arbitrary: "is" ptrs io)
  case (Cons a as)
  obtain i "is'" p ptrs' where l: "is = i # is'" "ptrs = p # ptrs'"
    using Cons.prems(1,2) by (cases "is"; cases ptrs) auto
  let ?io = "io\<lparr>connection_map := std_assign i (Some p) (connection_map io)\<rparr>"
  have "conn_end a i (Some p) (True, io) = Inr (True, ?io)"
    using Cons.prems(3) by (cases a) (auto simp: conn_end_def)
  moreover obtain io' where "conn_ends as is' (map Some ptrs') (True, ?io) = Inr (True, io')"
    "sorted_map (connection_map io')"
    "std_find (connection_map io') = std_find (connection_map ?io) ++ map_of (rev (zip is' (map Some ptrs')))"
    using Cons.IH [of "is'" ptrs' ?io] Cons.prems l by (auto simp: std.valid_assign)
  ultimately show ?case
    using l Cons.prems(4) by (auto simp: std.find_assign map_add_def fun_eq_iff split: option.splits)
qed simp

lemma basic_init_ok:
  assumes "set (init_cids io) \<inter> set (init_sids io) = {}" and "length ptrs = length (expected_ids io)"
    and "sorted_map (connection_map io)" and "distinct (expected_ids io)"
  shows "\<exists>io'. basic_init True (map Some ptrs) io = Inr (True, io') \<and>
    (\<forall>j < length ptrs. std_find (connection_map io') (expected_ids io ! j) = Some (Some (ptrs ! j)))"
proof -
  let ?as = "map Connect_To (server_infos io) @ map Await_Client (init_cids io)"
  let ?io = "io\<lparr>connection_map := fold (\<lambda>i. std_insert i None) (expected_ids io) (connection_map io)\<rparr>"
  have as: "conn_actions io (expected_ids io) 0 = Inr ?as" by (rule conn_actions_all [OF assms(1)])
  have len: "length ?as = length (expected_ids io)" by (simp add: expected_ids_def init_sids_def)
  have "Do_Nothing \<notin> set ?as" by auto
  then obtain io' where io': "conn_ends ?as (expected_ids io) (map Some ptrs) (True, ?io) = Inr (True, io')"
    "std_find (connection_map io') = std_find (connection_map ?io) ++ map_of (rev (zip (expected_ids io) (map Some ptrs)))"
    using conn_ends_ok [OF len assms(2), of ?io] sorted_fold_none [OF assms(3)] by auto
  have "std_find (connection_map io') (expected_ids io ! j) = Some (Some (ptrs ! j))" if "j < length ptrs" for j
  proof -
    have "(expected_ids io ! j, Some (ptrs ! j)) \<in> set (rev (zip (expected_ids io) (map Some ptrs)))"
      using that assms(2) by (auto simp: set_zip intro!: exI [of _ j])
    moreover have "distinct (map fst (rev (zip (expected_ids io) (map Some ptrs))))"
      using assms(2,4) by (simp add: rev_map [symmetric])
    ultimately have "map_of (rev (zip (expected_ids io) (map Some ptrs))) (expected_ids io ! j) = Some (Some (ptrs ! j))"
      by (rule map_of_is_SomeI [rotated])
    then show ?thesis by (simp add: io'(2) map_add_def)
  qed
  then show ?thesis using as io'(1) by (auto simp: basic_init_def Let_def)
qed

end
