(* ===== verification/Channel_Link.thy ===== *)
theory Channel_Link
  imports Net_IO Delivery
begin

text \<open>
  Two channels of one task over a connection: \<open>Send\<close> on one side and \<open>Recv\<close> on the other, with the
  threads of the connection between them (\<open>Delivery\<close>). Ids are the hexadecimal strings the clients give.
  The lock messages of \<open>start\<close> and \<open>stop\<close> travel over the same connection under ids that begin with
  \<open>lock:\<close>; an id of a client whose binary form begins so is not \<open>plain_id\<close>. The lemmas carry the delivery of
  binary messages over to plain ids.
\<close>

section \<open>Two channels\<close>

record channel_pair =
  lnk :: link
  sent_log :: "(bytes \<times> bytes) list"      \<comment> \<open>what \<open>Send\<close> accepted: id and data\<close>
  received :: "bytes \<Rightarrow> bytes"            \<comment> \<open>what \<open>Recv\<close> returned, by id\<close>

definition new_pair :: "connection \<Rightarrow> connection \<Rightarrow> channel_pair" where
  "new_pair a b = \<lparr>lnk = new_link a b, sent_log = [], received = (\<lambda>_. [])\<rparr>"

text \<open>The messages the framing can carry, by hexadecimal id.\<close>

definition hex_msg_ok :: "bytes \<Rightarrow> bytes \<Rightarrow> bool" where
  "hex_msg_ok h d \<longleftrightarrow> is_hex_id h \<and> length h \<le> 508 \<and> (h \<noteq> [] \<or> d \<noteq> []) \<and>
     9 + length h div 2 + length d \<le> cb_limit"

text \<open>\<open>ioA\<close> sends to node \<open>b\<close> over the connection at \<open>pa\<close>, \<open>ioB\<close> receives from node \<open>a\<close> over the one at
  \<open>pb\<close>. The total sent stays below the limit of the buffers.\<close>

inductive channel_step :: "basic_io \<Rightarrow> basic_io \<Rightarrow> bytes \<Rightarrow> bytes \<Rightarrow> bytes \<Rightarrow> channel_pair \<Rightarrow> channel_pair \<Rightarrow> bool"
  for ioA ioB a b task where
  Channel_Send: "hex_msg_ok h d \<Longrightarrow>
    length (frames (sent (lnk s))) + 9 + length h div 2 + length d \<le> cb_limit \<Longrightarrow>
    Send ioA [pa \<mapsto> tx (lnk s)] b h d = Inr (n, hp) \<Longrightarrow> hp pa = Some c \<Longrightarrow> get_string h = Inr i \<Longrightarrow>
    channel_step ioA ioB a b task s
      (s\<lparr>lnk := (lnk s)\<lparr>tx := c, sent := sent (lnk s) @ [(i, d)]\<rparr>, sent_log := sent_log s @ [(h, d)]\<rparr>)"
| Channel_Recv: "is_hex_id h \<Longrightarrow>
    Recv ioB stopped [pb \<mapsto> rx (lnk s)] tmpstate elapsed a h len timeout = Inr (n, data, hp) \<Longrightarrow> 0 \<le> n \<Longrightarrow>
    hp pb = Some c \<Longrightarrow> get_string h = Inr i \<Longrightarrow>
    channel_step ioA ioB a b task s
      (s\<lparr>lnk := (lnk s)\<lparr>rx := c, got := (got (lnk s))(i := got (lnk s) i @ data)\<rparr>,
        received := (received s)(h := received s h @ data)\<rparr>)"
| Lock_Sent: "start_lock t (tx (lnk s)) = Inr c \<Longrightarrow> length (lock_id t) \<le> 254 \<Longrightarrow>
    length (frames (sent (lnk s) @ [(lock_id t, ''1'')])) \<le> cb_limit \<Longrightarrow>
    channel_step ioA ioB a b task s
      (s\<lparr>lnk := (lnk s)\<lparr>tx := c, sent := sent (lnk s) @ [(lock_id t, ''1'')]\<rparr>\<rparr>)"
| Lock_Received: "conn_recv (state (rx (lnk s))) 0 (stop_count (rx (lnk s))) (lock_id t) 1 (-1) = Inr (n, data, c) \<Longrightarrow>
    0 \<le> n \<Longrightarrow>
    channel_step ioA ioB a b task s
      (s\<lparr>lnk := (lnk s)\<lparr>rx := c, got := (got (lnk s))(lock_id t := got (lnk s) (lock_id t) @ data)\<rparr>\<rparr>)"
| Channel_Threads: "link_step task (lnk s) l \<Longrightarrow> sent l = sent (lnk s) \<Longrightarrow> got l = got (lnk s) \<Longrightarrow>
    channel_step ioA ioB a b task s (s\<lparr>lnk := l\<rparr>)"

section \<open>The connection underneath\<close>

text \<open>A client can use the id of a lock message: nothing keeps the two apart.\<close>

lemma lock_id_is_a_client_id: "get_string (hex_digits (lock_id t)) = Inr (lock_id t)"
  by (rule binary_of_hex_digits)

text \<open>The number of tasks of a connection does not matter to the data.\<close>

lemma link_inv_count:
  "link_inv task l \<Longrightarrow> link_inv task (l\<lparr>tx := (tx l)\<lparr>task_count := k\<rparr>\<rparr>)"
  "link_inv task l \<Longrightarrow> link_inv task (l\<lparr>rx := (rx l)\<lparr>task_count := k\<rparr>\<rparr>)"
  by (simp_all add: link_inv_def conn_repr_def stop_requested_def)

definition bin_id :: "bytes \<Rightarrow> bytes" where
  "bin_id h = projr (get_string h)"

lemma bin_id: "is_hex_id h \<Longrightarrow> get_string h = Inr (bin_id h)" "is_hex_id h \<Longrightarrow> 2 * length (bin_id h) = length h"
  using is_hex_id_binary [of h] by (auto simp: bin_id_def)

lemma bin_id_eq: "is_hex_id h \<Longrightarrow> is_hex_id g \<Longrightarrow> bin_id h = bin_id g \<longleftrightarrow> h = g"
  using bin_id(1) get_binary_string_inj [of h g] by metis

lemma hex_msg_ok_bin: "hex_msg_ok h d \<Longrightarrow> msg_ok (bin_id h, d)"
  using bin_id(2) [of h] by (auto simp: hex_msg_ok_def msg_ok_def)

lemma node_connection_single:
  "node_connection io node [p \<mapsto> c] = Inr (q, c') \<longleftrightarrow>
     std_find (connection_map io) node = Some (Some p) \<and> q = p \<and> c' = c"
  by (auto simp: node_connection_def split: option.splits if_splits)

lemma Send_Inr:
  assumes "Send io [p \<mapsto> c] node h d = Inr (n, hp)" and "hp p = Some c'" and "get_string h = Inr i"
  shows "\<exists>m. send_msg c i d = Inr (m, c') \<and> n = sint m"
  using assms by (auto simp: Send_def basic_send_def bindE_eq_Inr node_connection_single)

lemma Recv_Inr:
  assumes "Recv io st [p \<mapsto> c] ts el node h len timeout = Inr (n, data, hp)" and "hp p = Some c'"
    and "get_string h = Inr i"
  shows "conn_recv ts el c i len timeout = Inr (n, data, c') \<and> \<not> st"
  using assms by (auto simp: Recv_def basic_recv_def bindE_eq_Inr node_connection_single split: if_splits)

definition plain_id :: "bytes \<Rightarrow> bool" where
  "plain_id h \<longleftrightarrow> is_hex_id h \<and> take 5 (bin_id h) \<noteq> ''lock:''"

lemma plain_not_lock: "plain_id h \<Longrightarrow> lock_id t \<noteq> bin_id h"
  by (auto simp: plain_id_def lock_id_def dest: sym)

text \<open>The log and the received bytes agree with those of the link on plain ids.\<close>

definition pair_ok :: "bytes \<Rightarrow> channel_pair \<Rightarrow> bool" where
  "pair_ok task s \<longleftrightarrow> link_inv task (lnk s) \<and>
     (\<forall>h. plain_id h \<longrightarrow> payloads (sent (lnk s)) (bin_id h) = payloads (sent_log s) h \<and>
        received s h = got (lnk s) (bin_id h))"

lemma pair_ok_lock_sent:
  assumes "pair_ok task s" and "start_lock t (tx (lnk s)) = Inr c" and "length (lock_id t) \<le> 254"
    and "length (frames (sent (lnk s) @ [(lock_id t, ''1'')])) \<le> cb_limit"
  shows "link_inv task ((lnk s)\<lparr>tx := c, sent := sent (lnk s) @ [(lock_id t, ''1'')]\<rparr>)"
proof -
  let ?l = "(lnk s)\<lparr>tx := (tx (lnk s))\<lparr>task_count := task_count (tx (lnk s)) + 1\<rparr>\<rparr>"
  obtain n where "send_msg (tx ?l) (lock_id t) ''1'' = Inr (n, c)"
    using assms(2) by (auto simp: start_lock_def bindE_eq_Inr)
  moreover have "msg_ok (lock_id t, ''1'')" using assms(3) by (simp add: msg_ok_def cb_limit_def)
  ultimately have "link_step task ?l (?l\<lparr>tx := c, sent := sent ?l @ [(lock_id t, ''1'')]\<rparr>)"
    using assms(4) by (intro link_step.Send) simp_all
  moreover have "link_inv task ?l" using assms(1) link_inv_count unfolding pair_ok_def by blast
  ultimately have "link_inv task (?l\<lparr>tx := c, sent := sent ?l @ [(lock_id t, ''1'')]\<rparr>)"
    by (rule link_inv_step)
  then show ?thesis by simp
qed

lemma pair_ok_lock_received:
  assumes "pair_ok task s" and "0 \<le> n"
    and "conn_recv (state (rx (lnk s))) 0 (stop_count (rx (lnk s))) (lock_id t) 1 (-1) = Inr (n, data, c)"
  shows "link_inv task ((lnk s)\<lparr>rx := c, got := (got (lnk s))(lock_id t := got (lnk s) (lock_id t) @ data)\<rparr>)"
proof -
  let ?l = "(lnk s)\<lparr>rx := stop_count (rx (lnk s))\<rparr>"
  have "link_step task ?l (?l\<lparr>rx := c, got := (got ?l)(lock_id t := got ?l (lock_id t) @ data)\<rparr>)"
    using assms(2,3) by (intro link_step.Recv) simp_all
  moreover have "link_inv task ?l" using assms(1) link_inv_count unfolding pair_ok_def stop_count_def by blast
  ultimately have "link_inv task (?l\<lparr>rx := c, got := (got ?l)(lock_id t := got ?l (lock_id t) @ data)\<rparr>)"
    by (rule link_inv_step)
  then show ?thesis by simp
qed

lemma pair_ok_step: "channel_step ioA ioB a b task s s' \<Longrightarrow> pair_ok task s \<Longrightarrow> pair_ok task s'"
proof (induction rule: channel_step.induct)
  case (Channel_Send h d s pa n hp c i)
  have hex: "is_hex_id h" using Channel_Send(1) by (simp add: hex_msg_ok_def)
  have i: "i = bin_id h" using Channel_Send(5) by (simp add: bin_id_def)
  obtain m where "send_msg (tx (lnk s)) i d = Inr (m, c)" using Send_Inr [OF Channel_Send(3-5)] by blast
  moreover have "length (frames (sent (lnk s) @ [(i, d)])) \<le> cb_limit"
    using Channel_Send(2) bin_id(2) [OF hex] i by simp
  ultimately have "link_step task (lnk s) ((lnk s)\<lparr>tx := c, sent := sent (lnk s) @ [(i, d)]\<rparr>)"
    using hex_msg_ok_bin [OF Channel_Send(1)] i by (intro link_step.Send) simp_all
  then have "link_inv task ((lnk s)\<lparr>tx := c, sent := sent (lnk s) @ [(i, d)]\<rparr>)"
    using link_inv_step Channel_Send(6) unfolding pair_ok_def by blast
  then show ?case using Channel_Send(6) hex i by (auto simp: pair_ok_def bin_id_eq plain_id_def)
next
  case (Channel_Recv h stopped pb s ts el len timeout n data hp c i)
  have i: "i = bin_id h" using Channel_Recv(5) by (simp add: bin_id_def)
  have "conn_recv ts el (rx (lnk s)) i len timeout = Inr (n, data, c)"
    using Recv_Inr [OF Channel_Recv(2,4,5)] by blast
  from link_step.Recv [OF this Channel_Recv(3)]
  have "link_inv task ((lnk s)\<lparr>rx := c, got := (got (lnk s))(i := got (lnk s) i @ data)\<rparr>)"
    using link_inv_step Channel_Recv(6) unfolding pair_ok_def by blast
  then show ?case using Channel_Recv(6,1) i by (auto simp: pair_ok_def bin_id_eq plain_id_def)
next
  case (Lock_Sent t s c)
  then show ?case using pair_ok_lock_sent [OF Lock_Sent(4,1,2,3)] by (auto simp: pair_ok_def plain_not_lock)
next
  case (Lock_Received s t n data c)
  then show ?case using pair_ok_lock_received [OF Lock_Received(3,2,1)]
    by (auto simp: pair_ok_def plain_not_lock [symmetric])
next
  case (Channel_Threads s l)
  then show ?case using link_inv_step unfolding pair_ok_def by simp
qed

lemma pair_ok_reach:
  assumes "(channel_step ioA ioB a b task)\<^sup>*\<^sup>* (new_pair (new_connection f ev srv p) (new_connection f' ev' srv' p')) s"
  shows "pair_ok task s"
  using assms
proof (induction rule: rtranclp_induct)
  case base
  have "link_inv task (new_link (new_connection f ev srv p) (new_connection f' ev' srv' p'))"
    by (rule link_inv_reach) blast
  then show ?case by (simp add: pair_ok_def new_pair_def) (simp add: new_link_def)
qed (rule pair_ok_step)

lemma pair_ok_prefix:
  "pair_ok task s \<Longrightarrow> plain_id h \<Longrightarrow> \<exists>rest. payloads (sent_log s) h = received s h @ rest"
  using link_inv_prefix [of task "lnk s" "bin_id h"] by (simp add: pair_ok_def)

end
