(* ===== verification/Channel_Registry.thy ===== *)
theory Channel_Registry
  imports Topology
begin

text \<open>
  The process-wide state of \<open>channel.cpp\<close>: the pool of channels (\<open>g_channel2task\<close>), the tasks being
  created (\<open>g_creating_task\<close>) and the caches of encoded node ids that \<open>DestroyInternalChannel\<close> frees,
  with \<open>TCPChannel\<close> of \<open>io_channel_impl.h\<close>.

  Creation and destruction are split into their critical sections. Freeing the caches is one step: its five sections
  touch an entry each that nobody else uses any more.

  A pointer is a number; \<open>channels\<close> are the objects that are alive. The network initialisation
  between the two critical sections of \<open>CreateChannel\<close> is not part of this theory: it succeeds or
  fails, and the allocator gives a pointer that no live channel has.
\<close>

section \<open>State\<close>

record TCPChannel =
  task_id :: bytes
  this_node :: bytes              \<comment> \<open>\<open>node_id_\<close>\<close>
  config :: ChannelConfig
  connected_nodes :: "bytes list"

type_synonym pointer = nat

record registry =
  channel2task :: "(pointer \<times> bytes) list"
  creating_task :: "bytes set"
  channels :: "pointer \<rightharpoonup> TCPChannel"
  current_node_map :: "(pointer \<times> bytes) list"
  data_node_map :: "(pointer \<times> NodeIDVec) list"
  computation_node_map :: "(pointer \<times> NodeIDMap) list"
  result_node_map :: "(pointer \<times> NodeIDVec) list"
  connected_node_map :: "(pointer \<times> NodeIDVec) list"
  initialising :: "bytes set"     \<comment> \<open>the tasks some thread is inside \<open>CreateChannel\<close> for\<close>
  leaving :: "pointer set"        \<comment> \<open>the channels some thread is inside \<open>DestroyInternalChannel\<close> for, before \<ldots>\<close>
  freed :: "pointer set"          \<comment> \<open>\<ldots> and after their entries in the caches have been freed\<close>

definition new_registry :: registry where
  "new_registry = \<lparr>channel2task = [], creating_task = {}, channels = Map.empty, current_node_map = [],
     data_node_map = [], computation_node_map = [], result_node_map = [], connected_node_map = [],
     initialising = {}, leaving = {}, freed = {}\<rparr>"

section \<open>Creating\<close>

text \<open>The first critical section of \<open>CreateChannel\<close>: wait, look for the task in the pool, claim it.\<close>

fun find_task :: "bytes \<Rightarrow> (pointer \<times> bytes) list \<Rightarrow> pointer option" where
  "find_task task [] = None"
| "find_task task ((p, t) # m) = (if t = task then Some p else find_task task m)"

definition create_enter :: "bytes \<Rightarrow> registry \<Rightarrow> (pointer option \<times> registry) res" where
  "create_enter task r =
    (if task \<in> creating_task r then Inl Would_Block
     else case find_task task (channel2task r) of
         Some p \<Rightarrow> Inr (Some p, r)
       | None \<Rightarrow> Inr (None, r\<lparr>creating_task := insert task (creating_task r),
           initialising := insert task (initialising r)\<rparr>))"

text \<open>The end of \<open>CreateChannel\<close> when the initialisation succeeded: the second critical section.\<close>

definition create_finish :: "pointer \<Rightarrow> bytes \<Rightarrow> bytes \<Rightarrow> ChannelConfig \<Rightarrow> NodeInfo list \<Rightarrow> NodeInfo list \<Rightarrow>
    registry \<Rightarrow> (pointer \<times> registry) res" where
  "create_finish ptr task node cfg clientInfos serverInfos r =
    (let channel = \<lparr>task_id = task, this_node = node, config = cfg,
           connected_nodes = connected_node_ids clientInfos serverInfos\<rparr> in
     if task \<notin> creating_task r then Inl Null_Deref
     else Inr (ptr, r\<lparr>channel2task := std_insert ptr task (channel2task r),
       creating_task := creating_task r - {task}, initialising := initialising r - {task},
       channels := (channels r)(ptr \<mapsto> channel)\<rparr>))"

text \<open>The end when it failed: a null pointer, and nothing else.\<close>

definition create_fail :: "bytes \<Rightarrow> registry \<Rightarrow> pointer option \<times> registry" where
  "create_fail task r = (None, r\<lparr>initialising := initialising r - {task}\<rparr>)"

section \<open>Destroying\<close>

definition DestroyCurrentNode :: "pointer \<Rightarrow> registry \<Rightarrow> registry" where
  "DestroyCurrentNode p r = r\<lparr>current_node_map := std_erase p (current_node_map r)\<rparr>"

definition DestroyDataNodes :: "pointer \<Rightarrow> registry \<Rightarrow> registry" where
  "DestroyDataNodes p r = r\<lparr>data_node_map := std_erase p (data_node_map r)\<rparr>"

definition DestroyComputationNodes :: "pointer \<Rightarrow> registry \<Rightarrow> registry" where
  "DestroyComputationNodes p r = r\<lparr>computation_node_map := std_erase p (computation_node_map r)\<rparr>"

definition DestroyResultNodes :: "pointer \<Rightarrow> registry \<Rightarrow> registry" where
  "DestroyResultNodes p r = r\<lparr>result_node_map := std_erase p (result_node_map r)\<rparr>"

definition DestroyConnectedNodes :: "pointer \<Rightarrow> registry \<Rightarrow> registry" where
  "DestroyConnectedNodes p r = r\<lparr>connected_node_map := std_erase p (connected_node_map r)\<rparr>"

text \<open>The critical section that takes the channel out of the pool. An unknown channel is only logged before
  \<open>iter->second\<close> reads the end iterator.\<close>

definition erase_channel :: "pointer \<Rightarrow> registry \<Rightarrow> registry res" where
  "erase_channel p r =
    (case std_find (channel2task r) p of
       None \<Rightarrow> Inl Null_Deref
     | Some t \<Rightarrow> Inr (r\<lparr>channel2task := std_erase p (channel2task r), leaving := insert p (leaving r)\<rparr>))"

text \<open>Then, without the mutex of the pool, the entries of the caches are freed and the object is deleted, whose
  destructor stops the task.\<close>

definition free_caches :: "pointer \<Rightarrow> registry \<Rightarrow> registry" where
  "free_caches p r =
    (let r' = DestroyConnectedNodes p (DestroyResultNodes p (DestroyComputationNodes p
       (DestroyDataNodes p (DestroyCurrentNode p r))))
     in r'\<lparr>leaving := leaving r' - {p}, freed := insert p (freed r')\<rparr>)"

definition delete_channel :: "pointer \<Rightarrow> registry \<Rightarrow> registry" where
  "delete_channel p r = r\<lparr>channels := (channels r)(p := None), freed := freed r - {p}\<rparr>"

definition DestroyInternalChannel :: "pointer \<Rightarrow> registry \<Rightarrow> registry res" where
  "DestroyInternalChannel p r = bindE (erase_channel p r) (\<lambda>r1. Inr (delete_channel p (free_caches p r1)))"

section \<open>Node id queries\<close>

text \<open>The five getters of \<open>TCPChannel\<close> share this shape: encode once per channel, then the cache.\<close>

definition cached :: "pointer \<Rightarrow> (pointer \<times> 'v) list \<Rightarrow> 'v \<Rightarrow> 'v \<times> (pointer \<times> 'v) list" where
  "cached p m v = (case std_find m p of None \<Rightarrow> (v, std_insert p v m) | Some w \<Rightarrow> (w, m))"

definition live_channel :: "pointer \<Rightarrow> registry \<Rightarrow> TCPChannel res" where
  "live_channel p r = (case channels r p of None \<Rightarrow> Inl Mem_Fault | Some c \<Rightarrow> Inr c)"

text \<open>The value stored for a party is an \<open>int\<close>.\<close>

definition party_map :: "(bytes \<times> int) list \<Rightarrow> (bytes \<times> cint) list" where
  "party_map m = map (\<lambda>(i, v). (i, word_of_int v)) m"

definition getDataNodeIDs :: "TCPChannel \<Rightarrow> bytes list" where
  [simp]: "getDataNodeIDs c = data_nodes (config c)"

definition getComputationNodeIDs :: "TCPChannel \<Rightarrow> (bytes \<times> int) list" where
  [simp]: "getComputationNodeIDs c = compute_nodes (config c)"

definition getResultNodeIDs :: "TCPChannel \<Rightarrow> bytes list" where
  [simp]: "getResultNodeIDs c = result_nodes (config c)"

definition getCurrentNodeID :: "TCPChannel \<Rightarrow> bytes" where
  [simp]: "getCurrentNodeID c = this_node c"

definition getConnectedNodeIDs :: "TCPChannel \<Rightarrow> bytes list" where
  [simp]: "getConnectedNodeIDs c = connected_nodes c"

definition GetDataNodeIDs :: "pointer \<Rightarrow> registry \<Rightarrow> (NodeIDVec \<times> registry) res" where
  "GetDataNodeIDs p r = bindE (live_channel p r) (\<lambda>c.
     let (v, m) = cached p (data_node_map r) (encode_vector (getDataNodeIDs c))
     in Inr (v, r\<lparr>data_node_map := m\<rparr>))"

definition GetComputationNodeIDs :: "pointer \<Rightarrow> registry \<Rightarrow> (NodeIDMap \<times> registry) res" where
  "GetComputationNodeIDs p r = bindE (live_channel p r) (\<lambda>c.
     let (v, m) = cached p (computation_node_map r) (encode_map (party_map (getComputationNodeIDs c)))
     in Inr (v, r\<lparr>computation_node_map := m\<rparr>))"

definition GetResultNodeIDs :: "pointer \<Rightarrow> registry \<Rightarrow> (NodeIDVec \<times> registry) res" where
  "GetResultNodeIDs p r = bindE (live_channel p r) (\<lambda>c.
     let (v, m) = cached p (result_node_map r) (encode_vector (getResultNodeIDs c))
     in Inr (v, r\<lparr>result_node_map := m\<rparr>))"

definition GetCurrentNodeID :: "pointer \<Rightarrow> registry \<Rightarrow> (bytes \<times> registry) res" where
  "GetCurrentNodeID p r = bindE (live_channel p r) (\<lambda>c.
     let (v, m) = cached p (current_node_map r) (encode_string (getCurrentNodeID c))
     in Inr (v, r\<lparr>current_node_map := m\<rparr>))"

definition GetConnectedNodeIDs :: "pointer \<Rightarrow> registry \<Rightarrow> (NodeIDVec \<times> registry) res" where
  "GetConnectedNodeIDs p r = bindE (live_channel p r) (\<lambda>c.
     let (v, m) = cached p (connected_node_map r) (encode_vector (getConnectedNodeIDs c))
     in Inr (v, r\<lparr>connected_node_map := m\<rparr>))"

section \<open>Interleaving\<close>

text \<open>\<open>DestroyInternalChannel\<close> is three steps. A client does not query a channel it has given to it.\<close>

definition registered :: "pointer \<Rightarrow> registry \<Rightarrow> bool" where
  "registered p r \<longleftrightarrow> std_find (channel2task r) p \<noteq> None"

inductive registry_step :: "registry \<Rightarrow> registry \<Rightarrow> bool" where
  Enter: "create_enter task r = Inr (None, r') \<Longrightarrow> registry_step r r'"
| Finish: "task \<in> initialising r \<Longrightarrow> channels r ptr = None \<Longrightarrow>
    create_finish ptr task node cfg cl sv r = Inr (p, r') \<Longrightarrow> registry_step r r'"
| Fail: "task \<in> initialising r \<Longrightarrow> create_fail task r = (p, r') \<Longrightarrow> registry_step r r'"
| Erase: "erase_channel p r = Inr r' \<Longrightarrow> registry_step r r'"
| Free: "p \<in> leaving r \<Longrightarrow> registry_step r (free_caches p r)"
| Delete: "p \<in> freed r \<Longrightarrow> registry_step r (delete_channel p r)"
| Get_Data: "registered p r \<Longrightarrow> GetDataNodeIDs p r = Inr (v, r') \<Longrightarrow> registry_step r r'"
| Get_Computation: "registered p r \<Longrightarrow> GetComputationNodeIDs p r = Inr (w, r') \<Longrightarrow> registry_step r r'"
| Get_Result: "registered p r \<Longrightarrow> GetResultNodeIDs p r = Inr (v, r') \<Longrightarrow> registry_step r r'"
| Get_Current: "registered p r \<Longrightarrow> GetCurrentNodeID p r = Inr (s, r') \<Longrightarrow> registry_step r r'"
| Get_Connected: "registered p r \<Longrightarrow> GetConnectedNodeIDs p r = Inr (v, r') \<Longrightarrow> registry_step r r'"

inductive_cases registry_stepE: "registry_step r r'"

lemma destroy_steps:
  assumes "DestroyInternalChannel p r = Inr r'"
  shows "registry_step\<^sup>*\<^sup>* r r'"
proof -
  obtain r1 where r1: "erase_channel p r = Inr r1" "r' = delete_channel p (free_caches p r1)"
    using assms by (auto simp: DestroyInternalChannel_def bindE_eq_Inr)
  have "p \<in> leaving r1" using r1(1) by (auto simp: erase_channel_def split: option.splits)
  then have "registry_step r1 (free_caches p r1)" by (rule Free)
  moreover have "p \<in> freed (free_caches p r1)" by (simp add: free_caches_def Let_def)
  then have "registry_step (free_caches p r1) r'" unfolding r1(2) by (rule Delete)
  ultimately show ?thesis using Erase [OF r1(1)] by (meson converse_rtranclp_into_rtranclp rtranclp.rtrancl_refl)
qed

section \<open>Invariant\<close>

text \<open>A cache only has entries of channels that are not being deleted, and they are what the channel would encode now.\<close>

definition cache_ok :: "(pointer \<rightharpoonup> TCPChannel) \<Rightarrow> (pointer \<times> 'v) list \<Rightarrow> (TCPChannel \<Rightarrow> 'v) \<Rightarrow> bool" where
  "cache_ok chans m enc \<longleftrightarrow> sorted_map m \<and>
     (\<forall>p v. std_find m p = Some v \<longrightarrow> (\<exists>c. chans p = Some c \<and> v = enc c))"

abbreviation enc_data :: "TCPChannel \<Rightarrow> NodeIDVec" where
  "enc_data c \<equiv> encode_vector (data_nodes (config c))"
abbreviation enc_computation :: "TCPChannel \<Rightarrow> NodeIDMap" where
  "enc_computation c \<equiv> encode_map (party_map (compute_nodes (config c)))"
abbreviation enc_result :: "TCPChannel \<Rightarrow> NodeIDVec" where
  "enc_result c \<equiv> encode_vector (result_nodes (config c))"
abbreviation enc_current :: "TCPChannel \<Rightarrow> bytes" where
  "enc_current c \<equiv> encode_string (this_node c)"
abbreviation enc_connected :: "TCPChannel \<Rightarrow> NodeIDVec" where
  "enc_connected c \<equiv> encode_vector (connected_nodes c)"

definition open_channels :: "registry \<Rightarrow> pointer \<rightharpoonup> TCPChannel" where
  "open_channels r = channels r |` (- freed r)"

definition caches_ok :: "registry \<Rightarrow> bool" where
  "caches_ok r \<longleftrightarrow> cache_ok (open_channels r) (data_node_map r) enc_data \<and>
     cache_ok (open_channels r) (computation_node_map r) enc_computation \<and>
     cache_ok (open_channels r) (result_node_map r) enc_result \<and>
     cache_ok (open_channels r) (current_node_map r) enc_current \<and>
     cache_ok (open_channels r) (connected_node_map r) enc_connected"

definition pool_ok :: "registry \<Rightarrow> bool" where
  "pool_ok r \<longleftrightarrow> sorted_map (channel2task r) \<and>
     std_find (channel2task r) = (\<lambda>p. if p \<in> leaving r \<union> freed r then None else map_option task_id (channels r p)) \<and>
     leaving r \<union> freed r \<subseteq> dom (channels r) \<and> leaving r \<inter> freed r = {} \<and>
     (\<forall>p q t. std_find (channel2task r) p = Some t \<and> std_find (channel2task r) q = Some t \<longrightarrow> p = q) \<and>
     (\<forall>p t. std_find (channel2task r) p = Some t \<longrightarrow> t \<notin> creating_task r) \<and>
     initialising r \<subseteq> creating_task r"

lemma cache_ok_cached:
  assumes "cache_ok chans m enc" and "chans p = Some c" and "cached p m (enc c) = (v, m')"
  shows "v = enc c \<and> cache_ok chans m' enc"
proof (cases "std_find m p")
  case None
  have sorted: "sorted_map m" using assms(1) by (simp add: cache_ok_def)
  have "v = enc c" "m' = std_insert p (enc c) m" using assms(3) None by (auto simp: cached_def)
  moreover have "cache_ok chans (std_insert p (enc c) m) enc"
    using assms(1,2) None std.valid_insert [OF sorted] by (auto simp: cache_ok_def std.find_insert [OF sorted])
  ultimately show ?thesis by simp
next
  case (Some w)
  then have "v = w" "m' = m" using assms(3) by (simp_all add: cached_def)
  moreover have "w = enc c" using assms(1,2) Some unfolding cache_ok_def by fastforce
  ultimately show ?thesis using assms(1) by simp
qed

lemma cache_ok_erase: "cache_ok chans m enc \<Longrightarrow> cache_ok (chans(p := None)) (std_erase p m) enc"
  by (auto simp: cache_ok_def std.find_erase std.valid_erase)

lemma cache_ok_new: "cache_ok chans m enc \<Longrightarrow> chans p = None \<Longrightarrow> cache_ok (chans(p \<mapsto> c)) m enc"
  by (fastforce simp: cache_ok_def)

lemma find_task_None: "find_task t m = None \<longleftrightarrow> t \<notin> snd ` set m"
  by (induction t m rule: find_task.induct) auto

lemma find_task_Some: "sorted_map m \<Longrightarrow> find_task t m = Some p \<Longrightarrow> std_find m p = Some t"
proof (induction t m rule: find_task.induct)
  case (2 task p' t m)
  show ?case
  proof (cases "t = task")
    case False
    then have "find_task task m = Some p" using "2.prems"(2) by simp
    with "2.IH" [OF False] "2.prems"(1) have f: "std_find m p = Some task" by (simp add: sorted_map_Cons)
    then have "p' \<noteq> p" using sorted_map_less [OF "2.prems"(1), of p] by auto
    with f show ?thesis by simp
  qed (use "2.prems"(2) in simp)
qed simp

lemma find_task_absent: "find_task t m = None \<Longrightarrow> std_find m p \<noteq> Some t"
proof
  assume "find_task t m = None" and "std_find m p = Some t"
  from map_of_SomeD [OF this(2)] this(1) show False by (force simp: find_task_None)
qed

lemma registry_inv_new: "pool_ok new_registry" "caches_ok new_registry"
  by (simp_all add: new_registry_def pool_ok_def caches_ok_def cache_ok_def)

lemma pool_okD:
  assumes "pool_ok r"
  shows "sorted_map (channel2task r)"
    and "std_find (channel2task r) p = (if p \<in> leaving r \<union> freed r then None else map_option task_id (channels r p))"
    and "std_find (channel2task r) p = Some t \<Longrightarrow> std_find (channel2task r) q = Some t \<Longrightarrow> p = q"
    and "std_find (channel2task r) p = Some t \<Longrightarrow> t \<notin> creating_task r"
    and "t \<in> initialising r \<Longrightarrow> t \<in> creating_task r"
    and "leaving r \<union> freed r \<subseteq> dom (channels r)" and "leaving r \<inter> freed r = {}"
proof -
  show "sorted_map (channel2task r)" "leaving r \<union> freed r \<subseteq> dom (channels r)" "leaving r \<inter> freed r = {}"
    using assms by (simp_all add: pool_ok_def)
  have "std_find (channel2task r) = (\<lambda>p. if p \<in> leaving r \<union> freed r then None else map_option task_id (channels r p))"
    using assms by (simp only: pool_ok_def)
  then show "std_find (channel2task r) p = (if p \<in> leaving r \<union> freed r then None else map_option task_id (channels r p))"
    by (rule fun_cong)
  show "std_find (channel2task r) p = Some t \<Longrightarrow> std_find (channel2task r) q = Some t \<Longrightarrow> p = q"
    and "std_find (channel2task r) p = Some t \<Longrightarrow> t \<notin> creating_task r"
    and "t \<in> initialising r \<Longrightarrow> t \<in> creating_task r"
    using assms unfolding pool_ok_def by blast+
qed

lemma pool_okI:
  assumes "sorted_map (channel2task r)"
    and "\<And>p. std_find (channel2task r) p = (if p \<in> leaving r \<union> freed r then None else map_option task_id (channels r p))"
    and "\<And>p q t. std_find (channel2task r) p = Some t \<Longrightarrow> std_find (channel2task r) q = Some t \<Longrightarrow> p = q"
    and "\<And>p t. std_find (channel2task r) p = Some t \<Longrightarrow> t \<notin> creating_task r"
    and "initialising r \<subseteq> creating_task r"
    and "leaving r \<union> freed r \<subseteq> dom (channels r)" and "leaving r \<inter> freed r = {}"
  shows "pool_ok r"
  unfolding pool_ok_def using assms by blast

lemma create_enter_None:
  "create_enter task r = Inr (None, r') \<longleftrightarrow> task \<notin> creating_task r \<and> find_task task (channel2task r) = None \<and>
     r' = r\<lparr>creating_task := insert task (creating_task r), initialising := insert task (initialising r)\<rparr>"
  by (auto simp: create_enter_def split: option.splits)

lemma pool_ok_enter:
  assumes "pool_ok r" and "create_enter task r = Inr (None, r')"
  shows "pool_ok r'"
proof -
  note inv = pool_okD [OF assms(1)]
  have r': "task \<notin> creating_task r" "find_task task (channel2task r) = None"
    "r' = r\<lparr>creating_task := insert task (creating_task r), initialising := insert task (initialising r)\<rparr>"
    using assms(2) by (simp_all add: create_enter_None)
  show ?thesis
  proof (rule pool_okI)
    show "t \<notin> creating_task r'" if "std_find (channel2task r') p = Some t" for p t
      using inv(4) [of p t] find_task_absent [OF r'(2), of p] that r'(3) by auto
    show "p = q" if "std_find (channel2task r') p = Some t" "std_find (channel2task r') q = Some t" for p q t
      using inv(3) [of p t q] that r'(3) by simp
    show "initialising r' \<subseteq> creating_task r'" using inv(5) r'(3) by auto
  qed (use inv(1,2,6,7) r'(3) in simp_all)
qed

lemma pool_ok_finish:
  assumes "pool_ok r" and "task \<in> initialising r" and "channels r ptr = None"
    and "create_finish ptr task node cfg cl sv r = Inr (p, r')"
  shows "pool_ok r'"
proof -
  note inv = pool_okD [OF assms(1)]
  have none: "std_find (channel2task r) ptr = None" "ptr \<notin> leaving r \<union> freed r"
    using inv(2) [of ptr] inv(6) assms(3) by auto
  have find: "std_find (std_insert ptr task (channel2task r)) = (std_find (channel2task r))(ptr \<mapsto> task)"
    using none(1) by (simp add: std.find_insert [OF inv(1)])
  have creating: "task \<in> creating_task r" using inv(5) [OF assms(2)] .
  then have free: "std_find (channel2task r) q \<noteq> Some task" for q using inv(4) [of q task] by blast
  obtain c where r': "r' = r\<lparr>channel2task := std_insert ptr task (channel2task r),
      creating_task := creating_task r - {task}, initialising := initialising r - {task},
      channels := (channels r)(ptr \<mapsto> c)\<rparr>" and c: "task_id c = task"
    using assms(4) creating by (auto simp: create_finish_def Let_def)
  show ?thesis
  proof (rule pool_okI)
    show "sorted_map (channel2task r')" using r' std.valid_insert [OF inv(1)] by simp
    show "std_find (channel2task r') q = (if q \<in> leaving r' \<union> freed r' then None else map_option task_id (channels r' q))" for q
      using inv(2) [of q] none(2) c by (simp add: r' find)
    show "leaving r' \<union> freed r' \<subseteq> dom (channels r')" "leaving r' \<inter> freed r' = {}" using inv(6,7) by (auto simp: r')
    show "q = q'" if "std_find (channel2task r') q = Some t" "std_find (channel2task r') q' = Some t" for q q' t
      using that inv(3) [of q t q'] free by (auto simp: r' find split: if_splits)
    show "t \<notin> creating_task r'" if "std_find (channel2task r') q = Some t" for q t
      using that inv(4) [of q t] by (auto simp: r' find split: if_splits)
    show "initialising r' \<subseteq> creating_task r'" using inv(5) by (auto simp: r')
  qed
qed

lemma erase_eq:
  "erase_channel p r = Inr r' \<longleftrightarrow> registered p r \<and>
     r' = r\<lparr>channel2task := std_erase p (channel2task r), leaving := insert p (leaving r)\<rparr>"
  by (auto simp: erase_channel_def registered_def split: option.splits)

lemma free_eq:
  "free_caches p r = r\<lparr>current_node_map := std_erase p (current_node_map r), data_node_map := std_erase p (data_node_map r),
     computation_node_map := std_erase p (computation_node_map r),
     result_node_map := std_erase p (result_node_map r),
     connected_node_map := std_erase p (connected_node_map r), leaving := leaving r - {p}, freed := insert p (freed r)\<rparr>"
  by (simp add: free_caches_def DestroyCurrentNode_def DestroyDataNodes_def
      DestroyComputationNodes_def DestroyResultNodes_def DestroyConnectedNodes_def Let_def)

lemma pool_ok_erase:
  assumes "pool_ok r" and "erase_channel p r = Inr r'"
  shows "pool_ok r'"
proof -
  note inv = pool_okD [OF assms(1)]
  note find = std.find_erase [OF inv(1), of p]
  have reg: "registered p r" and r': "r' = r\<lparr>channel2task := std_erase p (channel2task r), leaving := insert p (leaving r)\<rparr>"
    using assms(2) by (simp_all add: erase_eq)
  have p: "p \<notin> leaving r \<union> freed r" "p \<in> dom (channels r)"
    using reg inv(2) [of p] by (auto simp: registered_def split: if_splits)
  show ?thesis
  proof (rule pool_okI)
    show "sorted_map (channel2task r')" using r' std.valid_erase [OF inv(1)] by simp
    show "std_find (channel2task r') q = (if q \<in> leaving r' \<union> freed r' then None else map_option task_id (channels r' q))" for q
      using inv(2) [of q] by (simp add: r' find)
    show "q = q'" if "std_find (channel2task r') q = Some t" "std_find (channel2task r') q' = Some t" for q q' t
      using that inv(3) [of q t q'] by (auto simp: r' find split: if_splits)
    show "t \<notin> creating_task r'" if "std_find (channel2task r') q = Some t" for q t
      using that inv(4) [of q t] by (auto simp: r' find split: if_splits)
    show "initialising r' \<subseteq> creating_task r'" using inv(5) by (auto simp: r')
    show "leaving r' \<union> freed r' \<subseteq> dom (channels r')" "leaving r' \<inter> freed r' = {}" using inv(6,7) p by (auto simp: r')
  qed
qed

lemma pool_ok_free:
  assumes "pool_ok r" and "p \<in> leaving r"
  shows "pool_ok (free_caches p r)"
proof -
  note inv = pool_okD [OF assms(1)]
  show ?thesis
  proof (rule pool_okI)
    show "std_find (channel2task (free_caches p r)) q = (if q \<in> leaving (free_caches p r) \<union> freed (free_caches p r)
        then None else map_option task_id (channels (free_caches p r) q))" for q
      using inv(2) [of q] assms(2) by (auto simp: free_eq)
    show "q = q'" if "std_find (channel2task (free_caches p r)) q = Some t"
      "std_find (channel2task (free_caches p r)) q' = Some t" for q q' t
      using that inv(3) [of q t q'] by (simp add: free_eq)
    show "t \<notin> creating_task (free_caches p r)" if "std_find (channel2task (free_caches p r)) q = Some t" for q t
      using that inv(4) [of q t] by (simp add: free_eq)
    show "leaving (free_caches p r) \<union> freed (free_caches p r) \<subseteq> dom (channels (free_caches p r))"
      using inv(6) assms(2) by (auto simp: free_eq)
    show "leaving (free_caches p r) \<inter> freed (free_caches p r) = {}" using inv(7) by (auto simp: free_eq)
  qed (use inv(1,5) in \<open>auto simp: free_eq\<close>)
qed

lemma pool_ok_delete:
  assumes "pool_ok r" and "p \<in> freed r"
  shows "pool_ok (delete_channel p r)"
proof -
  note inv = pool_okD [OF assms(1)]
  have p: "p \<notin> leaving r" using inv(7) assms(2) by auto
  show ?thesis
  proof (rule pool_okI)
    show "std_find (channel2task (delete_channel p r)) q = (if q \<in> leaving (delete_channel p r) \<union> freed (delete_channel p r)
        then None else map_option task_id (channels (delete_channel p r) q))" for q
      using inv(2) [of q] assms(2) by (auto simp: delete_channel_def)
    show "q = q'" if "std_find (channel2task (delete_channel p r)) q = Some t"
      "std_find (channel2task (delete_channel p r)) q' = Some t" for q q' t
      using that inv(3) [of q t q'] by (simp add: delete_channel_def)
    show "t \<notin> creating_task (delete_channel p r)" if "std_find (channel2task (delete_channel p r)) q = Some t" for q t
      using that inv(4) [of q t] by (simp add: delete_channel_def)
    show "leaving (delete_channel p r) \<union> freed (delete_channel p r) \<subseteq> dom (channels (delete_channel p r))"
      using inv(6) p by (auto simp: delete_channel_def)
    show "leaving (delete_channel p r) \<inter> freed (delete_channel p r) = {}" using inv(7) by (auto simp: delete_channel_def)
  qed (use inv(1,5) in \<open>auto simp: delete_channel_def\<close>)
qed

lemma caches_ok_erase: "caches_ok r \<Longrightarrow> erase_channel p r = Inr r' \<Longrightarrow> caches_ok r'"
  by (auto simp: caches_ok_def erase_eq open_channels_def)

lemma caches_ok_free: "caches_ok r \<Longrightarrow> caches_ok (free_caches p r)"
proof -
  have "open_channels (free_caches p r) = (open_channels r)(p := None)"
    by (auto simp: open_channels_def free_eq restrict_map_def)
  then show "caches_ok r \<Longrightarrow> caches_ok (free_caches p r)"
    by (simp add: caches_ok_def) (simp add: free_eq cache_ok_erase)
qed

lemma caches_ok_delete:
  assumes "caches_ok r" and "p \<in> freed r"
  shows "caches_ok (delete_channel p r)"
proof -
  have "open_channels (delete_channel p r) = open_channels r"
    using assms(2) by (auto simp: open_channels_def delete_channel_def restrict_map_def)
  with assms(1) show ?thesis by (simp add: caches_ok_def) (simp add: delete_channel_def)
qed

lemma caches_ok_finish:
  assumes "caches_ok r" and "channels r ptr = None" and "ptr \<notin> freed r"
    and "create_finish ptr task node cfg cl sv r = Inr (p, r')"
  shows "caches_ok r'"
proof -
  obtain c where r': "r' = r\<lparr>channel2task := std_insert ptr task (channel2task r),
      creating_task := creating_task r - {task}, initialising := initialising r - {task},
      channels := (channels r)(ptr \<mapsto> c)\<rparr>"
    using assms(4) by (auto simp: create_finish_def Let_def split: if_splits)
  have "open_channels r' = (open_channels r)(ptr \<mapsto> c)" "open_channels r ptr = None"
    using assms(2,3) by (auto simp: open_channels_def r' restrict_map_def)
  with assms(1) show ?thesis by (simp add: caches_ok_def cache_ok_new) (simp add: r' cache_ok_new)
qed

lemma live_channel_Inr: "live_channel p r = Inr c \<longleftrightarrow> channels r p = Some c"
  by (auto simp: live_channel_def split: option.splits)

section \<open>The cache of one getter\<close>

locale id_cache =
  fixes slot :: "registry \<Rightarrow> (pointer \<times> 'v) list"
    and upd :: "(pointer \<times> 'v) list \<Rightarrow> registry \<Rightarrow> registry"
    and enc :: "TCPChannel \<Rightarrow> 'v"
    and getter :: "pointer \<Rightarrow> registry \<Rightarrow> ('v \<times> registry) res"
  assumes getter: "getter p r = bindE (live_channel p r) (\<lambda>c.
    Inr (fst (cached p (slot r) (enc c)), upd (snd (cached p (slot r) (enc c))) r))"
begin

lemma getter_ok:
  assumes "cache_ok (open_channels r) (slot r) enc" and "p \<notin> freed r" and "getter p r = Inr (v, r')"
  shows "\<exists>c m. channels r p = Some c \<and> v = enc c \<and> r' = upd m r \<and> cache_ok (open_channels r) m enc"
proof -
  obtain c where c: "channels r p = Some c" "v = fst (cached p (slot r) (enc c))"
    "r' = upd (snd (cached p (slot r) (enc c))) r"
    using assms(3) by (auto simp: getter bindE_eq_Inr live_channel_Inr)
  have "open_channels r p = Some c" using c(1) assms(2) by (simp add: open_channels_def)
  with cache_ok_cached [OF assms(1) this prod.collapse [symmetric]] c show ?thesis by blast
qed

lemma getter_live:
  assumes "cache_ok (open_channels r) (slot r) enc" and "channels r p = Some c"
  shows "\<exists>m. getter p r = Inr (enc c, upd m r)"
proof -
  have "w = enc c" if "std_find (slot r) p = Some w" for w
  proof -
    from assms(1) that obtain c' where "open_channels r p = Some c'" "w = enc c'" unfolding cache_ok_def by blast
    with assms(2) show ?thesis by (simp add: open_channels_def restrict_map_def split: if_splits)
  qed
  then have "fst (cached p (slot r) (enc c)) = enc c" by (auto simp: cached_def split: option.splits)
  then show ?thesis using assms(2) by (intro exI) (simp add: getter live_channel_def)
qed

lemma getter_dead: "channels r p = None \<Longrightarrow> getter p r = Inl Mem_Fault"
  by (simp add: getter live_channel_def)

end

interpretation data_ids: id_cache data_node_map "\<lambda>m r. r\<lparr>data_node_map := m\<rparr>" enc_data GetDataNodeIDs
  by unfold_locales (simp add: GetDataNodeIDs_def split_def Let_def)

interpretation computation_ids: id_cache computation_node_map "\<lambda>m r. r\<lparr>computation_node_map := m\<rparr>"
  enc_computation GetComputationNodeIDs
  by unfold_locales (simp add: GetComputationNodeIDs_def split_def Let_def)

interpretation result_ids: id_cache result_node_map "\<lambda>m r. r\<lparr>result_node_map := m\<rparr>" enc_result GetResultNodeIDs
  by unfold_locales (simp add: GetResultNodeIDs_def split_def Let_def)

interpretation current_id: id_cache current_node_map "\<lambda>m r. r\<lparr>current_node_map := m\<rparr>" enc_current GetCurrentNodeID
  by unfold_locales (simp add: GetCurrentNodeID_def split_def Let_def)

interpretation connected_ids: id_cache connected_node_map "\<lambda>m r. r\<lparr>connected_node_map := m\<rparr>"
  enc_connected GetConnectedNodeIDs
  by unfold_locales (simp add: GetConnectedNodeIDs_def split_def Let_def)

text \<open>What a getter leaves alone.\<close>

definition same_pool :: "registry \<Rightarrow> registry \<Rightarrow> bool" where
  "same_pool r r' \<longleftrightarrow> channel2task r' = channel2task r \<and> channels r' = channels r \<and>
     creating_task r' = creating_task r \<and> initialising r' = initialising r \<and> leaving r' = leaving r \<and> freed r' = freed r"

lemma getter_step:
  assumes "caches_ok r" and "p \<notin> freed r"
  shows "GetDataNodeIDs p r = Inr (v, r') \<Longrightarrow> same_pool r r' \<and> caches_ok r'"
    and "GetComputationNodeIDs p r = Inr (w, r') \<Longrightarrow> same_pool r r' \<and> caches_ok r'"
    and "GetResultNodeIDs p r = Inr (v, r') \<Longrightarrow> same_pool r r' \<and> caches_ok r'"
    and "GetCurrentNodeID p r = Inr (s, r') \<Longrightarrow> same_pool r r' \<and> caches_ok r'"
    and "GetConnectedNodeIDs p r = Inr (v, r') \<Longrightarrow> same_pool r r' \<and> caches_ok r'"
  using assms data_ids.getter_ok [of r p v r'] computation_ids.getter_ok [of r p w r']
    result_ids.getter_ok [of r p v r'] current_id.getter_ok [of r p s r']
    connected_ids.getter_ok [of r p v r']
  by (auto simp: caches_ok_def same_pool_def open_channels_def)

lemma pool_ok_same:
  assumes "same_pool r r'" and "pool_ok r"
  shows "pool_ok r'"
proof -
  have same: "channel2task r' = channel2task r" "channels r' = channels r" "creating_task r' = creating_task r"
    "initialising r' = initialising r" "leaving r' = leaving r" "freed r' = freed r"
    using assms(1) by (simp_all add: same_pool_def)
  show ?thesis using assms(2) unfolding pool_ok_def same .
qed

lemma registered_open: "pool_ok r \<Longrightarrow> registered p r \<Longrightarrow> p \<notin> freed r"
  using pool_okD(2) [of r p] by (auto simp: registered_def)

lemma registry_inv_step:
  assumes "registry_step r r'" and "pool_ok r" and "caches_ok r"
  shows "pool_ok r' \<and> caches_ok r'"
  using assms(1)
proof (cases rule: registry_step.cases)
  case (Enter task)
  then have "caches_ok r'" using assms(3) by (auto simp: create_enter_None caches_ok_def open_channels_def)
  with Enter pool_ok_enter assms(2) show ?thesis by blast
next
  case (Finish task ptr node cfg cl sv p)
  have "ptr \<notin> freed r" using pool_okD(6) [OF assms(2)] Finish(2) by auto
  with Finish pool_ok_finish caches_ok_finish assms(2,3) show ?thesis by blast
next
  case (Fail task p)
  then have r': "r' = r\<lparr>initialising := initialising r - {task}\<rparr>" by (auto simp: create_fail_def)
  with assms(3) have "caches_ok r'" by (simp add: caches_ok_def open_channels_def)
  moreover have "pool_ok r'" using assms(2) r' by (auto simp: pool_ok_def)
  ultimately show ?thesis by simp
next
  case (Erase p)
  with pool_ok_erase caches_ok_erase assms(2,3) show ?thesis by blast
next
  case (Free p)
  with pool_ok_free caches_ok_free assms(2,3) show ?thesis by blast
next
  case (Delete p)
  with pool_ok_delete caches_ok_delete assms(2,3) show ?thesis by blast
qed (use getter_step [OF assms(3) registered_open [OF assms(2)]] pool_ok_same assms(2) in blast)+

lemma registry_inv_steps:
  "registry_step\<^sup>*\<^sup>* r r' \<Longrightarrow> pool_ok r \<Longrightarrow> caches_ok r \<Longrightarrow> pool_ok r' \<and> caches_ok r'"
  by (induction rule: rtranclp_induct) (auto dest: registry_inv_step)

lemma registry_reach:
  assumes "registry_step\<^sup>*\<^sup>* new_registry r"
  shows "pool_ok r" "caches_ok r"
  using registry_inv_steps [OF assms registry_inv_new] by simp_all

text \<open>A task whose initialisation failed stays claimed.\<close>

lemma claimed_step:
  assumes "registry_step r r'" and "task \<in> creating_task r - initialising r" and "pool_ok r" and "caches_ok r"
  shows "task \<in> creating_task r' - initialising r'"
proof -
  have same: "task \<in> creating_task r' - initialising r'" if "same_pool r r' \<and> caches_ok r'"
    using assms(2) that by (simp add: same_pool_def)
  note getter = getter_step [OF assms(4) registered_open [OF assms(3)], THEN same]
  show ?thesis using assms(1)
  proof (cases rule: registry_step.cases)
    case (Enter t)
    with assms(2) show ?thesis by (auto simp: create_enter_None)
  next
    case (Finish t ptr node cfg cl sv p)
    with assms(2) show ?thesis by (auto simp: create_finish_def Let_def split: if_splits)
  next
    case (Fail t p)
    with assms(2) show ?thesis by (auto simp: create_fail_def)
  next
    case (Erase p)
    with assms(2) show ?thesis by (simp add: erase_eq)
  next
    case (Free p)
    with assms(2) show ?thesis by (simp add: free_eq)
  next
    case (Delete p)
    with assms(2) show ?thesis by (simp add: delete_channel_def)
  qed (rule getter; assumption)+
qed

lemma claimed_steps:
  "registry_step\<^sup>*\<^sup>* r r' \<Longrightarrow> pool_ok r \<Longrightarrow> caches_ok r \<Longrightarrow>
   task \<in> creating_task r - initialising r \<Longrightarrow> task \<in> creating_task r' - initialising r'"
proof (induction rule: rtranclp_induct)
  case (step y z)
  from registry_inv_steps [OF step.hyps(1) step.prems(1,2)] claimed_step [OF step.hyps(2)] step.IH step.prems
  show ?case by blast
qed

section \<open>A concrete run\<close>

lemma create_finish_ok:
  "task \<in> creating_task r \<Longrightarrow> \<exists>r' c. create_finish ptr task node cfg cl sv r = Inr (ptr, r') \<and>
     channels r' = (channels r)(ptr \<mapsto> c) \<and> task_id c = task \<and> this_node c = node \<and> config c = cfg \<and>
     channel2task r' = std_insert ptr task (channel2task r)"
  by (simp add: create_finish_def Let_def) (rule exI, rule conjI, rule refl, simp)

lemma reach_channel:
  obtains r c where "registry_step\<^sup>*\<^sup>* new_registry r" "channels r 7 = Some c" "task_id c = ''t''"
    "config c = new_config" "this_node c = ''p0''" "registered 7 r"
proof -
  obtain r1 where r1: "create_enter ''t'' new_registry = Inr (None, r1)" "''t'' \<in> creating_task r1"
    "''t'' \<in> initialising r1" "channels r1 = Map.empty" "channel2task r1 = []"
    by (simp add: create_enter_def new_registry_def)
  obtain r2 c where r2: "create_finish 7 ''t'' ''p0'' new_config [] [] r1 = Inr (7, r2)"
    "channels r2 = (channels r1)(7 \<mapsto> c)" "task_id c = ''t''" "config c = new_config" "this_node c = ''p0''"
    "channel2task r2 = std_insert 7 ''t'' (channel2task r1)"
    using create_finish_ok [OF r1(2)] by blast
  have "registry_step r1 r2" using r1(3,4) r2(1) by (intro Finish) simp_all
  with Enter [OF r1(1)] have "registry_step\<^sup>*\<^sup>* new_registry r2"
    by (meson converse_rtranclp_into_rtranclp rtranclp.rtrancl_refl)
  moreover have "registered 7 r2" using r1(5) r2(6) by (simp add: registered_def)
  ultimately show thesis using r2 that by simp
qed

lemma registered_channel:
  assumes "pool_ok r" and "std_find (channel2task r) p = Some t"
  shows "\<exists>c. channels r p = Some c \<and> task_id c = t"
proof -
  from pool_okD(2) [OF assms(1), of p] assms(2) have "Some t = map_option task_id (channels r p)"
    by (simp split: if_splits)
  then show ?thesis by (cases "channels r p") auto
qed

section \<open>Properties\<close>

text \<open>C22: a task has at most one channel in the pool: in every reachable state the channel registered for a task is a live
  object of that task, no other is registered for it, creating a channel for the task returns it, and every other live
  channel of the task is on its way through \<open>DestroyInternalChannel\<close>.\<close>

theorem one_channel_per_task:
  assumes "registry_step\<^sup>*\<^sup>* new_registry r" and "std_find (channel2task r) p = Some t"
  shows "(\<exists>c. channels r p = Some c \<and> task_id c = t) \<and> (\<forall>q. std_find (channel2task r) q = Some t \<longrightarrow> q = p) \<and>
    create_enter t r = Inr (Some p, r) \<and>
    (\<forall>q d. channels r q = Some d \<and> task_id d = t \<and> q \<noteq> p \<longrightarrow> q \<in> leaving r \<union> freed r)"
proof -
  note inv = pool_okD [OF registry_reach(1) [OF assms(1)]]
  obtain q where q: "find_task t (channel2task r) = Some q"
    using find_task_absent [of t "channel2task r" p] assms(2) by (cases "find_task t (channel2task r)") auto
  from find_task_Some [OF inv(1) q] inv(3) [OF assms(2)] have "q = p" by simp
  then have "create_enter t r = Inr (Some p, r)" using inv(4) [OF assms(2)] q by (auto simp: create_enter_def)
  moreover have "\<exists>c. channels r p = Some c \<and> task_id c = t" using registered_channel [OF registry_reach(1) [OF assms(1)] assms(2)] .
  moreover have "q \<in> leaving r \<union> freed r" if "channels r q = Some d" "task_id d = t" "q \<noteq> p" for q d
    using inv(2) [of q] inv(3) [OF assms(2), of q] that by (auto split: if_splits)
  ultimately show ?thesis using inv(3) [OF assms(2)] by blast
qed

theorem one_channel_per_task_witness:
  "\<exists>r c. channels r 7 = Some c \<and> task_id c = ''t'' \<and> create_enter ''t'' r = Inr (Some 7, r)"
proof (rule reach_channel)
  fix r c
  assume r: "registry_step\<^sup>*\<^sup>* new_registry r" "channels r 7 = Some c" "task_id c = ''t''" "registered 7 r"
  have "std_find (channel2task r) 7 = Some ''t''"
    using pool_okD(2) [OF registry_reach(1) [OF r(1)], of 7] r(2-4) by (auto simp: registered_def split: if_splits)
  from one_channel_per_task [OF r(1) this] show ?thesis by blast
qed

text \<open>While the old channel of a task is still being deleted, with its connections in use, the task can be claimed again for
  a second channel.\<close>

lemma creation_overlaps_destruction:
  assumes "registry_step\<^sup>*\<^sup>* new_registry r" and "std_find (channel2task r) p = Some t" and "erase_channel p r = Inr r1"
  shows "\<exists>r2 c. create_enter t r1 = Inr (None, r2) \<and> channels r2 p = Some c \<and> task_id c = t"
proof -
  note inv = pool_okD [OF registry_reach(1) [OF assms(1)]]
  have "registry_step r r1" using assms(3) by (rule Erase)
  then have reach: "registry_step\<^sup>*\<^sup>* new_registry r1" using assms(1) by (rule rtranclp.rtrancl_into_rtrancl [rotated])
  note inv1 = pool_okD [OF registry_reach(1) [OF reach]]
  have r1: "channel2task r1 = std_erase p (channel2task r)" "channels r1 = channels r" "creating_task r1 = creating_task r"
    using assms(3) by (simp_all add: erase_eq)
  have "std_find (channel2task r1) q \<noteq> Some t" for q
    using inv(3) [OF assms(2), of q] by (cases "q = p") (auto simp: r1 std.find_erase [OF inv(1)])
  then have "find_task t (channel2task r1) = None" using find_task_Some [OF inv1(1)] by (cases "find_task t (channel2task r1)") auto
  moreover have "t \<notin> creating_task r1" using inv(4) [OF assms(2)] r1(3) by simp
  moreover have "\<exists>c. channels r1 p = Some c \<and> task_id c = t"
    using registered_channel [OF registry_reach(1) [OF assms(1)] assms(2)] r1(2) by simp
  ultimately show ?thesis by (auto simp: create_enter_None)
qed

text \<open>C33: the node ids a channel reports are its own, whatever happened to other channels and to earlier ones
  at the same address: each of the five queries returns the encoding of the channel's configuration.\<close>

theorem channel_reports_own_nodes:
  assumes "registry_step\<^sup>*\<^sup>* new_registry r" and "channels r p = Some c"
  shows "(\<exists>r'. GetDataNodeIDs p r = Inr (encode_vector (data_nodes (config c)), r')) \<and>
    (\<exists>r'. GetComputationNodeIDs p r = Inr (encode_map (party_map (compute_nodes (config c))), r')) \<and>
    (\<exists>r'. GetResultNodeIDs p r = Inr (encode_vector (result_nodes (config c)), r')) \<and>
    (\<exists>r'. GetCurrentNodeID p r = Inr (encode_string (this_node c), r')) \<and>
    (\<exists>r'. GetConnectedNodeIDs p r = Inr (encode_vector (connected_nodes c), r'))"
  using registry_reach(2) [OF assms(1)] data_ids.getter_live [OF _ assms(2)]
    computation_ids.getter_live [OF _ assms(2)] result_ids.getter_live [OF _ assms(2)]
    current_id.getter_live [OF _ assms(2)] connected_ids.getter_live [OF _ assms(2)]
  by (auto simp: caches_ok_def)

theorem channel_reports_own_nodes_witness:
  "\<exists>r r'. GetCurrentNodeID 7 r = Inr (''p0'' @ [CHR 0x00], r')"
proof (rule reach_channel)
  fix r c
  assume r: "registry_step\<^sup>*\<^sup>* new_registry r" "channels r 7 = Some c" "this_node c = ''p0''"
  from channel_reports_own_nodes [OF r(1,2)] r(3) show ?thesis by (auto simp: encode_string_def)
qed

text \<open>After a failed creation the task stays claimed: every later creation of a channel for it waits, in
  every state that can follow.\<close>

theorem failed_creation_blocks_task:
  assumes "registry_step\<^sup>*\<^sup>* new_registry r" and "task \<in> initialising r"
    and "create_fail task r = (p, r1)" and "registry_step\<^sup>*\<^sup>* r1 r2"
  shows "p = None \<and> create_enter task r2 = Inl Would_Block"
proof -
  note inv = registry_reach [OF assms(1)]
  have r1: "p = None" "r1 = r\<lparr>initialising := initialising r - {task}\<rparr>"
    using assms(3) by (auto simp: create_fail_def)
  have "registry_step r r1" using assms(2,3) by (rule Fail)
  from registry_inv_step [OF this inv] have "pool_ok r1" "caches_ok r1" by simp_all
  moreover have "task \<in> creating_task r1 - initialising r1"
    using pool_okD(5) [OF inv(1) assms(2)] r1(2) by simp
  ultimately have "task \<in> creating_task r2 - initialising r2" using claimed_steps [OF assms(4)] by blast
  with r1(1) show ?thesis by (simp add: create_enter_def)
qed

theorem failed_creation_blocks_task_witness:
  "\<exists>r r1. create_enter ''t'' new_registry = Inr (None, r) \<and> create_fail ''t'' r = (None, r1) \<and>
     create_enter ''t'' r1 = Inl Would_Block"
proof -
  obtain r where r: "create_enter ''t'' new_registry = Inr (None, r)" "''t'' \<in> initialising r"
    by (simp add: create_enter_def new_registry_def)
  obtain p r1 where f: "create_fail ''t'' r = (p, r1)" by fastforce
  have "registry_step\<^sup>*\<^sup>* new_registry r" using Enter [OF r(1)] by blast
  from failed_creation_blocks_task [OF this r(2) f rtranclp.rtrancl_refl] r(1) f show ?thesis by auto
qed

end
