(* ===== verification/Emp_Channel.thy ===== *)
theory Emp_Channel
  imports Framing C_Encode
begin

text \<open>
  The variant of \<open>TCPChannel\<close> for emp-toolkit (\<open>USE_EMP_IO\<close>): \<open>GetSubIO\<close>, the branches of \<open>Recv\<close>, \<open>Send\<close> and
  \<open>Flush\<close> (\<open>io_channel_impl.cpp\<close>) and the choice of the port in \<open>CreateChannel\<close> (\<open>channel.cpp\<close>). Every message id gets a
  connection of its own; the node that listens chooses its port and announces it over the main connection.

  \<open>emp::NetIO\<close> is not part of the repository. A new one is the address it is created with; \<open>recv_data\<close> of the main
  connection is a parameter, and the lemmas use of it that reads of the sizes that were written return what was
  written.
\<close>

section \<open>State\<close>

type_synonym sub_io = "bytes option \<times> cint"

record emp_channel =
  emp_ip :: bytes                              \<comment> \<open>empty on the node that listens\<close>
  emp_port :: cint
  port_offset :: cint
  msgid2io :: "(bytes \<times> sub_io) list"
  msgid2port :: "(bytes \<times> cint) list"

definition new_emp_channel :: "bytes \<Rightarrow> cint \<Rightarrow> emp_channel" where
  "new_emp_channel ip port = \<lparr>emp_ip = ip, emp_port = port, port_offset = 100, msgid2io = [], msgid2port = []\<rparr>"

section \<open>The port of the main connection\<close>

fun after_clone :: "bytes \<Rightarrow> bytes option" where
  "after_clone [] = None"
| "after_clone (c # s) = (if take 7 (c # s) = ''#clone#'' then Some (drop 7 (c # s)) else after_clone s)"

fun digits_value :: "int \<Rightarrow> bytes \<Rightarrow> int" where
  "digits_value v [] = v"
| "digits_value v (c # s) =
     (if of_char c \<in> {48..57 :: int} then digits_value (10 * v + (of_char c - 48)) s else v)"

definition atoi :: "bytes \<Rightarrow> int" where
  "atoi s = (case dropWhile (\<lambda>c. of_char c \<in> {9..13 :: int} \<union> {32}) s of
       [] \<Rightarrow> 0
     | c # t \<Rightarrow> if c = CHR ''-'' then - digits_value 0 t
               else if c = CHR ''+'' then digits_value 0 t else digits_value 0 (c # t))"

definition emp_main_port :: "bytes \<Rightarrow> cint \<Rightarrow> cint" where
  "emp_main_port task port =
    (case after_clone task of None \<Rightarrow> port | Some s \<Rightarrow> port + word_of_int (atoi s))"

section \<open>Ports of message ids\<close>

definition int_bytes :: "cint \<Rightarrow> bytes" where
  "int_bytes w = le_bytes 4 (unat w)"

definition bytes_int :: "bytes \<Rightarrow> cint" where
  "bytes_int bs = word_of_nat (le_value bs)"

text \<open>What the listening node sends for an id, one entry for each \<open>send_data\<close>.\<close>

definition announce :: "bytes \<times> cint \<Rightarrow> bytes list" where
  "announce = (\<lambda>(mid, port). [int_bytes (word_of_nat (length mid)), mid, int_bytes port])"

text \<open>The other node reads announcements until that of its id; those of other ids it keeps. The loop need not end.\<close>

partial_function (option) find_port :: "('io \<Rightarrow> nat \<Rightarrow> bytes \<times> 'io) \<Rightarrow> bytes \<Rightarrow> cint \<Rightarrow> (bytes \<times> cint) list \<Rightarrow> 'io \<Rightarrow>
    (cint \<times> (bytes \<times> cint) list \<times> 'io) res option" where
  "find_port recv_data mid new_port m io =
    (if new_port \<noteq> 0 then Some (Inr (new_port, m, io))
     else let (b1, io1) = recv_data io 4 in
       case resize (scast (bytes_int b1)) of
         Inl e \<Rightarrow> Some (Inl e)
       | Inr n \<Rightarrow>
           let (recv_id, io2) = recv_data io1 n;
               (b3, io3) = recv_data io2 4;
               recv_port = bytes_int b3
           in if mid = recv_id then find_port recv_data mid recv_port m io3
              else find_port recv_data mid 0 (std_assign recv_id recv_port m) io3)"

text \<open>\<open>GetSubIO\<close>: the connection, what was sent, and the new state.\<close>

definition GetSubIO :: "('io \<Rightarrow> nat \<Rightarrow> bytes \<times> 'io) \<Rightarrow> bytes \<Rightarrow> emp_channel \<Rightarrow> 'io \<Rightarrow>
    (sub_io \<times> bytes list \<times> emp_channel \<times> 'io) res option" where
  "GetSubIO recv_data mid ch io =
    (case std_find (msgid2io ch) mid of
       Some sub \<Rightarrow> Some (Inr (sub, [], ch, io))
     | None \<Rightarrow>
         if emp_ip ch = [] then
           let new_port = emp_port ch + port_offset ch; sub = (None, new_port) in
           Some (Inr (sub, announce (mid, new_port),
             ch\<lparr>port_offset := port_offset ch + 1, msgid2io := std_assign mid sub (msgid2io ch)\<rparr>, io))
         else
           let known = (case std_find (msgid2port ch) mid of None \<Rightarrow> 0 | Some p \<Rightarrow> p) in
           case find_port recv_data mid known (msgid2port ch) io of
             None \<Rightarrow> None
           | Some (Inl e) \<Rightarrow> Some (Inl e)
           | Some (Inr (new_port, m, io')) \<Rightarrow>
               let sub = (Some (emp_ip ch), new_port) in
               Some (Inr (sub, [], ch\<lparr>msgid2port := m, msgid2io := std_assign mid sub (msgid2io ch)\<rparr>, io')))"

text \<open>A sequence of calls.\<close>

fun sub_ios :: "('io \<Rightarrow> nat \<Rightarrow> bytes \<times> 'io) \<Rightarrow> bytes list \<Rightarrow> emp_channel \<Rightarrow> 'io \<Rightarrow>
    (sub_io list \<times> bytes list \<times> emp_channel \<times> 'io) res option" where
  "sub_ios recv_data [] ch io = Some (Inr ([], [], ch, io))"
| "sub_ios recv_data (mid # ids) ch io =
     (case GetSubIO recv_data mid ch io of
        None \<Rightarrow> None
      | Some (Inl e) \<Rightarrow> Some (Inl e)
      | Some (Inr (sub, sent, ch1, io1)) \<Rightarrow>
          (case sub_ios recv_data ids ch1 io1 of
             None \<Rightarrow> None
           | Some (Inl e) \<Rightarrow> Some (Inl e)
           | Some (Inr (subs, sents, ch2, io2)) \<Rightarrow> Some (Inr (sub # subs, sent @ sents, ch2, io2))))"

section \<open>Sending and receiving\<close>

text \<open>What \<open>Send\<close>, \<open>Recv\<close> and \<open>Flush\<close> do to which connection; \<open>None\<close> is the main one. The length is returned.\<close>

datatype emp_call = Emp_Send bytes | Emp_Recv u64 | Emp_Flush

definition emp_target :: "('io \<Rightarrow> nat \<Rightarrow> bytes \<times> 'io) \<Rightarrow> bytes \<Rightarrow> bytes \<Rightarrow> emp_channel \<Rightarrow> 'io \<Rightarrow>
    (sub_io option \<times> bytes list \<times> emp_channel \<times> 'io) res option" where
  "emp_target recv_data task mid ch io =
    (if after_clone task \<noteq> None then Some (Inr (None, [], ch, io))
     else map_option (map_sum id (\<lambda>(sub, r). (Some sub, r))) (GetSubIO recv_data mid ch io))"

definition emp_Recv :: "('io \<Rightarrow> nat \<Rightarrow> bytes \<times> 'io) \<Rightarrow> bytes \<Rightarrow> bytes \<Rightarrow> u64 \<Rightarrow> emp_channel \<Rightarrow> 'io \<Rightarrow>
    (int \<times> (sub_io option \<times> emp_call) list \<times> bytes list \<times> emp_channel \<times> 'io) res option" where
  "emp_Recv recv_data task mid len ch io =
    map_option (map_sum id (\<lambda>(sub, r). (sint len, [(sub, Emp_Recv len)], r))) (emp_target recv_data task mid ch io)"

definition emp_Send :: "('io \<Rightarrow> nat \<Rightarrow> bytes \<times> 'io) \<Rightarrow> bytes \<Rightarrow> bytes \<Rightarrow> bytes \<Rightarrow> emp_channel \<Rightarrow> 'io \<Rightarrow>
    (int \<times> (sub_io option \<times> emp_call) list \<times> bytes list \<times> emp_channel \<times> 'io) res option" where
  "emp_Send recv_data task mid data ch io =
    map_option (map_sum id (\<lambda>(sub, r). (int (length data),
      (sub, Emp_Send data) # (if sub = None then [] else [(sub, Emp_Flush)]), r))) (emp_target recv_data task mid ch io)"

definition emp_Flush :: "(sub_io option \<times> emp_call) list" where
  "emp_Flush = [(None, Emp_Flush)]"

section \<open>Announcements are read as they were sent\<close>

lemma bytes_int_inverse [simp]: "bytes_int (int_bytes w) = w"
proof -
  have "unat w < 256 ^ 4" using unsigned_less [of w] by simp
  then show ?thesis by (simp add: bytes_int_def int_bytes_def le_value_le_bytes)
qed

lemma length_int_bytes [simp]: "length (int_bytes w) = 4"
  by (simp add: int_bytes_def)

lemma resize_length: "n < 2 ^ 31 \<Longrightarrow> resize (scast (word_of_nat n :: cint)) = Inr n"
proof -
  assume n: "n < 2 ^ 31"
  have "(scast (word_of_nat n :: cint) :: u64) = word_of_int (sint (word_of_nat n :: cint))"
    by (rule scast_eq)
  also have "\<dots> = word_of_nat n" using n by (simp only: sint_count) simp
  finally have "unat (scast (word_of_nat n :: cint) :: u64) = n" using n by (simp only: unat_of_nat) simp
  then show ?thesis using n by (simp add: resize_def string_max_size_def)
qed

text \<open>The law of the main connection: reads of the sizes that were written return what was written.\<close>

fun reads_back :: "('io \<Rightarrow> nat \<Rightarrow> bytes \<times> 'io) \<Rightarrow> 'io \<Rightarrow> bytes list \<Rightarrow> bool" where
  "reads_back recv_data io [] = True"
| "reads_back recv_data io (c # cs) =
     (fst (recv_data io (length c)) = c \<and> reads_back recv_data (snd (recv_data io (length c))) cs)"

text \<open>One round of the loop.\<close>

lemma find_port_done: "q \<noteq> 0 \<Longrightarrow> find_port recv_data mid q m io = Some (Inr (q, m, io))"
  by (simp add: find_port.simps)

lemma find_port_round:
  assumes "reads_back recv_data io (announce (i, p) @ cs)" and "length i < 2 ^ 31"
  shows "\<exists>io'. reads_back recv_data io' cs \<and> find_port recv_data mid 0 m io =
    (if mid = i then find_port recv_data mid p m io' else find_port recv_data mid 0 (std_assign i p m) io')"
proof -
  let ?n = "int_bytes (word_of_nat (length i))"
  obtain io1 where r1: "recv_data io 4 = (?n, io1)" "reads_back recv_data io1 ([i, int_bytes p] @ cs)"
    using assms(1) by (cases "recv_data io 4") (simp add: announce_def)
  obtain io2 where r2: "recv_data io1 (length i) = (i, io2)" "reads_back recv_data io2 ([int_bytes p] @ cs)"
    using r1(2) by (cases "recv_data io1 (length i)") simp
  obtain io3 where r3: "recv_data io2 4 = (int_bytes p, io3)" "reads_back recv_data io3 cs"
    using r2(2) by (cases "recv_data io2 4") simp
  show ?thesis
    using r1(1) r2(1) r3 resize_length [OF assms(2)] by (intro exI [of _ io3]) (simp add: find_port.simps [of _ _ 0 m io])
qed

lemma find_port_finds:
  assumes "reads_back recv_data io (concat (map announce (pre @ (mid, p) # post)))" and "mid \<notin> fst ` set pre"
    and "\<forall>(i, q) \<in> set (pre @ [(mid, p)]). length i < 2 ^ 31" and "p \<noteq> 0"
  shows "\<exists>io'. find_port recv_data mid 0 m io = Some (Inr (p, fold (\<lambda>(i, q). std_assign i q) pre m, io')) \<and>
    reads_back recv_data io' (concat (map announce post))"
  using assms
proof (induction pre arbitrary: m io)
  case Nil
  then obtain io' where "reads_back recv_data io' (concat (map announce post))"
    "find_port recv_data mid 0 m io = find_port recv_data mid p m io'"
    using find_port_round [of recv_data io mid p "concat (map announce post)" mid m] by auto
  with Nil.prems(4) show ?case by (auto simp: find_port_done)
next
  case (Cons a pre)
  obtain i q where a: "a = (i, q)" by fastforce
  obtain io1 where io1: "reads_back recv_data io1 (concat (map announce (pre @ (mid, p) # post)))"
    "find_port recv_data mid 0 m io = find_port recv_data mid 0 (std_assign i q m) io1"
    using find_port_round [of recv_data io i q "concat (map announce (pre @ (mid, p) # post))" mid m] Cons.prems a by auto
  from Cons.IH [OF io1(1), of "std_assign i q m"] Cons.prems(2-4) a io1(2) show ?case by simp
qed

section \<open>The listening node\<close>

text \<open>Its table after the ids \<open>ids\<close>: consecutive ports from offset \<open>k\<close> on.\<close>

definition port_table :: "cint \<Rightarrow> nat \<Rightarrow> bytes list \<Rightarrow> (bytes \<times> cint) list" where
  "port_table base k ids = map (\<lambda>j. (ids ! j, base + word_of_nat (k + j))) [0..<length ids]"

lemma port_table_Cons: "port_table base k (mid # ids) = (mid, base + word_of_nat k) # port_table base (Suc k) ids"
  by (simp add: port_table_def map_Suc_upt [symmetric] upt_rec [of 0] del: upt_Suc)

lemma port_table_ids: "map fst (port_table base k ids) = ids"
  by (rule nth_equalityI) (simp_all add: port_table_def)

lemma listening_sub_ios:
  assumes "emp_ip ch = []" and "port_offset ch = word_of_nat k" and "sorted_map (msgid2io ch)"
    and "distinct ids" and "\<forall>i \<in> set ids. std_find (msgid2io ch) i = None"
  shows "\<exists>ch'. sub_ios recv_data ids ch io = Some (Inr (map (\<lambda>(_, p). (None, p)) (port_table (emp_port ch) k ids),
    concat (map announce (port_table (emp_port ch) k ids)), ch', io))"
  using assms
proof (induction ids arbitrary: ch k)
  case (Cons mid ids)
  let ?p = "emp_port ch + word_of_nat k"
  let ?ch = "ch\<lparr>port_offset := word_of_nat (Suc k), msgid2io := std_assign mid (None, ?p) (msgid2io ch)\<rparr>"
  have one: "GetSubIO recv_data mid ch io = Some (Inr ((None, ?p), announce (mid, ?p), ?ch, io))"
    using Cons.prems by (simp add: GetSubIO_def Let_def add.commute)
  have "\<forall>i \<in> set ids. std_find (msgid2io ?ch) i = None"
    using Cons.prems(3-5) by (auto simp: std.find_assign)
  then have "\<exists>ch'. sub_ios recv_data ids ?ch io = Some (Inr (map (\<lambda>(_, p). (None, p)) (port_table (emp_port ch) (Suc k) ids),
      concat (map announce (port_table (emp_port ch) (Suc k) ids)), ch', io))"
    using Cons.IH [of ?ch "Suc k"] Cons.prems by (simp add: std.valid_assign)
  with one show ?case by (auto simp: port_table_Cons)
qed (simp add: port_table_def)

lemma unat_offset: "n < 2 ^ 31 \<Longrightarrow> unat (word_of_nat n :: cint) = n"
  by (simp only: unat_of_nat) simp

lemma unat_port:
  assumes "unat base + n < 2 ^ 31"
  shows "unat (base + word_of_nat n :: cint) = unat base + n"
proof -
  have n: "unat (word_of_nat n :: cint) = n" by (rule unat_offset) (use assms in simp)
  then have "unat base + unat (word_of_nat n :: cint) < 2 ^ LENGTH(32)" using assms by simp
  then show ?thesis by (simp only: unat_add_lem [THEN iffD1] n)
qed

lemma port_table_nonzero:
  assumes "(i, p) \<in> set (port_table base k ids)" and "unat base + k + length ids < 2 ^ 31" and "0 < k"
  shows "p \<noteq> 0"
proof -
  obtain j where j: "j < length ids" "p = base + word_of_nat (k + j)" using assms(1) by (auto simp: port_table_def)
  then have "unat p = unat base + (k + j)" using assms(2) unat_port [of base "k + j"] by simp
  with assms(3) show ?thesis by auto
qed

lemma port_table_distinct:
  assumes "unat base + k + length ids < 2 ^ 31"
  shows "distinct (map snd (port_table base k ids))"
proof -
  have "inj_on (\<lambda>j. base + word_of_nat (k + j)) {0..<length ids}"
  proof (rule inj_onI)
    fix i j
    assume ij: "i \<in> {0..<length ids}" "j \<in> {0..<length ids}" "base + word_of_nat (k + i) = base + word_of_nat (k + j)"
    have "unat (base + word_of_nat (k + i)) = unat base + (k + i)" by (rule unat_port) (use ij(1) assms in simp)
    moreover have "unat (base + word_of_nat (k + j)) = unat base + (k + j)" by (rule unat_port) (use ij(2) assms in simp)
    ultimately show "i = j" using arg_cong [OF ij(3), of unat] by linarith
  qed
  then show ?thesis by (simp add: port_table_def distinct_map comp_def)
qed

section \<open>The dialling node\<close>

text \<open>It has read the announcements \<open>pre\<close> and not yet \<open>post\<close>: of those it read it has the connection or knows the
  port, of the others nothing.\<close>

definition id_state :: "bytes \<Rightarrow> cint option \<Rightarrow> sub_io option \<Rightarrow> cint option \<Rightarrow> bool" where
  "id_state ip announced sub port =
    (case announced of
       None \<Rightarrow> sub = None \<and> port = None
     | Some p \<Rightarrow> sub = Some (Some ip, p) \<or> sub = None \<and> port = Some p)"

definition client_knows :: "(bytes \<times> cint) list \<Rightarrow> emp_channel \<Rightarrow> bool" where
  "client_knows pre ch \<longleftrightarrow> sorted_map (msgid2io ch) \<and> sorted_map (msgid2port ch) \<and>
    (\<forall>i. id_state (emp_ip ch) (map_of pre i) (std_find (msgid2io ch) i) (std_find (msgid2port ch) i))"

lemma client_knowsD:
  assumes "client_knows pre ch"
  shows "sorted_map (msgid2io ch)" "sorted_map (msgid2port ch)"
    "id_state (emp_ip ch) (map_of pre i) (std_find (msgid2io ch) i) (std_find (msgid2port ch) i)"
  using assms by (simp_all add: client_knows_def)

lemma client_knows_upd:
  assumes "client_knows pre ch" and "emp_ip ch' = emp_ip ch" and "sorted_map (msgid2io ch')" and "sorted_map (msgid2port ch')"
    and "\<And>j. j \<noteq> i \<Longrightarrow> map_of pre' j = map_of pre j \<and> std_find (msgid2io ch') j = std_find (msgid2io ch) j \<and>
      std_find (msgid2port ch') j = std_find (msgid2port ch) j"
    and "id_state (emp_ip ch) (map_of pre' i) (std_find (msgid2io ch') i) (std_find (msgid2port ch') i)"
  shows "client_knows pre' ch'"
  unfolding client_knows_def
proof (intro conjI allI)
  fix j
  show "id_state (emp_ip ch') (map_of pre' j) (std_find (msgid2io ch') j) (std_find (msgid2port ch') j)"
    using assms(5) [of j] assms(6) client_knowsD(3) [OF assms(1), of j] by (cases "j = i") (simp_all add: assms(2))
qed (rule assms(3,4))+

lemma map_of_snoc: "map_of pre i = None \<Longrightarrow> map_of (pre @ [(i, q)]) = (map_of pre)(i \<mapsto> q)"
  by (auto simp: fun_eq_iff map_add_def split: option.splits)

lemma client_knows_read:
  assumes "client_knows pre ch" and "distinct (map fst (pre @ post))"
  shows "client_knows (pre @ post) (ch\<lparr>msgid2port := fold (\<lambda>(i, q). std_assign i q) post (msgid2port ch)\<rparr>)"
  using assms
proof (induction post arbitrary: pre ch)
  case (Cons a post)
  obtain i q where a: "a = (i, q)" by fastforce
  let ?ch = "ch\<lparr>msgid2port := std_assign i q (msgid2port ch)\<rparr>"
  have new: "map_of pre i = None" using Cons.prems(2) a by (auto simp: map_of_eq_None_iff)
  note know = client_knowsD [OF Cons.prems(1)]
  have "client_knows (pre @ [(i, q)]) ?ch"
    by (rule client_knows_upd [OF Cons.prems(1), where i = i])
      (use know(1,2) know(3) [of i] new in \<open>simp_all add: map_of_snoc std.find_assign std.valid_assign id_state_def del: map_of_append\<close>)
  from Cons.IH [OF this] Cons.prems(2) a show ?case by simp
qed simp

lemma client_knows_io:
  assumes "client_knows pre ch" and "map_of pre i = Some p"
  shows "client_knows pre (ch\<lparr>msgid2io := std_assign i (Some (emp_ip ch), p) (msgid2io ch)\<rparr>)"
  by (rule client_knows_upd [OF assms(1), where i = i])
    (use client_knowsD [OF assms(1)] assms(2) in \<open>simp_all add: std.find_assign std.valid_assign id_state_def\<close>)

text \<open>One call of the dialling node.\<close>

lemma dialling_sub_io:
  assumes "client_knows pre ch" and "reads_back recv_data io (concat (map announce post))" and "pm = pre @ post"
    and "distinct (map fst pm)" and "\<forall>(i, q) \<in> set pm. length i < 2 ^ 31 \<and> q \<noteq> 0" and "map_of pm mid = Some p"
    and "emp_ip ch \<noteq> []"
  shows "\<exists>pre' post' ch' io'. GetSubIO recv_data mid ch io = Some (Inr ((Some (emp_ip ch), p), [], ch', io')) \<and>
    client_knows pre' ch' \<and> reads_back recv_data io' (concat (map announce post')) \<and> pm = pre' @ post' \<and>
    emp_ip ch' = emp_ip ch"
proof (cases "map_of pre mid")
  case (Some q)
  then have q: "q = p" using assms(3,6) by (simp add: map_of_append assms(4))
  have nz: "p \<noteq> 0" using map_of_SomeD [OF assms(6)] assms(5) by auto
  show ?thesis
  proof (cases "std_find (msgid2io ch) mid")
    case None
    then have "std_find (msgid2port ch) mid = Some p"
      using client_knowsD(3) [OF assms(1), of mid] Some q by (simp add: id_state_def)
    then have "GetSubIO recv_data mid ch io = Some (Inr ((Some (emp_ip ch), p), [],
        ch\<lparr>msgid2io := std_assign mid (Some (emp_ip ch), p) (msgid2io ch)\<rparr>, io))"
      using None nz assms(7) by (simp add: GetSubIO_def find_port_done Let_def)
    with client_knows_io [OF assms(1)] Some q assms(2,3) show ?thesis
      by (intro exI [of _ pre] exI [of _ post]) auto
  next
    case (Some sub)
    then have "sub = (Some (emp_ip ch), p)"
      using client_knowsD(3) [OF assms(1), of mid] \<open>map_of pre mid = Some q\<close> q by (simp add: id_state_def)
    with Some assms(1,2,3) show ?thesis by (auto simp: GetSubIO_def)
  qed
next
  case None
  then have "(mid, p) \<in> set post" using assms(3,6) by (auto simp: map_add_def map_of_SomeD split: option.splits)
  then obtain q1 q2 where split: "post = q1 @ (mid, p) # q2" by (meson split_list)
  have fresh: "std_find (msgid2io ch) mid = None" "std_find (msgid2port ch) mid = None"
    using client_knowsD(3) [OF assms(1), of mid] None by (simp_all add: id_state_def)
  have "mid \<notin> fst ` set q1" using assms(3,4) split by auto
  moreover have "\<forall>(i, q) \<in> set (q1 @ [(mid, p)]). length i < 2 ^ 31" "p \<noteq> 0" using assms(3,5) split by auto
  moreover have "reads_back recv_data io (concat (map announce (q1 @ (mid, p) # q2)))" using assms(2) split by simp
  ultimately obtain io' where io': "find_port recv_data mid 0 (msgid2port ch) io =
      Some (Inr (p, fold (\<lambda>(i, q). std_assign i q) q1 (msgid2port ch), io'))"
    "reads_back recv_data io' (concat (map announce q2))"
    using find_port_finds [of recv_data io q1 mid p q2 "msgid2port ch"] by blast
  let ?m = "fold (\<lambda>(i, q). std_assign i q) q1 (msgid2port ch)"
  let ?ch = "ch\<lparr>msgid2port := ?m, msgid2io := std_assign mid (Some (emp_ip ch), p) (msgid2io ch)\<rparr>"
  have know: "client_knows (pre @ q1) (ch\<lparr>msgid2port := ?m\<rparr>)"
    by (rule client_knows_read [OF assms(1)]) (use assms(3,4) split in auto)
  have new: "map_of (pre @ q1) mid = None" using assms(3,4) split by (auto simp: map_of_eq_None_iff)
  have snoc: "map_of (pre @ q1 @ [(mid, p)]) = (map_of (pre @ q1))(mid \<mapsto> p)"
    using map_of_snoc [OF new] by (simp only: append_assoc)
  have "client_knows (pre @ q1 @ [(mid, p)]) ?ch"
    by (rule client_knows_upd [OF know, where i = mid])
      (use client_knowsD(1,2) [OF know] in \<open>simp_all add: snoc std.find_assign std.valid_assign id_state_def del: map_of_append\<close>)
  moreover have "GetSubIO recv_data mid ch io = Some (Inr ((Some (emp_ip ch), p), [], ?ch, io'))"
    using fresh io'(1) assms(7) by (simp add: GetSubIO_def Let_def)
  ultimately show ?thesis using io'(2) split assms(3)
    by (intro exI [of _ "pre @ q1 @ [(mid, p)]"] exI [of _ q2]) auto
qed

lemma dialling_sub_ios:
  assumes "client_knows pre ch" and "reads_back recv_data io (concat (map announce post))" and "pm = pre @ post"
    and "distinct (map fst pm)" and "\<forall>(i, q) \<in> set pm. length i < 2 ^ 31 \<and> q \<noteq> 0" and "set js \<subseteq> fst ` set pm"
    and "emp_ip ch \<noteq> []"
  shows "\<exists>ch' io'. sub_ios recv_data js ch io =
    Some (Inr (map (\<lambda>j. (Some (emp_ip ch), the (map_of pm j))) js, [], ch', io'))"
  using assms(1-3,6,7)
proof (induction js arbitrary: pre post ch io)
  case (Cons j js)
  then have "j \<in> fst ` set pm" by simp
  then obtain p where p: "map_of pm j = Some p" by (metis map_of_eq_None_iff not_None_eq)
  obtain pre' post' ch1 io1 where one: "GetSubIO recv_data j ch io = Some (Inr ((Some (emp_ip ch), p), [], ch1, io1))"
    "client_knows pre' ch1" "reads_back recv_data io1 (concat (map announce post'))" "pm = pre' @ post'"
    "emp_ip ch1 = emp_ip ch"
    using dialling_sub_io [OF Cons.prems(1-3) assms(4,5) p Cons.prems(5)] by blast
  with Cons.IH [OF one(2-4)] Cons.prems(4,5) p show ?case by auto
qed simp

text \<open>A cloned task can get a port that belongs to a message id: the hundredth clone has the first of them.\<close>

lemma clone_port_collides:
  assumes "emp_ip ch = []" and "port_offset ch = 100" and "std_find (msgid2io ch) mid = None"
  shows "\<exists>ch'. GetSubIO recv_data mid ch io =
    Some (Inr ((None, emp_main_port ''t#clone#100'' (emp_port ch)), announce (mid, emp_port ch + 100), ch', io))"
  using assms by (simp add: GetSubIO_def Let_def emp_main_port_def atoi_def)

section \<open>Properties\<close>

text \<open>C32: with emp-toolkit both ends use the same connection for a message id: when the listening node first uses
  distinct ids in any order, it gives them consecutive ports, all different; the dialling node, using any of them in
  any order and as often as it likes, terminates with the port the listening node gave each of them.\<close>

theorem emp_ends_agree:
  assumes "distinct ids" and "\<forall>i \<in> set ids. length i < 2 ^ 31" and "unat port + 100 + length ids < 2 ^ 31"
    and "sub_ios recv1 ids (new_emp_channel [] port) io1 = Some (Inr (subs, sent, srv, io1'))"
    and "reads_back recv2 io2 sent" and "set js \<subseteq> set ids" and "ip \<noteq> []"
  shows "subs = map (\<lambda>k. (None, port + 100 + word_of_nat k)) [0..<length ids] \<and> distinct subs \<and>
    (\<exists>cl io2'. sub_ios recv2 js (new_emp_channel ip port) io2 =
      Some (Inr (map (\<lambda>j. (Some ip, snd (the (map_of (zip ids subs) j)))) js, [], cl, io2')))"
proof -
  let ?pm = "port_table port 100 ids"
  obtain srv' where "sub_ios recv1 ids (new_emp_channel [] port) io1 =
      Some (Inr (map (\<lambda>(_, p). (None, p)) ?pm, concat (map announce ?pm), srv', io1))"
    using listening_sub_ios [of "new_emp_channel [] port" 100 ids recv1 io1] assms(1) by (auto simp: new_emp_channel_def)
  then have subs: "subs = map (\<lambda>(_, p). (None, p)) ?pm" and sent: "sent = concat (map announce ?pm)"
    using assms(4) by simp_all
  have ids: "map fst ?pm = ids" by (rule port_table_ids)
  have nz: "\<forall>(i, q) \<in> set ?pm. length i < 2 ^ 31 \<and> q \<noteq> 0"
    using port_table_nonzero [of _ _ port 100 ids] assms(2,3) by (force simp: port_table_def)
  have "client_knows [] (new_emp_channel ip port)" by (simp add: client_knows_def new_emp_channel_def id_state_def)
  moreover have "reads_back recv2 io2 (concat (map announce ?pm))" using assms(5) sent by simp
  moreover have "set js \<subseteq> fst ` set ?pm" using assms(6) ids by (metis list.set_map)
  ultimately obtain cl io2' where cl: "sub_ios recv2 js (new_emp_channel ip port) io2 =
      Some (Inr (map (\<lambda>j. (Some ip, the (map_of ?pm j))) js, [], cl, io2'))"
    using dialling_sub_ios [of "[]" "new_emp_channel ip port" recv2 io2 ?pm ?pm js] assms(1,7) ids nz
    by (auto simp: new_emp_channel_def)
  have zip: "zip ids subs = map (\<lambda>(i, p). (i, (None, p))) ?pm"
    unfolding subs by (subst ids [symmetric]) (simp add: zip_map_map zip_same_conv_map case_prod_unfold)
  have "snd (the (map_of (zip ids subs) j)) = the (map_of ?pm j)" if "j \<in> set js" for j
  proof -
    have "j \<in> fst ` set ?pm" using that assms(6) ids by (metis list.set_map subsetD)
    then obtain p where "map_of ?pm j = Some p" by (metis map_of_eq_None_iff not_None_eq)
    then show ?thesis by (simp add: zip map_of_map)
  qed
  then have "map (\<lambda>j. (Some ip, the (map_of ?pm j))) js = map (\<lambda>j. (Some ip, snd (the (map_of (zip ids subs) j)))) js"
    by simp
  moreover have "distinct subs"
    using port_table_distinct [of port 100 ids] assms(3) unfolding subs by (auto simp: distinct_map inj_on_def case_prod_unfold)
  moreover have "subs = map (\<lambda>k. (None, port + 100 + word_of_nat k)) [0..<length ids]"
    unfolding subs by (simp add: port_table_def add.assoc)
  ultimately show ?thesis using cl by metis
qed

text \<open>A connection for the witness: the bytes still to come.\<close>

definition byte_feed :: "bytes \<Rightarrow> nat \<Rightarrow> bytes \<times> bytes" where
  "byte_feed io n = (take n io, drop n io)"

lemma byte_feed_reads_back: "reads_back byte_feed (concat cs) cs"
  by (induction cs) (simp_all add: byte_feed_def)

theorem emp_ends_agree_witness:
  "\<exists>sent srv cl rest. sub_ios byte_feed [''a'', ''b''] (new_emp_channel [] 1000) [] =
       Some (Inr ([(None, 1100), (None, 1101)], sent, srv, [])) \<and>
     sub_ios byte_feed [''b'', ''a'', ''b''] (new_emp_channel ''h'' 1000) (concat sent) =
       Some (Inr ([(Some ''h'', 1101), (Some ''h'', 1100), (Some ''h'', 1101)], [], cl, rest))"
proof -
  obtain sent srv where one: "sub_ios byte_feed [''a'', ''b''] (new_emp_channel [] 1000) [] =
      Some (Inr ([(None, 1100), (None, 1101)], sent, srv, []))"
    by (simp add: GetSubIO_def new_emp_channel_def Let_def)
  have pre: "distinct [''a'', ''b'']" "\<forall>i \<in> set [''a'', ''b'']. length i < 2 ^ 31"
    "unat (1000 :: cint) + 100 + length [''a'', ''b''] < 2 ^ 31" "set [''b'', ''a'', ''b''] \<subseteq> set [''a'', ''b'']" by simp_all
  from emp_ends_agree [OF pre(1-3) one byte_feed_reads_back pre(4), of "''h''"] one show ?thesis by auto
qed

end
