(* ===== verification/Config_Check.thy ===== *)
theory Config_Check
  imports Channel_Link Emp_Channel
begin

text \<open>
  The program \<open>example/check_config_json.cpp\<close>: every node reads its configuration from a file, sends it to the nodes
  it is connected to, first the size and then the text under one message id, and receives theirs. The
  channel is that of \<open>Net_IO\<close>; the threads that carry the bytes are those of \<open>Delivery\<close>. The id is not
  hexadecimal and is accepted all the same.
\<close>

section \<open>Reading the file\<close>

text \<open>\<open>fgets\<close> with a buffer of \<open>n\<close> bytes: at most \<open>n - 1\<close> bytes, up to the end of a line.\<close>

definition line_end :: "bytes \<Rightarrow> nat" where
  "line_end s = (let k = length (takeWhile (\<lambda>c. c \<noteq> CHR 0x0A) s) in if k < length s then Suc k else k)"

definition fgets :: "nat \<Rightarrow> bytes \<Rightarrow> (bytes \<times> bytes) option" where
  "fgets n content = (if content = [] then None else let k = min (n - 1) (line_end content) in Some (take k content, drop k content))"

lemma line_end_pos: "s \<noteq> [] \<Longrightarrow> 0 < line_end s"
  by (cases s) (auto simp: line_end_def Let_def)

lemma fgets_shorter: "fgets n content = Some (buf, rest) \<Longrightarrow> 1 < n \<Longrightarrow> length rest < length content"
  using line_end_pos [of content] by (auto simp: fgets_def Let_def split: if_splits)

lemma fgets_whole: "fgets n content = Some (buf, rest) \<Longrightarrow> content = buf @ rest"
  by (auto simp: fgets_def Let_def split: if_splits)

text \<open>\<open>string(buf)\<close> ends at the first terminator.\<close>

function read_config :: "bytes \<Rightarrow> bytes \<Rightarrow> bytes" where
  "read_config config_str content =
    (case fgets 1024 content of
       None \<Rightarrow> config_str
     | Some (buf, rest) \<Rightarrow> read_config (config_str @ c_part buf) rest)"
  by pat_completeness auto
termination by (relation "measure (\<lambda>(_, content). length content)") (auto dest: fgets_shorter)

declare read_config.simps [simp del]

text \<open>A file without terminators is read whole; otherwise the rest of each piece is lost.\<close>

lemma read_config_step:
  "read_config s [] = s"
  "fgets 1024 content = Some (buf, rest) \<Longrightarrow> read_config s content = read_config (s @ c_part buf) rest"
  by (subst read_config.simps, simp add: fgets_def) (subst read_config.simps, simp)

lemma read_config_clean: "c_clean content \<Longrightarrow> read_config s content = s @ content"
proof (induction content arbitrary: s rule: length_induct)
  case (1 content)
  show ?case
  proof (cases "fgets 1024 content")
    case None
    then have "content = []" by (simp add: fgets_def Let_def split: if_splits)
    then show ?thesis by (simp only: read_config_step append_Nil2)
  next
    case (Some r)
    obtain buf rest where r: "fgets 1024 content = Some (buf, rest)" using Some by (cases r) simp
    have content: "content = buf @ rest" by (rule fgets_whole [OF r])
    then have "c_clean buf" "c_clean rest" using "1.prems" by (simp_all add: c_clean_def)
    moreover have "length rest < length content" using fgets_shorter [OF r] by simp
    ultimately have "read_config (s @ buf) rest = (s @ buf) @ rest" using "1.IH" by blast
    then show ?thesis using read_config_step(2) [OF r, of s] content \<open>c_clean buf\<close> by simp
  qed
qed

section \<open>Sending and receiving\<close>

definition data_id :: bytes where
  "data_id = ''config str''"

definition send_to :: "basic_io \<Rightarrow> bytes \<Rightarrow> conn_heap \<Rightarrow> bytes \<Rightarrow> conn_heap res" where
  "send_to io config_str h node =
    bindE (Send io h node data_id (int_bytes (word_of_nat (length config_str)))) (\<lambda>(_, h1).
    bindE (Send io h1 node data_id config_str) (\<lambda>(_, h2). Inr h2))"

fun send_config :: "basic_io \<Rightarrow> bytes \<Rightarrow> conn_heap \<Rightarrow> bytes list \<Rightarrow> conn_heap res" where
  "send_config io config_str h [] = Inr h"
| "send_config io config_str h (node # nodes) =
     bindE (send_to io config_str h node) (\<lambda>h'. send_config io config_str h' nodes)"

text \<open>\<open>ts\<close> is the state of the connection when a call of \<open>Recv\<close> begins. The size is an \<open>int\<close>, that of a string
  is unsigned.\<close>

definition recv_from :: "basic_io \<Rightarrow> bool \<Rightarrow> conn_heap \<Rightarrow> conn_state \<Rightarrow> conn_state \<Rightarrow> bytes \<Rightarrow>
    (bytes \<times> conn_heap) res" where
  "recv_from io stopped h ts ts' node =
    bindE (Recv io stopped h ts 0 node data_id 4 (-1)) (\<lambda>(_, size, h1).
    bindE (resize (scast (bytes_int size))) (\<lambda>n.
    bindE (Recv io stopped h1 ts' 0 node data_id (word_of_nat n) (-1)) (\<lambda>(_, data, h2). Inr (data, h2))))"

fun recv_config :: "basic_io \<Rightarrow> bool \<Rightarrow> conn_heap \<Rightarrow> (bytes \<Rightarrow> conn_state) \<Rightarrow> bytes list \<Rightarrow>
    (bytes list \<times> conn_heap) res" where
  "recv_config io stopped h ts [] = Inr ([], h)"
| "recv_config io stopped h ts (node # nodes) =
     bindE (recv_from io stopped h (ts node) (ts node) node) (\<lambda>(data, h1).
     bindE (recv_config io stopped h1 ts nodes) (\<lambda>(datas, h2). Inr (data # datas, h2)))"

definition config_bin :: bytes where
  "config_bin = [CHR 0xD8, CHR 0x7F, CHR 0x30, CHR 0x1C, CHR 0xDB]"

lemma data_id_binary: "get_string data_id = Inr config_bin"
  unfolding data_id_def config_bin_def by code_simp

definition config_messages :: "bytes \<Rightarrow> message list" where
  "config_messages config_str =
    [(config_bin, int_bytes (word_of_nat (length config_str))), (config_bin, config_str)]"

lemma payloads_config: "payloads (msgs @ config_messages c) config_bin =
    payloads msgs config_bin @ int_bytes (word_of_nat (length c)) @ c"
  by (simp add: config_messages_def)

lemma frames_config: "length (frames (config_messages c)) = 32 + length c"
  by (simp add: config_messages_def config_bin_def)

lemma Send_at:
  assumes "std_find (connection_map io) node = Some (Some p)" and "h p = Some c" and "get_string hexid = Inr i"
    and "send_msg c i d = Inr (n, c')"
  shows "Send io h node hexid d = Inr (sint n, h(p \<mapsto> c'))"
  using assms by (simp add: Send_def basic_send_def node_connection_def)

lemma Recv_at:
  assumes "std_find (connection_map io) node = Some (Some p)" and "h p = Some c" and "get_string hexid = Inr i"
    and "conn_recv ts el c i len timeout = Inr (n, d, c')"
  shows "Recv io False h ts el node hexid len timeout = Inr (n, d, h(p \<mapsto> c'))"
  using assms by (simp add: Recv_def basic_recv_def node_connection_def)

text \<open>Both messages fit: the send goes through and the link holds them.\<close>

lemma link_send:
  assumes "link_inv task l" and "msg_ok (i, d)" and "length (frames (sent l @ [(i, d)])) \<le> cb_limit"
  obtains n c where "send_msg (tx l) i d = Inr (n, c)" "link_inv task (l\<lparr>tx := c, sent := sent l @ [(i, d)]\<rparr>)"
proof -
  from assms(1) obtain trq tms sq where r: "conn_repr (tx l) trq tms sq" "length sq \<le> length (frames (sent l))"
    by (elim link_invE) (metis frames_simps(3) length_append le_add2 add.assoc le_trans add.commute)
  then have "length sq + (9 + length i + length d) \<le> cb_limit" using assms(3) by simp
  from send_msg_ok [OF r(1) this] obtain n c where "send_msg (tx l) i d = Inr (n, c)" by blast
  with link_inv_send [OF assms this] that show thesis by blast
qed

lemma send_to_ok:
  assumes "std_find (connection_map io) node = Some (Some p)" and "h p = Some (tx l)" and "link_inv task l"
    and "length (frames (sent l)) + 32 + length config_str \<le> cb_limit"
  shows "\<exists>c. send_to io config_str h node = Inr (h(p \<mapsto> c)) \<and>
    link_inv task (l\<lparr>tx := c, sent := sent l @ config_messages config_str\<rparr>)"
proof -
  let ?d = "int_bytes (word_of_nat (length config_str))"
  have ok: "msg_ok (config_bin, ?d)" "msg_ok (config_bin, config_str)"
    using assms(4) by (simp_all add: msg_ok_def config_bin_def cb_limit_def)
  have "length (frames (sent l @ [(config_bin, ?d)])) \<le> cb_limit" using assms(4) by (simp add: config_bin_def)
  from link_send [OF assms(3) ok(1) this] obtain n c where
    1: "send_msg (tx l) config_bin ?d = Inr (n, c)" "link_inv task (l\<lparr>tx := c, sent := sent l @ [(config_bin, ?d)]\<rparr>)" .
  have "length (frames (sent (l\<lparr>tx := c, sent := sent l @ [(config_bin, ?d)]\<rparr>) @ [(config_bin, config_str)])) \<le> cb_limit"
    using assms(4) by (simp add: config_bin_def)
  from link_send [OF 1(2) ok(2) this] obtain m c' where
    2: "send_msg c config_bin config_str = Inr (m, c')"
      "link_inv task (l\<lparr>tx := c', sent := sent l @ config_messages config_str\<rparr>)"
    by (auto simp: config_messages_def)
  have "send_to io config_str h node = Inr (h(p \<mapsto> c'))"
    using Send_at [where h = h, OF assms(1,2) data_id_binary 1(1)]
      Send_at [where h = "h(p \<mapsto> c)", OF assms(1) _ data_id_binary 2(1)]
    by (simp add: send_to_def)
  with 2(2) show ?thesis by blast
qed

text \<open>\<open>send_config\<close> is one such send for every node, each on its own connection.\<close>

lemma send_config_ok:
  assumes "distinct (map ptr nodes)"
    and "\<And>n. n \<in> set nodes \<Longrightarrow> std_find (connection_map io) n = Some (Some (ptr n)) \<and> h (ptr n) = Some (tx (L n)) \<and>
      link_inv task (L n) \<and> length (frames (sent (L n))) + 32 + length config_str \<le> cb_limit"
  shows "\<exists>h'. send_config io config_str h nodes = Inr h' \<and> (\<forall>n \<in> set nodes. \<exists>c. h' (ptr n) = Some c \<and>
      link_inv task ((L n)\<lparr>tx := c, sent := sent (L n) @ config_messages config_str\<rparr>)) \<and>
    (\<forall>p. p \<notin> ptr ` set nodes \<longrightarrow> h' p = h p)"
  using assms
proof (induction nodes arbitrary: h)
  case (Cons n ns)
  obtain c where c: "send_to io config_str h n = Inr (h(ptr n \<mapsto> c))"
    "link_inv task ((L n)\<lparr>tx := c, sent := sent (L n) @ config_messages config_str\<rparr>)"
    using send_to_ok [of io n "ptr n" h "L n" task config_str] Cons.prems(2) [of n] by auto
  let ?h = "h(ptr n \<mapsto> c)"
  have "m \<in> set ns \<Longrightarrow> ptr m \<noteq> ptr n" for m using Cons.prems(1) by (auto simp: image_iff)
  then have "m \<in> set ns \<Longrightarrow> std_find (connection_map io) m = Some (Some (ptr m)) \<and> ?h (ptr m) = Some (tx (L m)) \<and>
      link_inv task (L m) \<and> length (frames (sent (L m))) + 32 + length config_str \<le> cb_limit" for m
    using Cons.prems(2) [of m] by simp
  then have "\<exists>h'. send_config io config_str ?h ns = Inr h' \<and> (\<forall>n \<in> set ns. \<exists>c. h' (ptr n) = Some c \<and>
      link_inv task ((L n)\<lparr>tx := c, sent := sent (L n) @ config_messages config_str\<rparr>)) \<and>
    (\<forall>p. p \<notin> ptr ` set ns \<longrightarrow> h' p = ?h p)"
    using Cons.prems(1) by (intro Cons.IH) auto
  then obtain h' where
    h': "send_config io config_str ?h ns = Inr h'" "\<forall>n \<in> set ns. \<exists>c. h' (ptr n) = Some c \<and>
      link_inv task ((L n)\<lparr>tx := c, sent := sent (L n) @ config_messages config_str\<rparr>)"
    "\<forall>p. p \<notin> ptr ` set ns \<longrightarrow> h' p = ?h p" by blast
  have "h' (ptr n) = Some c" using h'(3) Cons.prems(1) by simp
  with c h' show ?case by auto
qed simp

text \<open>A node whose messages have all arrived is received from without a wait.\<close>

definition holds_config :: "bytes \<Rightarrow> connection \<Rightarrow> bool" where
  "holds_config config_str c \<longleftrightarrow> (\<exists>rq ms sq. conn_repr c rq ms sq \<and>
     ms config_bin = int_bytes (word_of_nat (length config_str)) @ config_str)"

lemma conn_recv_keeps:
  "conn_recv ts el c i len timeout = Inr (n, d, c') \<Longrightarrow> 0 \<le> n \<Longrightarrow> conn_repr c rq ms sq \<Longrightarrow> std_find (mapbuffer c') i \<noteq> None"
  by (auto simp: conn_recv_def Let_def bindE_eq_Inr E_UNCONNECTED_def E_TIMEOUT_def conn_repr_def streams_def std.find_assign
      split: option.splits if_splits)

lemma recv_ready:
  assumes "conn_repr c rq ms sq" and "unat len \<le> length (ms i)" and "std_find (mapbuffer c) i \<noteq> None"
  obtains c' where "conn_recv (state c) 0 c i len (-1) = Inr (sint len, take (unat len) (ms i), c')"
    "conn_repr c' rq (ms(i := drop (unat len) (ms i))) sq" "state c' = state c"
  using conn_recv_ok [OF assms(1), of "state c" 0 "-1" len i] assms(2,3) by auto

lemma recv_from_ok:
  assumes "std_find (connection_map io) node = Some (Some p)" and "h p = Some c"
    and "holds_config config_str c" and "length config_str < 2 ^ 31"
  shows "\<exists>c'. recv_from io False h (state c) (state c) node = Inr (config_str, h(p \<mapsto> c'))"
proof -
  let ?size = "int_bytes (word_of_nat (length config_str))" and ?n = "word_of_nat (length config_str) :: u64"
  obtain rq ms sq where r: "conn_repr c rq ms sq" "ms config_bin = ?size @ config_str"
    using assms(3) by (auto simp: holds_config_def)
  have len: "unat ?n = length config_str" using assms(4) by (simp add: unat_u64_of_nat)
  have "ms config_bin \<noteq> []" using r(2) by (simp flip: length_greater_0_conv)
  then have "std_find (mapbuffer c) config_bin \<noteq> None" using r(1) streams_none by (auto simp: conn_repr_def)
  then obtain c1 where
    1: "conn_recv (state c) 0 c config_bin 4 (-1) = Inr (4, ?size, c1)"
      "conn_repr c1 rq (ms(config_bin := config_str)) sq" "state c1 = state c"
    using r(2) by (auto intro: recv_ready [OF r(1), of 4 config_bin])
  from recv_ready [OF 1(2) _ conn_recv_keeps [OF 1(1) _ r(1)], of ?n] len 1(3) obtain c2 where
    2: "conn_recv (state c) 0 c1 config_bin ?n (-1) = Inr (sint ?n, config_str, c2)" by auto
  show ?thesis
    using Recv_at [where h = h, OF assms(1,2) data_id_binary 1(1)]
      Recv_at [where h = "h(p \<mapsto> c1)", OF assms(1) _ data_id_binary 2]
    by (auto simp: recv_from_def resize_length [OF assms(4)])
qed

section \<open>The whole exchange\<close>

lemma link_delivers_config:
  assumes "link_inv task l" and "payloads msgs config_bin = got l config_bin" and "sent l = msgs @ config_messages config_str"
  obtains l' where "(link_step task)\<^sup>*\<^sup>* l l'" "sent l' = sent l" "got l' = got l" "holds_config config_str (rx l')"
proof -
  obtain l' ms rsq where l': "(link_step task)\<^sup>*\<^sup>* l l'" "sent l' = sent l" "got l' = got l"
    "conn_repr (rx l') [] ms rsq" "\<forall>i. payloads (sent l) i = got l i @ ms i"
    using link_quiesce [OF assms(1)] by blast
  have "got l config_bin @ ms config_bin = got l config_bin @ int_bytes (word_of_nat (length config_str)) @ config_str"
    using l'(5) payloads_config [of msgs config_str] assms(2,3) by metis
  then have "holds_config config_str (rx l')" using l'(4) by (auto simp: holds_config_def)
  with l'(1-3) that show thesis by blast
qed

lemma recv_config_ok:
  assumes "distinct (map ptr nodes)"
    and "\<And>n. n \<in> set nodes \<Longrightarrow> std_find (connection_map io) n = Some (Some (ptr n)) \<and>
      (\<exists>c. h (ptr n) = Some c \<and> holds_config (cfg n) c \<and> ts n = state c) \<and> length (cfg n) < 2 ^ 31"
  shows "\<exists>h'. recv_config io False h ts nodes = Inr (map cfg nodes, h')"
  using assms
proof (induction nodes arbitrary: h)
  case (Cons n ns)
  obtain c where c: "std_find (connection_map io) n = Some (Some (ptr n))" "h (ptr n) = Some c"
    "holds_config (cfg n) c" "ts n = state c" "length (cfg n) < 2 ^ 31"
    using Cons.prems(2) [of n] by auto
  obtain c' where r: "recv_from io False h (ts n) (ts n) n = Inr (cfg n, h(ptr n \<mapsto> c'))"
    using recv_from_ok [where h = h, OF c(1-3,5)] c(4) by auto
  have "m \<in> set ns \<Longrightarrow> ptr m \<noteq> ptr n" for m using Cons.prems(1) by (auto simp: image_iff)
  then have "\<exists>h'. recv_config io False (h(ptr n \<mapsto> c')) ts ns = Inr (map cfg ns, h')"
    using Cons.prems by (intro Cons.IH) auto
  with r show ?case by auto
qed simp

text \<open>C26: in \<open>check_config_json.cpp\<close> every node gets the configuration file of every node it is connected to: from any
  reachable state of the connections in which nothing is left unread under the id of the program, the peers can
  send what they read, the threads can carry it over, and then \<open>recv_config\<close> returns exactly the files of the
  peers, in the order of the nodes, without waiting. The files hold no terminator and are shorter than \<open>2 ^ 31\<close>.\<close>

theorem configs_are_exchanged:
  assumes "distinct (map ptr nodes)"
    and "\<And>n. n \<in> set nodes \<Longrightarrow>
      (link_step task)\<^sup>*\<^sup>* (new_link (new_connection f ev srv p) (new_connection f' ev' srv' p')) (L n) \<and>
      payloads (sent (L n)) config_bin = got (L n) config_bin \<and>
      length (frames (sent (L n))) + 32 + length (content n) \<le> cb_limit \<and> length (content n) < 2 ^ 31 \<and> c_clean (content n)"
    and "\<And>n. n \<in> set nodes \<Longrightarrow> std_find (connection_map (peer n)) me = Some (Some (pp n)) \<and>
      std_find (connection_map io) n = Some (Some (ptr n))"
  shows "\<exists>c L' h'. (\<forall>n \<in> set nodes. send_to (peer n) (read_config [] (content n)) [pp n \<mapsto> tx (L n)] me = Inr [pp n \<mapsto> c n] \<and>
      (link_step task)\<^sup>*\<^sup>* ((L n)\<lparr>tx := c n, sent := sent (L n) @ config_messages (content n)\<rparr>) (L' n)) \<and>
    recv_config io False (map_of (map (\<lambda>n. (ptr n, rx (L' n))) nodes)) (\<lambda>n. state (rx (L' n))) nodes =
      Inr (map content nodes, h')"
proof -
  have "\<exists>c l'. send_to (peer n) (content n) [pp n \<mapsto> tx (L n)] me = Inr [pp n \<mapsto> c] \<and>
      (link_step task)\<^sup>*\<^sup>* ((L n)\<lparr>tx := c, sent := sent (L n) @ config_messages (content n)\<rparr>) l' \<and>
      holds_config (content n) (rx l')" if n: "n \<in> set nodes" for n
  proof -
    have a: "link_inv task (L n)" using assms(2) [OF n] link_inv_reach by blast
    note a = a assms(2,3) [OF n]
    obtain c where c: "send_to (peer n) (content n) [pp n \<mapsto> tx (L n)] me = Inr [pp n \<mapsto> c]"
      "link_inv task ((L n)\<lparr>tx := c, sent := sent (L n) @ config_messages (content n)\<rparr>)"
      using send_to_ok [of "peer n" me "pp n" "[pp n \<mapsto> tx (L n)]" "L n" task "content n"] a by auto
    show ?thesis
      by (rule link_delivers_config [OF c(2), of "sent (L n)" "content n"]) (use a c(1) in auto)
  qed
  then obtain c L' where r: "\<forall>n \<in> set nodes. send_to (peer n) (content n) [pp n \<mapsto> tx (L n)] me = Inr [pp n \<mapsto> c n] \<and>
      (link_step task)\<^sup>*\<^sup>* ((L n)\<lparr>tx := c n, sent := sent (L n) @ config_messages (content n)\<rparr>) (L' n) \<and>
      holds_config (content n) (rx (L' n))" by metis
  have "map_of (map (\<lambda>n. (ptr n, rx (L' n))) nodes) (ptr n) = Some (rx (L' n))" if "n \<in> set nodes" for n
    using assms(1) that by (intro map_of_is_SomeI) (auto simp: comp_def)
  then have "\<exists>h'. recv_config io False (map_of (map (\<lambda>n. (ptr n, rx (L' n))) nodes)) (\<lambda>n. state (rx (L' n))) nodes =
      Inr (map content nodes, h')"
    using assms r by (intro recv_config_ok) auto
  moreover have "read_config [] (content n) = content n" if "n \<in> set nodes" for n
    using assms(2) [OF that] read_config_clean [of "content n" "[]"] by simp
  ultimately show ?thesis using r by (intro exI [of _ c] exI [of _ L']) (simp del: recv_config.simps)
qed

theorem configs_are_exchanged_witness:
  "\<exists>io h ts h'. recv_config io False h ts [''B'', ''C''] = Inr ([''{}'', ''{1}''], h')"
proof -
  let ?l = "new_link (new_connection 3 0 False ''peer'') (new_connection 3 0 False ''peer'')"
  define io where "io = (new_basic_io ''t'' \<lparr>nid = ''A'', address = [], port = 0\<rparr> [] [])
     \<lparr>connection_map := [(''B'', Some 1), (''C'', Some 2)]\<rparr>"
  define peer where "peer = io\<lparr>connection_map := [(''A'', Some 1)]\<rparr>"
  define ptr :: "bytes \<Rightarrow> conn_ptr" where "ptr n = (if n = ''B'' then 1 else 2)" for n
  define content :: "bytes \<Rightarrow> bytes" where "content n = (if n = ''B'' then ''{}'' else ''{1}'')" for n
  have "std_find (connection_map peer) ''A'' = Some (Some 1)"
    "n \<in> set [''B'', ''C''] \<Longrightarrow> std_find (connection_map io) n = Some (Some (ptr n))" for n
    by (auto simp: peer_def io_def ptr_def new_basic_io_def)
  moreover have "payloads (sent ?l) config_bin = got ?l config_bin"
    "length (frames (sent ?l)) + 32 + length (content n) \<le> cb_limit" "length (content n) < 2 ^ 31" "c_clean (content n)" for n
    by (simp_all add: new_link_def content_def cb_limit_def c_clean_def)
  moreover have "distinct (map ptr [''B'', ''C''])" by (simp add: ptr_def)
  note t = configs_are_exchanged [of ptr "[''B'', ''C'']" "''t''" 3 0 False "''peer''" 3 0 False "''peer''" "\<lambda>_. ?l" content
      "\<lambda>_. peer" "''A''" "\<lambda>_. 1" io, OF this]
  ultimately have "\<exists>io h ts h'. recv_config io False h ts [''B'', ''C''] = Inr (map content [''B'', ''C''], h')"
    using t by (simp del: recv_config.simps list.map) blast
  then show ?thesis by (simp add: content_def del: recv_config.simps)
qed

end
