(* ===== verification/Epoll_Watch.thy ===== *)
theory Epoll_Watch
  imports Net_IO
begin

text \<open>
  The connections a node dialled and the epoll instance of its servers. The thread of \<open>BasicIO::init\<close> that has connected
  adds the connection to the epoll set with \<open>add_connection_to_epoll\<close>, if its client made the connection
  (\<open>is_first_connect\<close>); a client that found the connection of an earlier task adds nothing. The clients and the
  servers of a process decide independently when the last task is gone: \<open>TCPClient::close\<close> keeps the connections
  while received data are unread, \<open>TCPServer::stop\<close> closes the epoll instance.

  \<open>io_step\<close> interleaves the servers (\<open>server_step\<close>), the clients (\<open>client_step\<close>) and the threads of \<open>init\<close>.
\<close>

section \<open>Steps\<close>

record io_node =
  n_servers :: server_system
  n_clients :: client_system
  to_watch :: "nat set"          \<comment> \<open>clients whose \<open>connect\<close> has returned true, with the rest of the thread to come\<close>

definition new_io_node :: io_node where
  "new_io_node = \<lparr>n_servers = new_system, n_clients = new_client_system, to_watch = {}\<rparr>"

text \<open>What the thread does with the connection of its client: a null pointer cannot be added.\<close>

definition watch_new :: "tcp_client \<Rightarrow> server_static \<Rightarrow> server_static res" where
  "watch_new cl st =
    (if is_first_connect cl then
       (case cl_conn cl of None \<Rightarrow> Inl Null_Deref | Some ptr \<Rightarrow> Inr (add_connection_to_epoll ptr st))
     else Inr st)"

definition dialled_objs :: "io_node \<Rightarrow> conn_ptr set" where
  "dialled_objs n = dom (c_objs (c_static (n_clients n)))"

definition watched :: "io_node \<Rightarrow> conn_ptr set" where
  "watched n = epoll_set (static (n_servers n))"

definition now_connected :: "client_system \<Rightarrow> client_system \<Rightarrow> nat set" where
  "now_connected c c' = {k. (\<exists>cl. clients c' k = Some cl \<and> phase cl = In_Use) \<and>
     \<not> (\<exists>cl. clients c k = Some cl \<and> phase cl = In_Use)}"

text \<open>The servers themselves add connections they accepted only, and the object of a new connection is not that of another.\<close>

inductive io_step :: "io_node \<Rightarrow> io_node \<Rightarrow> bool" where
  Server_Side: "server_step (n_servers n) v \<Longrightarrow> epoll_set (static v) \<inter> dialled_objs n \<subseteq> watched n \<Longrightarrow>
    io_step n (n\<lparr>n_servers := v\<rparr>)"
| Client_Side: "client_step (n_clients n) c \<Longrightarrow>
    (dom (c_objs (c_static c)) - dialled_objs n) \<inter> (watched n \<union> dom (objs (static (n_servers n)))) = {} \<Longrightarrow>
    io_step n (n\<lparr>n_clients := c, to_watch := to_watch n \<union> now_connected (n_clients n) c\<rparr>)"
| Watch: "k \<in> to_watch n \<Longrightarrow> clients (n_clients n) k = Some cl \<Longrightarrow>
    servers (n_servers n) j = Some srv \<Longrightarrow> \<not> stop_flag srv \<Longrightarrow> loop_thread srv \<noteq> No_Thread \<Longrightarrow>
    watch_new cl (static (n_servers n)) = Inr st \<Longrightarrow>
    io_step n (n\<lparr>n_servers := (n_servers n)\<lparr>static := st\<rparr>, to_watch := to_watch n - {k}\<rparr>)"

inductive_cases io_stepE: "io_step n n'"

section \<open>Clients that have not connected yet\<close>

definition not_first :: "client_system \<Rightarrow> bool" where
  "not_first c \<longleftrightarrow> (\<forall>k cl. clients c k = Some cl \<and> phase cl \<in> {Waits, Dialing} \<longrightarrow> \<not> is_first_connect cl)"

definition registered_ok :: "client_system \<Rightarrow> bool" where
  "registered_ok c \<longleftrightarrow> sorted_map (c_connections (c_static c)) \<and>
     (\<forall>a ptr. std_find (c_connections (c_static c)) a = Some ptr \<longrightarrow> ptr \<in> dom (c_objs (c_static c)))"

lemma use_connection_uses:
  assumes "use_connection ptr cl st = Inr (cl', st')"
  shows "cl_conn cl' = Some ptr" "connected cl'" "is_first_connect cl' = is_first_connect cl" "phase cl' = In_Use"
    "dom (c_objs st') = dom (c_objs st)" "c_connections st' = c_connections st"
  using assms by (auto simp: use_connection_def get_c_obj_def bindE_eq_Inr split: option.splits if_splits)

lemma claim_address_flags:
  "claim_address cl st = (cl', st') \<Longrightarrow> is_first_connect cl' = is_first_connect cl \<and> c_objs st' = c_objs st \<and> phase cl' \<noteq> In_Use"
  by (auto simp: claim_address_def split: if_splits)

text \<open>A step of the clients: new objects are those of connections just made, and only their client may add them.\<close>

lemma connect_enter_flags:
  assumes "connect_enter cl st = Inr (cl', st')"
  shows "is_first_connect cl' = is_first_connect cl" "dom (c_objs st') = dom (c_objs st)"
proof -
  let ?st = "st\<lparr>client_task_count := client_task_count st + 1\<rparr>"
  have "is_first_connect cl' = is_first_connect cl \<and> dom (c_objs st') = dom (c_objs st)"
  proof (cases "std_find (c_connections st) (cl_address cl)")
    case None
    then have "claim_address cl ?st = (cl', st')" using assms by (simp add: connect_enter_def)
    from claim_address_flags [OF this] show ?thesis by simp
  next
    case (Some ptr)
    then obtain c where "get_c_obj ptr ?st = Inr c" and
      c: "(if reuseable c then use_connection ptr cl ?st
        else Inr (claim_address cl (?st\<lparr>c_recycle := c_recycle ?st @ [ptr],
          c_connections := std_erase (cl_address cl) (c_connections ?st)\<rparr>))) = Inr (cl', st')"
      using assms by (auto simp: connect_enter_def Let_def bindE_eq_Inr)
    show ?thesis
    proof (cases "reuseable c")
      case True
      then have "use_connection ptr cl ?st = Inr (cl', st')" using c by simp
      from use_connection_uses [OF this] show ?thesis by simp
    next
      case False
      then have "claim_address cl (?st\<lparr>c_recycle := c_recycle ?st @ [ptr],
          c_connections := std_erase (cl_address cl) (c_connections ?st)\<rparr>) = (cl', st')" using c by simp
      from claim_address_flags [OF this] show ?thesis by simp
    qed
  qed
  then show "is_first_connect cl' = is_first_connect cl" "dom (c_objs st') = dom (c_objs st)" by simp_all
qed

lemma connect_dial_flags:
  assumes "connect_dial ptr timeout n as cl st = Some (Inr (cl', st'))"
  shows "phase cl' = Dial_Failed \<and> is_first_connect cl' = is_first_connect cl \<and> c_connections st' = c_connections st \<and>
      dom (c_objs st) \<subseteq> dom (c_objs st') \<or>
    phase cl' = In_Use \<and> cl_conn cl' = Some ptr \<and> is_first_connect cl' \<and> dom (c_objs st') = insert ptr (dom (c_objs st)) \<and>
    c_connections st' = std_insert (cl_address cl) ptr (c_connections st)"
  using assms by (auto simp: connect_dial_def connect_register_def connect_give_up_def bindE_eq_Inr
      split: option.splits if_splits dial_end.splits)

lemma close_clients_dom: "close_clients cs st = Inr st' \<Longrightarrow> dom (c_objs st') = dom (c_objs st) \<and> c_connections st' = c_connections st"
proof (induction cs st rule: close_clients.induct)
  case (2 node ptr cs st)
  then show ?case by (fastforce simp: bindE_eq_Inr get_c_obj_def split: option.splits)
qed simp

lemma client_close_dom:
  assumes "client_close st = Inr st'"
  shows "dom (c_objs st') = dom (c_objs st) \<and> (c_connections st' = c_connections st \<or> c_connections st' = [])"
  using assms close_clients_dom by (fastforce simp: client_close_def Let_def bindE_eq_Inr split: if_splits)

lemma client_stop_dom:
  "client_stop cl st = Inr (cl', st') \<Longrightarrow> dom (c_objs st') = dom (c_objs st) \<and> c_connections st' = c_connections st \<and>
     is_first_connect cl' = is_first_connect cl \<and> cl_conn cl' = cl_conn cl \<and> phase cl' = Disconnecting"
  by (auto simp: client_stop_def get_c_obj_def bindE_eq_Inr split: option.splits if_splits)

definition clients_fine :: "client_system \<Rightarrow> bool" where
  "clients_fine c \<longleftrightarrow> clients_ok c \<and> not_first c \<and> registered_ok c"

lemma clients_fine_new: "clients_fine new_client_system"
  using clients_ok_new by (simp add: clients_fine_def not_first_def registered_ok_def)
    (simp add: new_client_system_def new_client_static_def)

text \<open>What a step of the clients leaves of the objects and of the pending threads.\<close>

definition step_fine :: "client_system \<Rightarrow> client_system \<Rightarrow> bool" where
  "step_fine c c' \<longleftrightarrow> not_first c' \<and> dom (c_objs (c_static c)) \<subseteq> dom (c_objs (c_static c')) \<and>
     (\<forall>a ptr. std_find (c_connections (c_static c')) a = Some ptr \<longrightarrow> ptr \<in> dom (c_objs (c_static c'))) \<and>
     (\<forall>k cl. clients c' k = Some cl \<and> is_first_connect cl \<longrightarrow>
        (\<exists>cl0. clients c k = Some cl0 \<and> is_first_connect cl0 \<and> cl_conn cl0 = cl_conn cl \<and> k \<notin> now_connected c c') \<or>
        (\<exists>ptr. cl_conn cl = Some ptr \<and> ptr \<notin> dom (c_objs (c_static c))))"

text \<open>A step that puts a client in place of another one, or adds one.\<close>

lemma step_fineI:
  assumes "clients_fine c"
    and "dom (c_objs (c_static c)) \<subseteq> dom (c_objs st)"
    and "\<And>a ptr. std_find (c_connections st) a = Some ptr \<Longrightarrow> ptr \<in> dom (c_objs st)"
    and "phase cl \<in> {Waits, Dialing} \<Longrightarrow> \<not> is_first_connect cl"
    and "is_first_connect cl \<Longrightarrow> (\<exists>cl0. clients c k = Some cl0 \<and> is_first_connect cl0 \<and> cl_conn cl0 = cl_conn cl \<and>
        phase cl \<noteq> In_Use) \<or> (\<exists>ptr. cl_conn cl = Some ptr \<and> ptr \<notin> dom (c_objs (c_static c)))"
  shows "step_fine c (set_client k cl st c)"
proof -
  have "not_first (set_client k cl st c)" using assms(1,4) by (auto simp: clients_fine_def not_first_def)
  then show ?thesis using assms(2,3,5) by (auto simp: step_fine_def now_connected_def)
qed

lemma registered_objs: "clients_fine c \<Longrightarrow> std_find (c_connections (c_static c)) a = Some ptr \<Longrightarrow> ptr \<in> dom (c_objs (c_static c))"
  by (simp add: clients_fine_def registered_ok_def)

lemma erased_find: "sorted_map m \<Longrightarrow> std_find (std_erase k m) a = Some v \<Longrightarrow> std_find m a = Some v"
  by (simp add: std.find_erase split: if_splits)

lemma connect_enter_registered:
  assumes "connect_enter cl st = Inr (cl', st')" and "sorted_map (c_connections st)" and "std_find (c_connections st') a = Some ptr"
  shows "std_find (c_connections st) a = Some ptr"
  using assms(1,2)
proof (cases rule: connect_enter_cases)
  case used
  then show ?thesis using assms(3) by simp
next
  case (claimed st1)
  then show ?thesis using claim_address_cases(3) [OF claimed(1)] assms(3) by (auto split: if_splits)
qed

lemma client_step_fine: "client_step c c' \<Longrightarrow> clients_fine c \<Longrightarrow> step_fine c c'"
proof (induction rule: client_step.induct)
  case (Connect s k getaddrinfo host ip task node port cid cl st)
  have sorted: "sorted_map (c_connections (c_static s))" using Connect(5) by (simp add: clients_fine_def clients_ok_def)
  have f: "\<not> is_first_connect cl" using connect_enter_flags(1) [OF Connect(4)] by (simp add: new_tcp_client_def)
  have "ptr \<in> dom (c_objs st)" if "std_find (c_connections st) a = Some ptr" for a ptr
    using registered_objs [OF Connect(5) connect_enter_registered [OF Connect(4) sorted that]]
      connect_enter_flags(2) [OF Connect(4)] by simp
  then show ?case using f connect_enter_flags(2) [OF Connect(4)] by (intro step_fineI [OF Connect(5)]) simp_all
next
  case (Wake s k cl cl' st)
  obtain ptr where "use_connection ptr cl (c_static s) = Inr (cl', st)"
    using Wake(3) by (auto simp: connect_wake_def split: option.splits)
  note u = use_connection_uses [OF this]
  have "\<not> is_first_connect cl" using Wake(1,2,4) by (auto simp: clients_fine_def not_first_def)
  then show ?case using u registered_objs [OF Wake(4)] by (intro step_fineI [OF Wake(4)]) auto
next
  case (Dial s k cl ptr timeout n as cl' st)
  have sorted: "sorted_map (c_connections (c_static s))" using Dial(5) by (simp add: clients_fine_def clients_ok_def)
  have new: "\<not> is_first_connect cl" using Dial(1,2,5) by (auto simp: clients_fine_def not_first_def)
  from connect_dial_flags [OF Dial(4)] show ?case
  proof (elim disjE conjE)
    assume f: "phase cl' = Dial_Failed" "is_first_connect cl' = is_first_connect cl"
      "c_connections st = c_connections (c_static s)" "dom (c_objs (c_static s)) \<subseteq> dom (c_objs st)"
    then have "p \<in> dom (c_objs st)" if "std_find (c_connections st) a = Some p" for a p
      using registered_objs [OF Dial(5), of a p] that by auto
    with f new show ?case by (intro step_fineI [OF Dial(5)]) simp_all
  next
    assume m: "phase cl' = In_Use" "cl_conn cl' = Some ptr" "dom (c_objs st) = insert ptr (dom (c_objs (c_static s)))"
      "c_connections st = std_insert (cl_address cl) ptr (c_connections (c_static s))"
    have "p \<in> insert ptr (dom (c_objs (c_static s)))" if "std_find (c_connections st) a = Some p" for a p
      using that registered_objs [OF Dial(5)] sorted
      by (auto simp: m(4) std.find_insert simp del: domIff split: if_splits option.splits)
    then show ?case unfolding m(3) [symmetric]
      using m(1-3) Dial(3) by (intro step_fineI [OF Dial(5)]) auto
  qed
next
  case (Client_Stop s k cl cl' st)
  note d = client_stop_dom [OF Client_Stop(4)]
  show ?case using d registered_objs [OF Client_Stop(5)] Client_Stop(1) by (intro step_fineI [OF Client_Stop(5)]) auto
next
  case (Client_Close s k cl st)
  note d = client_close_dom [OF Client_Close(3)]
  have "ptr \<in> dom (c_objs st)" if "std_find (c_connections st) a = Some ptr" for a ptr
    using d that registered_objs [OF Client_Close(4), of a ptr] by fastforce
  then show ?case using d Client_Close(1) by (intro step_fineI [OF Client_Close(4)]) auto
next
  case (Object_Work s ptr c c')
  have "p \<in> dom (c_objs (c_static s))" if "std_find (c_connections (c_static s)) a = Some p" for a p
    using Object_Work(3) that by (rule registered_objs)
  then show ?case using Object_Work(3) by (fastforce simp: step_fine_def now_connected_def clients_fine_def not_first_def)
qed

lemma clients_fine_step: "client_step c c' \<Longrightarrow> clients_fine c \<Longrightarrow> clients_fine c'"
  using client_step_fine [of c c'] clients_ok_step [of c c']
  by (simp add: clients_fine_def step_fine_def registered_ok_def) (simp add: clients_ok_def)

section \<open>An epoll instance belongs to running servers\<close>

text \<open>Without running servers nothing is watched.\<close>

definition closed_empty :: "server_system \<Rightarrow> bool" where
  "closed_empty v \<longleftrightarrow> (\<not> is_inited (static v) \<longrightarrow> epoll_set (static v) = {})"

lemma last_stop_empty:
  "last_stop st = Inr st' \<Longrightarrow> (\<not> is_inited st' \<longrightarrow> epoll_set st' = {}) \<or> is_inited st' = is_inited st \<and> epoll_set st' = epoll_set st"
  by (auto simp: last_stop_def Let_def bindE_eq_Inr split: if_splits)

lemma stop_connection_epoll: "stop_connection srv st = Inr (srv', st') \<Longrightarrow> epoll_set st' = epoll_set st"
  by (auto simp: stop_connection_def bindE_eq_Inr split: list.splits)

lemma put_connection_epoll: "put_connection node srv st = Inr (ok, srv', st') \<Longrightarrow> epoll_set st' = epoll_set st"
  by (auto simp: put_connection_def find_connection_def bindE_eq_Inr split: if_splits option.splits)

lemma closed_empty_step: "server_step v v' \<Longrightarrow> servers_ok v \<Longrightarrow> closed_empty v \<Longrightarrow> closed_empty v'"
proof (induction rule: server_step.induct)
  case (Server_Start s k task ssl_ok init_ok cids r srv st)
  then show ?case by (auto simp: closed_empty_def server_start_def Let_def split: if_splits)
next
  case (Loop_Event s k srv evs st)
  then have "is_inited (static s)" by (auto simp: servers_ok_def)
  then show ?case using loop_once_same [OF Loop_Event(3)] by (simp add: closed_empty_def same_service_def)
next
  case (Put_Connection s k srv node ok srv' st)
  then show ?case using put_connection_same [OF Put_Connection(4)] put_connection_epoll [OF Put_Connection(4)]
    by (simp add: closed_empty_def same_service_def)
next
  case (Add_Connection s k srv ptr)
  then have "is_inited (static s)" by (auto simp: servers_ok_def)
  then show ?case by (simp add: closed_empty_def add_connection_to_epoll_def)
next
  case (Stop_Connection s k srv srv' st)
  then show ?case using stop_connection_same [OF Stop_Connection(4)] stop_connection_epoll [OF Stop_Connection(4)]
    by (simp add: closed_empty_def same_service_def)
next
  case (Stop_End s k srv st)
  then show ?case using last_stop_empty [OF Stop_End(4)] by (auto simp: closed_empty_def)
qed (auto simp: closed_empty_def loop_enter_def loop_exit_def split: if_splits)

section \<open>A connection nobody watches\<close>

definition io_inv :: "io_node \<Rightarrow> bool" where
  "io_inv n \<longleftrightarrow> servers_ok (n_servers n) \<and> closed_empty (n_servers n) \<and> clients_fine (n_clients n)"

lemma io_inv_new: "io_inv new_io_node"
  using servers_ok_new clients_fine_new by (simp add: io_inv_def new_io_node_def closed_empty_def)
    (simp add: new_system_def new_server_static_def)

lemma watch_new_adds:
  "watch_new cl st = Inr st' \<Longrightarrow> st' = st \<or> is_first_connect cl \<and> (\<exists>ptr. cl_conn cl = Some ptr \<and> st' = add_connection_to_epoll ptr st)"
  by (auto simp: watch_new_def split: if_splits option.splits)

lemma watch_step_servers:
  assumes "watch_new cl (static v) = Inr st" and "servers v j = Some srv" and "\<not> stop_flag srv" and "loop_thread srv \<noteq> No_Thread"
  shows "server_step\<^sup>*\<^sup>* v (v\<lparr>static := st\<rparr>)"
proof -
  have "server_step v (v\<lparr>static := add_connection_to_epoll ptr (static v)\<rparr>)" for ptr using assms(2-4) by (rule Add_Connection)
  then show ?thesis using watch_new_adds [OF assms(1)] by auto
qed

lemma io_inv_step:
  assumes "io_step n n'" and "io_inv n"
  shows "io_inv n'"
  using assms(1)
proof cases
  case (Server_Side v)
  then show ?thesis using assms(2) servers_ok_step closed_empty_step by (simp add: io_inv_def)
next
  case (Client_Side c)
  then show ?thesis using assms(2) clients_fine_step by (simp add: io_inv_def)
next
  case (Watch k cl j srv st)
  have "servers_ok v' \<and> closed_empty v'" if "server_step\<^sup>*\<^sup>* (n_servers n) v'" for v'
    using that by (induction rule: rtranclp_induct)
      (use assms(2) servers_ok_step closed_empty_step in \<open>auto simp: io_inv_def\<close>)
  then show ?thesis using watch_step_servers [OF Watch(7,4-6)] assms(2) Watch(1) by (simp add: io_inv_def)
qed

lemma io_inv_reach: "io_step\<^sup>*\<^sup>* new_io_node n \<Longrightarrow> io_inv n"
  by (induction rule: rtranclp_induct) (auto intro: io_inv_step io_inv_new)

text \<open>A connection that is not watched and that no thread is about to add.\<close>

definition forgotten :: "conn_ptr \<Rightarrow> io_node \<Rightarrow> bool" where
  "forgotten ptr n \<longleftrightarrow> ptr \<in> dialled_objs n \<and> ptr \<notin> watched n \<and>
     (\<forall>k \<in> to_watch n. \<forall>cl. clients (n_clients n) k = Some cl \<and> is_first_connect cl \<longrightarrow> cl_conn cl \<noteq> Some ptr)"

lemma forgotten_step:
  assumes "io_step n n'" and "io_inv n" and "forgotten ptr n"
  shows "forgotten ptr n'"
  using assms(1)
proof cases
  case (Server_Side v)
  then show ?thesis using assms(3) by (auto simp: forgotten_def watched_def dialled_objs_def)
next
  case (Client_Side c)
  have "step_fine (n_clients n) c" using client_step_fine [OF Client_Side(2)] assms(2) by (simp add: io_inv_def)
  then have f: "dom (c_objs (c_static (n_clients n))) \<subseteq> dom (c_objs (c_static c))"
    "\<And>k cl. clients c k = Some cl \<Longrightarrow> is_first_connect cl \<Longrightarrow>
        (\<exists>cl0. clients (n_clients n) k = Some cl0 \<and> is_first_connect cl0 \<and> cl_conn cl0 = cl_conn cl \<and>
          k \<notin> now_connected (n_clients n) c) \<or>
        (\<exists>ptr. cl_conn cl = Some ptr \<and> ptr \<notin> dom (c_objs (c_static (n_clients n))))"
    unfolding step_fine_def by blast+
  have "cl_conn cl \<noteq> Some ptr" if "k \<in> to_watch n \<union> now_connected (n_clients n) c" "clients c k = Some cl" "is_first_connect cl" for k cl
    using f(2) [OF that(2,3)] that(1) assms(3) by (auto simp: forgotten_def dialled_objs_def)
  then show ?thesis using Client_Side(1) f(1) assms(3) by (auto simp: forgotten_def watched_def dialled_objs_def)
next
  case (Watch k cl j srv st)
  then show ?thesis using watch_new_adds [OF Watch(7)] assms(3)
    by (auto simp: forgotten_def watched_def dialled_objs_def add_connection_to_epoll_def)
qed

lemma forgotten_steps:
  assumes "io_step\<^sup>*\<^sup>* n n'" and "io_inv n" and "forgotten ptr n"
  shows "forgotten ptr n' \<and> io_inv n'"
  using assms(1) by (induction rule: rtranclp_induct) (use assms(2,3) forgotten_step io_inv_step in blast)+

text \<open>A later client that finds the connection uses it without adding it.\<close>

lemma found_connection_is_used:
  assumes "std_find (c_connections st) (cl_address cl) = Some ptr" and "c_objs st ptr = Some c" and "reuseable c"
    and "connect_enter cl st = Inr (cl', st')"
  shows "cl_conn cl' = Some ptr \<and> connected cl' \<and> is_first_connect cl' = is_first_connect cl \<and> phase cl' = In_Use"
proof -
  have "use_connection ptr cl (st\<lparr>client_task_count := client_task_count st + 1\<rparr>) = Inr (cl', st')"
    using assms by (simp add: connect_enter_def get_c_obj_def)
  from use_connection_uses [OF this] show ?thesis by simp
qed

section \<open>Reaching such a connection\<close>

text \<open>A connection with the lock message of its task and a message nobody has received: after the stop of the task the
  message is still there.\<close>

lemma unread_after_stop:
  assumes "conn_repr c [] ms sq"
  obtains c' c'' where "stop_lock ''t'' (stop_count c') = Inr c''" "state c' = state c"
    "get_unrecv_size (do_stop_erase ''t'' (do_stop_flag ''t'' c'')) \<noteq> 0"
proof -
  have new: "cb_repr (cb_new 8192) []" by (simp add: cb_new_repr)
  obtain b1 b2 where b: "cb_repr b1 ''1''" "cb_repr b2 ''data''"
    using cb.put_ok [OF new, of "''1''"] cb.put_ok [OF new, of "''data''"] by (auto simp: cb_limit_def)
  let ?ms = "(\<lambda>_. [])(lock_id ''t'' := ''1'', ''x'' := ''data'')"
  let ?c = "c\<lparr>mapbuffer := [(lock_id ''t'', b1), (''x'', b2)]\<rparr>"
  have streams: "streams [(lock_id ''t'', b1), (''x'', b2)] ?ms"
    by (rule streamsI) (use b in \<open>auto simp: sorted_map_def lock_id_def split: if_splits\<close>)
  have repr: "conn_repr (stop_count ?c) [] ?ms sq"
    using assms streams by (simp add: conn_repr_def stop_count_def)
  have "std_find (mapbuffer (stop_count ?c)) (lock_id ''t'') \<noteq> None" by (simp add: stop_count_def)
  then obtain c'' where c'': "conn_recv (state (stop_count ?c)) 0 (stop_count ?c) (lock_id ''t'') 1 (-1) = Inr (1, ''1'', c'')"
    "conn_repr c'' [] (?ms(lock_id ''t'' := [])) sq"
    using conn_recv_ok [OF repr, of "state (stop_count ?c)" 0 "-1" 1 "lock_id ''t''"]
    by (auto simp: lock_id_def split: if_splits)
  then have lock: "stop_lock ''t'' (stop_count ?c) = Inr c''" by (simp add: stop_lock_def)
  obtain b1' where "mapbuffer c'' = std_assign (lock_id ''t'') b1' [(lock_id ''t'', b1), (''x'', b2)]"
    using c''(1) by (auto simp: conn_recv_def bindE_eq_Inr stop_count_def Let_def split: if_splits option.splits)
  then have mb: "mapbuffer c'' = [(lock_id ''t'', b1'), (''x'', b2)]" by simp
  have "streams (mapbuffer c'') (?ms(lock_id ''t'' := []))" using c''(2) by (simp add: conn_repr_def)
  from streams_at [OF this, of "lock_id ''t''" b1'] mb have "cb_repr b1' []" by simp
  then have sizes: "cb_size b1' = 0" "cb_size (buffer c'') = 0" "unat (cb_size b2) = 4"
    using cb_repr_size [of b1' "[]"] cb_repr_size [of "buffer c''" "[]"] cb_repr_size [OF b(2)] c''(2)
    by (simp_all add: conn_repr_def unat_eq_0)
  then have "get_unrecv_size c'' = cb_size b2" using mb by (simp add: get_unrecv_size_def)
  then have "get_unrecv_size (do_stop_erase ''t'' (do_stop_flag ''t'' c'')) = cb_size b2"
    by (simp add: get_unrecv_size_def do_stop_erase_def do_stop_flag_def)
  with sizes(3) have "get_unrecv_size (do_stop_erase ''t'' (do_stop_flag ''t'' c'')) \<noteq> 0" by auto
  with lock show thesis by (intro that [of ?c]) simp_all
qed

text \<open>The run of a task whose connection stays: its client connects and disconnects.\<close>

definition good_attempt :: attempt where
  "good_attempt = \<lparr>at_fd = 5, at_dials = [(True, 0)], at_ack = 1, at_hello = int (length (hello ''P0'')), at_handshake = True\<rparr>"

lemma good_attempt: "connect_attempt ''P0'' 1000 good_attempt = Some Handshake_Done"
  by (subst connect_attempt_def, subst dial_loop.simps) (simp add: good_attempt_def)

abbreviation sample_address :: bytes where
  "sample_address \<equiv> node_address ''ip'' 80"

definition used_client :: tcp_client where
  "used_client = (some_client In_Use)\<lparr>cl_conn := Some 0, connected := True, is_first_connect := True\<rparr>"

definition used_system :: "connection \<Rightarrow> client_system" where
  "used_system c = \<lparr>c_static = new_client_static\<lparr>client_task_count := 1, c_objs := [0 \<mapsto> c], c_connections := [(sample_address, 0)]\<rparr>,
     clients = [0 \<mapsto> used_client]\<rparr>"

definition left_system :: "client_phase \<Rightarrow> int \<Rightarrow> connection \<Rightarrow> client_system" where
  "left_system ph n c = \<lparr>c_static = new_client_static\<lparr>client_task_count := n, c_objs := [0 \<mapsto> c], c_connections := [(sample_address, 0)]\<rparr>,
     clients = [0 \<mapsto> used_client\<lparr>connected := False, phase := ph\<rparr>]\<rparr>"

lemmas sample_defs = new_client_system_def new_client_static_def new_tcp_client_def some_client_def claimed_system_def
  used_client_def used_system_def left_system_def

lemma client_connects: "client_step new_client_system (claimed_system Dialing)"
proof -
  have "connect_enter (new_tcp_client ''t'' ''P1'' sample_address ''P0'') (c_static new_client_system) =
      Inr (some_client Dialing, c_static (claimed_system Dialing))"
    by (simp add: sample_defs connect_enter_def claim_address_def)
  from Connect [OF _ sample_host _ this, of 0] show ?thesis by (simp add: sample_defs)
qed

lemma client_dials:
  assumes "start_lock ''t'' (new_connection 5 0 False ''P1'') = Inr c"
  shows "client_step (claimed_system Dialing) (used_system c)"
proof -
  have "connect_dial 0 1000 1 [good_attempt] (some_client Dialing) (c_static (claimed_system Dialing)) =
      Some (Inr (used_client, c_static (used_system c)))"
    using assms good_attempt
    by (simp add: connect_dial_def retries_def connect_register_def sample_defs) (simp add: good_attempt_def)
  from Dial [OF _ _ _ this, of 0] show ?thesis by (simp add: sample_defs)
qed

lemma client_works: "client_step (used_system c) (used_system c')"
  using Object_Work [of "used_system c" 0 c c'] by (simp add: sample_defs left_over_def)

lemma client_stops:
  assumes "stop_lock ''t'' (stop_count c) = Inr c''"
  shows "client_step (used_system c) (left_system Disconnecting 1 (do_stop_erase ''t'' (do_stop_flag ''t'' c'')))"
proof -
  have "client_stop used_client (c_static (used_system c)) =
      Inr (used_client\<lparr>connected := False, phase := Disconnecting\<rparr>,
        c_static (left_system Disconnecting 1 (do_stop_erase ''t'' (do_stop_flag ''t'' c''))))"
    using assms by (simp add: client_stop_def get_c_obj_def sample_defs)
  from Client_Stop [OF _ _ _ this, of 0] show ?thesis by (simp add: sample_defs)
qed

lemma client_keeps:
  assumes "get_unrecv_size c \<noteq> 0"
  shows "client_step (left_system Disconnecting 1 c) (left_system Disconnected 0 c)"
proof -
  have "client_close (c_static (left_system Disconnecting 1 c)) = Inr (c_static (left_system Disconnected 0 c))"
    using assms by (simp add: client_close_def get_c_obj_def sample_defs)
  from Client_Close [OF _ _ this, of 0] show ?thesis by (simp add: sample_defs)
qed

text \<open>The server of the task: running with its thread in the loop, then stopped.\<close>

definition running_system :: "conn_ptr set \<Rightarrow> server_system" where
  "running_system W = \<lparr>static = new_server_static\<lparr>server_task_count := 1, stoped_flag := False, is_inited := True,
      listen_open := True, listen_count := 1, epoll_set := W\<rparr>,
     servers = [1 \<mapsto> (new_tcp_server [])\<lparr>srv_task := ''t'', loop_thread := Looping\<rparr>]\<rparr>"

definition shrinking_step :: "server_system \<Rightarrow> server_system \<Rightarrow> bool" where
  "shrinking_step v v' \<longleftrightarrow> server_step v v' \<and> epoll_set (static v') \<subseteq> epoll_set (static v)"

lemma server_starts: "shrinking_step\<^sup>*\<^sup>* new_system (running_system {})"
proof -
  let ?srv = "(new_tcp_server [])\<lparr>srv_task := ''t'', loop_thread := Loop_Waiting\<rparr>"
  let ?st = "new_server_static\<lparr>server_task_count := 1, stoped_flag := False, is_inited := True, listen_open := True\<rparr>"
  let ?s1 = "set_server 1 ?srv ?st new_system"
  have "server_step new_system ?s1"
    by (rule Server_Start [of _ _ "''t''" True True "[]" True])
      (simp_all add: new_system_def server_start_def new_server_static_def)
  moreover have "server_step ?s1 (set_server 1 (?srv\<lparr>loop_thread := Looping\<rparr>) (?st\<lparr>listen_count := 1\<rparr>) ?s1)"
    by (rule Loop_Enter [of _ _ ?srv]) (simp_all add: loop_enter_def new_server_static_def new_tcp_server_def)
  then have "server_step ?s1 (running_system {})" by (simp add: running_system_def new_system_def new_server_static_def)
  ultimately have "shrinking_step new_system ?s1" "shrinking_step ?s1 (running_system {})"
    by (simp_all add: shrinking_step_def) (simp_all add: new_system_def running_system_def new_server_static_def)
  then show ?thesis by auto
qed

lemma server_stops: "shrinking_step\<^sup>*\<^sup>* (running_system W) new_system"
proof -
  let ?srv = "(new_tcp_server [])\<lparr>srv_task := ''t'', loop_thread := Looping\<rparr>"
  let ?s1 = "(running_system W)\<lparr>servers := [1 \<mapsto> ?srv\<lparr>stop_flag := True\<rparr>]\<rparr>"
  let ?st = "(static (running_system W))\<lparr>listen_count := 0\<rparr>"
  let ?s2 = "set_server 1 (?srv\<lparr>stop_flag := True, loop_thread := Loop_Done\<rparr>) ?st ?s1"
  let ?s3 = "?s2\<lparr>servers := [1 \<mapsto> ?srv\<lparr>stop_flag := True, loop_thread := Joined\<rparr>]\<rparr>"
  have "server_step (running_system W) ((running_system W)\<lparr>servers := (servers (running_system W))(1 \<mapsto> ?srv\<lparr>stop_flag := True\<rparr>)\<rparr>)"
    by (rule Stop_Begin) (simp_all add: running_system_def new_tcp_server_def)
  then have s1: "server_step (running_system W) ?s1" by (simp add: running_system_def)
  have s2: "server_step ?s1 ?s2"
    by (rule Loop_Exit [of _ _ "?srv\<lparr>stop_flag := True\<rparr>" True])
      (simp_all add: loop_leaves_def loop_exit_def running_system_def)
  have "server_step ?s2 (?s2\<lparr>servers := (servers ?s2)(1 \<mapsto> ?srv\<lparr>stop_flag := True, loop_thread := Joined\<rparr>)\<rparr>)"
    by (rule Stop_Thread [of _ _ "?srv\<lparr>stop_flag := True, loop_thread := Loop_Done\<rparr>"]) (simp_all add: stop_join_def)
  then have s3: "server_step ?s2 ?s3" by simp
  have "last_stop (static ?s3) = Inr new_server_static"
    by (simp add: last_stop_def server_unrecv_size_def running_system_def new_server_static_def Let_def)
  then have "server_step ?s3 (?s3\<lparr>static := new_server_static, servers := (servers ?s3)(1 := None)\<rparr>)"
    by (intro Stop_End [of _ _ "?srv\<lparr>stop_flag := True, loop_thread := Joined\<rparr>"]) (simp_all add: new_tcp_server_def)
  then have "server_step ?s3 new_system" by (simp add: new_system_def running_system_def)
  then have "shrinking_step ?s3 new_system" by (simp add: shrinking_step_def) (simp add: new_system_def new_server_static_def)
  moreover have "shrinking_step (running_system W) ?s1" "shrinking_step ?s1 ?s2" "shrinking_step ?s2 ?s3"
    using s1 s2 s3 by (simp_all add: shrinking_step_def)
  ultimately show ?thesis by (meson r_into_rtranclp rtranclp_trans)
qed

lemma io_servers:
  assumes "shrinking_step\<^sup>*\<^sup>* (n_servers n) v"
  shows "io_step\<^sup>*\<^sup>* n (n\<lparr>n_servers := v\<rparr>)"
  using assms
proof (induction rule: rtranclp_induct)
  case (step v1 v2)
  let ?n = "n\<lparr>n_servers := v1\<rparr>"
  have "io_step ?n (?n\<lparr>n_servers := v2\<rparr>)"
    using step(2) by (intro Server_Side) (auto simp: shrinking_step_def watched_def)
  then have "io_step ?n (n\<lparr>n_servers := v2\<rparr>)" by simp
  with step(3) show ?case by (rule rtranclp.rtrancl_into_rtrancl)
qed simp

text \<open>Every step of the one client.\<close>

lemma io_client:
  assumes "client_step (n_clients n) c" and "dom (c_objs (c_static c)) \<subseteq> insert 0 (dialled_objs n)"
    and "0 \<in> dialled_objs n \<or> watched n = {} \<and> objs (static (n_servers n)) = Map.empty"
  shows "io_step n (n\<lparr>n_clients := c, to_watch := to_watch n \<union> now_connected (n_clients n) c\<rparr>)"
  using assms by (intro Client_Side) auto

lemma reach_orphan:
  obtains n where "io_step\<^sup>*\<^sup>* new_io_node n" "\<not> is_inited (static (n_servers n))"
    "std_find (c_connections (c_static (n_clients n))) sample_address = Some 0" "to_watch n = {}"
proof -
  have "conn_repr ((new_connection 5 0 False ''P1'')\<lparr>task_count := task_count (new_connection 5 0 False ''P1'') + 1\<rparr>) [] (\<lambda>_. []) []"
    using new_connection_repr [of 5 0 False "''P1''"] by (simp add: conn_repr_def)
  from send_msg_ok [OF this, of "lock_id ''t''" "''1''"] obtain c sq where
    c: "start_lock ''t'' (new_connection 5 0 False ''P1'') = Inr c" "conn_repr c [] (\<lambda>_. []) sq"
    by (auto simp: start_lock_def lock_id_def cb_limit_def)
  obtain c' c'' where stop: "stop_lock ''t'' (stop_count c') = Inr c''"
    "get_unrecv_size (do_stop_erase ''t'' (do_stop_flag ''t'' c'')) \<noteq> 0"
    by (rule unread_after_stop [OF c(2)])
  let ?c3 = "do_stop_erase ''t'' (do_stop_flag ''t'' c'')"
  let ?n0 = "\<lparr>n_servers = running_system {}, n_clients = new_client_system, to_watch = {}\<rparr>"
  let ?n1 = "?n0\<lparr>n_clients := claimed_system Dialing\<rparr>"
  let ?n2 = "?n0\<lparr>n_clients := used_system c, to_watch := {0}\<rparr>"
  let ?n3 = "\<lparr>n_servers = running_system {0}, n_clients = used_system c, to_watch = {}\<rparr>"
  let ?n4 = "?n3\<lparr>n_clients := used_system c'\<rparr>"
  let ?n5 = "?n3\<lparr>n_clients := left_system Disconnecting 1 ?c3\<rparr>"
  let ?n6 = "?n3\<lparr>n_clients := left_system Disconnected 0 ?c3\<rparr>"
  let ?n7 = "?n6\<lparr>n_servers := new_system\<rparr>"
  have conn: "now_connected new_client_system (claimed_system Dialing) = {}"
    "now_connected (claimed_system Dialing) (used_system c) = {0}" "now_connected (used_system c) (used_system c') = {}"
    "now_connected (used_system c') (left_system Disconnecting 1 ?c3) = {}"
    "now_connected (left_system Disconnecting 1 ?c3) (left_system Disconnected 0 ?c3) = {}"
    by (auto simp: now_connected_def sample_defs)
  have start: "io_step\<^sup>*\<^sup>* new_io_node ?n0"
    using io_servers [of new_io_node "running_system {}"] server_starts by (simp add: new_io_node_def)
  have free: "watched ?n0 = {}" "objs (static (running_system {})) = Map.empty"
    by (simp_all add: watched_def running_system_def new_server_static_def)
  have s1: "io_step ?n0 ?n1"
    using io_client [of ?n0 "claimed_system Dialing"] client_connects free conn(1) by (simp add: dialled_objs_def sample_defs)
  have s2: "io_step ?n1 ?n2"
    using io_client [of ?n1 "used_system c"] client_dials [OF c(1)] free conn(2)
    by (simp add: dialled_objs_def watched_def) (simp add: sample_defs)
  have "watch_new used_client (static (running_system {})) = Inr (static (running_system {0}))"
    by (simp add: watch_new_def add_connection_to_epoll_def running_system_def new_server_static_def sample_defs)
  then have "io_step ?n2 (?n2\<lparr>n_servers := (n_servers ?n2)\<lparr>static := static (running_system {0})\<rparr>, to_watch := to_watch ?n2 - {0}\<rparr>)"
    by (intro Watch [of 0 _ used_client 1 "(new_tcp_server [])\<lparr>srv_task := ''t'', loop_thread := Looping\<rparr>"])
      (simp_all add: running_system_def new_tcp_server_def used_system_def)
  then have s3: "io_step ?n2 ?n3" by (simp add: running_system_def)
  have s4: "io_step ?n3 ?n4"
    using io_client [of ?n3 "used_system c'"] client_works [of c c'] conn(3) by (simp add: dialled_objs_def) (simp add: sample_defs)
  have s5: "io_step ?n4 ?n5"
    using io_client [of ?n4 "left_system Disconnecting 1 ?c3"] client_stops [OF stop(1)] conn(4)
    by (simp add: dialled_objs_def) (simp add: sample_defs)
  have s6: "io_step ?n5 ?n6"
    using io_client [of ?n5 "left_system Disconnected 0 ?c3"] client_keeps [OF stop(2)] conn(5)
    by (simp add: dialled_objs_def) (simp add: sample_defs)
  have s7: "io_step\<^sup>*\<^sup>* ?n6 ?n7" using io_servers [of ?n6 new_system] server_stops [of "{0}"] by simp
  from start s1 s2 s3 s4 s5 s6 have "io_step\<^sup>*\<^sup>* new_io_node ?n6" by (meson rtranclp.rtrancl_into_rtrancl)
  then have "io_step\<^sup>*\<^sup>* new_io_node ?n7" using s7 by (rule rtranclp_trans)
  then show thesis by (rule that) (simp_all add: new_system_def sample_defs new_server_static_def)
qed

section \<open>Properties\<close>

text \<open>C25: a dialled connection that outlives the servers is never read again: when no server of the process is
  running and a connection is still registered under an address, which \<open>close\<close> of its last client leaves there while
  data are unread, then in every later state the connection is not in the epoll set, and a new client for the address
  is given it as connected, with nothing to add.\<close>

theorem kept_connection_is_never_watched:
  assumes "io_step\<^sup>*\<^sup>* new_io_node n" and "\<not> is_inited (static (n_servers n))" and "to_watch n = {}"
    and "std_find (c_connections (c_static (n_clients n))) a = Some ptr" and "io_step\<^sup>*\<^sup>* n n'"
  shows "ptr \<notin> watched n' \<and>
    (\<forall>task node cid c cl st sst. std_find (c_connections (c_static (n_clients n'))) a = Some ptr \<longrightarrow>
       c_objs (c_static (n_clients n')) ptr = Some c \<longrightarrow> reuseable c \<longrightarrow>
       connect_enter (new_tcp_client task node a cid) (c_static (n_clients n')) = Inr (cl, st) \<longrightarrow>
       connected cl \<and> cl_conn cl = Some ptr \<and> watch_new cl sst = Inr sst)"
proof -
  have inv: "io_inv n" by (rule io_inv_reach [OF assms(1)])
  then have "watched n = {}" using assms(2) by (simp add: io_inv_def closed_empty_def watched_def)
  moreover have "ptr \<in> dialled_objs n"
    using registered_objs [OF _ assms(4)] inv by (simp add: io_inv_def dialled_objs_def)
  ultimately have "forgotten ptr n" using assms(3) by (simp add: forgotten_def)
  then have "ptr \<notin> watched n'" using forgotten_steps [OF assms(5) inv] by (simp add: forgotten_def)
  moreover have "connected cl \<and> cl_conn cl = Some ptr \<and> watch_new cl sst = Inr sst"
    if "std_find (c_connections (c_static (n_clients n'))) a = Some ptr" "c_objs (c_static (n_clients n')) ptr = Some c"
      "reuseable c" "connect_enter (new_tcp_client task node a cid) (c_static (n_clients n')) = Inr (cl, st)"
    for task node cid c cl st sst
    using found_connection_is_used [OF _ that(2,3,4)] that(1) by (simp add: watch_new_def new_tcp_client_def)
  ultimately show ?thesis by blast
qed

theorem kept_connection_is_never_watched_witness:
  "\<exists>n. io_step\<^sup>*\<^sup>* new_io_node n \<and> std_find (c_connections (c_static (n_clients n))) sample_address = Some 0 \<and>
     (\<forall>n'. io_step\<^sup>*\<^sup>* n n' \<longrightarrow> 0 \<notin> watched n')"
proof (rule reach_orphan)
  fix n
  assume n: "io_step\<^sup>*\<^sup>* new_io_node n" "\<not> is_inited (static (n_servers n))"
    "std_find (c_connections (c_static (n_clients n))) sample_address = Some 0" "to_watch n = {}"
  from kept_connection_is_never_watched [OF n(1,2,4,3)] n(1,3) show ?thesis by blast
qed

end
