(* ===== verification/Session.thy ===== *)
theory Session
  imports Task_Scheduling
begin

text \<open>
  Two nodes over one connection, with all the tasks that share it: the scheduling of both ends
  (\<open>Task_Scheduling\<close>), the two streams between them and the data (\<open>Delivery\<close>) in one step relation. Tasks
  start and stop, and lock messages travel among the messages of the clients.

  Unlike a round in \<open>link_step\<close>, which is one step, a round of a thread is two here, as in the source: the sending
  thread takes the content of the send buffer into a local variable and writes it to the socket later, the receiving
  thread unpacks a message and stores it later. That the bytes and messages stay in order rests on
  \<open>one_task_works_at_a_time\<close>.
\<close>

section \<open>The two critical sections of a receiving round\<close>

definition unpack_message :: "bytes \<Rightarrow> connection \<Rightarrow> (bytes \<times> bytes \<times> connection) loop_step res" where
  "unpack_message task c =
    (if stop_requested c task then Inr Stopped
     else bindE (cb_can_read (buffer c)) (\<lambda>ready.
       if ready then
         bindE (cb_read_msg (buffer c) [] []) (\<lambda>(_, tmp_id, tmp_data, b).
         Inr (Stepped (tmp_id, tmp_data, c\<lparr>buffer := b\<rparr>)))
       else Inr Waiting))"

text \<open>Without a step of another thread in between the two are a round.\<close>

lemma recv_step_unpack:
  "recv_step task c = bindE (unpack_message task c) (\<lambda>r. case r of
     Stopped \<Rightarrow> Inr Stopped | Waiting \<Rightarrow> Inr Waiting
   | Stepped (i, d, c') \<Rightarrow> bindE (store_message c' i d) (\<lambda>c''. Inr (Stepped c'')))"
  by (auto simp: recv_step_def unpack_message_def bindE_def split: sum.splits)

lemma unpack_message_ok:
  assumes "conn_repr c rq ms sq" and "unpack_message task c = Inr (Stepped (i, d, c'))"
  shows "frame_ready rq \<and> (\<exists>k rq'. parse_frame [] [] rq = Inr (k, i, d, rq') \<and> conn_repr c' rq' ms sq) \<and>
    stop_works c' = stop_works c"
proof -
  have b: "cb_repr (buffer c) rq" using assms(1) by (simp add: conn_repr_def)
  have ready: "frame_ready rq"
    using assms(2) cb_can_read_ok [OF b] by (auto simp: unpack_message_def bindE_eq_Inr split: if_splits)
  obtain k b' where r: "cb_read_msg (buffer c) [] [] = Inr (k, i, d, b')" "c' = c\<lparr>buffer := b'\<rparr>"
    using assms(2) by (auto simp: unpack_message_def bindE_eq_Inr split: if_splits)
  with cb_read_msg_refines [OF b, of "[]" "[]"] ready assms(1) show ?thesis
    by (auto simp: conn_repr_def split: sum.splits prod.splits)
qed

section \<open>State\<close>

text \<open>The nodes are \<open>True\<close> and \<open>False\<close>; \<open>stream s x\<close> goes from node \<open>x\<close> to node \<open>\<not> x\<close>. The local
  variables of the threads of a task are in \<open>in_flight\<close> (\<open>buffer\<close> of \<open>loop_send\<close>) and \<open>in_hand\<close> (\<open>tmp_id\<close> and
  \<open>tmp_data\<close> of \<open>loop_recv\<close>). \<open>lost s x\<close> records what the threads of \<open>x\<close> have taken out of the send buffer and the peer
  will never get; a direction is broken from its first lost byte on.\<close>

record session =
  ends :: "bool \<Rightarrow> sched"
  in_flight :: "bool \<Rightarrow> bytes \<rightharpoonup> bytes"
  in_hand :: "bool \<Rightarrow> bytes \<rightharpoonup> message"
  stream :: "bool \<Rightarrow> bytes"
  lost :: "bool \<Rightarrow> bytes"
  posted :: "bool \<Rightarrow> message list"     \<comment> \<open>what \<open>send\<close> accepted, lock messages included\<close>
  taken :: "bool \<Rightarrow> bytes \<Rightarrow> bytes"    \<comment> \<open>what \<open>recv\<close> returned, by id\<close>

definition new_session :: "(bool \<Rightarrow> connection) \<Rightarrow> session" where
  "new_session c = \<lparr>ends = (\<lambda>x. new_sched (c x)), in_flight = (\<lambda>_. Map.empty), in_hand = (\<lambda>_. Map.empty),
     stream = (\<lambda>_. []), lost = (\<lambda>_. []), posted = (\<lambda>_. []), taken = (\<lambda>_ _. [])\<rparr>"

definition sends :: "worker \<Rightarrow> bool" where
  "sends w \<longleftrightarrow> (case w of Running _ b \<Rightarrow> b | _ \<Rightarrow> False)"

definition receives :: "worker \<Rightarrow> bool" where
  "receives w \<longleftrightarrow> (case w of Running a _ \<Rightarrow> a | _ \<Rightarrow> False)"

definition is_lock_id :: "bytes \<Rightarrow> bool" where
  "is_lock_id i \<longleftrightarrow> take 5 i = ''lock:''"

text \<open>A step of the scheduling that exchanges no data: neither the message of a start nor that of a stop.\<close>

definition control_step :: "sched \<Rightarrow> sched \<Rightarrow> bool" where
  "control_step s n \<longleftrightarrow> sched_step s n \<and> buffer (conn n) = buffer (conn s) \<and>
     mapbuffer (conn n) = mapbuffer (conn s) \<and> send_buffer (conn n) = send_buffer (conn s) \<and>
     state (conn n) = state (conn s) \<and>
     (\<forall>t. (caller s t = Idle \<longrightarrow> caller n t = Idle) \<and> (caller s t = Lock_Waiting \<longrightarrow> caller n t = Lock_Waiting))"

text \<open>A thread in the middle of a round does not leave its loop.\<close>

definition mid_round_ok :: "session \<Rightarrow> bool \<Rightarrow> sched \<Rightarrow> bool" where
  "mid_round_ok s x n \<longleftrightarrow> (\<forall>t. (in_flight s x t \<noteq> None \<longrightarrow> sends (worker n t)) \<and>
     (in_hand s x t \<noteq> None \<longrightarrow> receives (worker n t)))"

section \<open>What the kernel does with the bytes written\<close>

text \<open>\<open>transmit x out rest\<close>: of a piece of data the kernel took \<open>out\<close>, and a failure of \<open>write\<close> kept \<open>rest\<close> from it. On a
  broken connection what it takes goes nowhere.\<close>

definition transmit :: "bool \<Rightarrow> bytes \<Rightarrow> bytes \<Rightarrow> session \<Rightarrow> session" where
  "transmit x out rest s =
    (if lost s x = [] then s\<lparr>stream := (stream s)(x := stream s x @ out), lost := (lost s)(x := rest)\<rparr>
     else s\<lparr>lost := (lost s)(x := lost s x @ out @ rest)\<rparr>)"

text \<open>A reset: of the bytes under way only the first \<open>k\<close> still arrive.\<close>

definition discard :: "bool \<Rightarrow> nat \<Rightarrow> session \<Rightarrow> session" where
  "discard x k s = s\<lparr>stream := (stream s)(x := take k (stream s x)), lost := (lost s)(x := drop k (stream s x) @ lost s x)\<rparr>"

abbreviation written :: "session \<Rightarrow> bool \<Rightarrow> bytes" where
  "written s x \<equiv> stream s x @ lost s x"

lemma transmit_same [simp]:
  "ends (transmit x out rest s) = ends s" "in_flight (transmit x out rest s) = in_flight s"
  "in_hand (transmit x out rest s) = in_hand s" "posted (transmit x out rest s) = posted s"
  "taken (transmit x out rest s) = taken s" "y \<noteq> x \<Longrightarrow> stream (transmit x out rest s) y = stream s y"
  "y \<noteq> x \<Longrightarrow> lost (transmit x out rest s) y = lost s y"
  by (simp_all add: transmit_def)

lemma discard_same [simp]:
  "ends (discard x k s) = ends s" "in_flight (discard x k s) = in_flight s"
  "in_hand (discard x k s) = in_hand s" "posted (discard x k s) = posted s"
  "taken (discard x k s) = taken s" "y \<noteq> x \<Longrightarrow> stream (discard x k s) y = stream s y"
  "y \<noteq> x \<Longrightarrow> lost (discard x k s) y = lost s y"
  by (simp_all add: discard_def)

lemma written_transmit: "written (transmit x out rest s) x = written s x @ out @ rest"
  by (simp add: transmit_def)

lemma written_discard: "written (discard x k s) x = written s x"
  by (simp add: discard_def flip: append_assoc)

section \<open>Steps\<close>

text \<open>The result of \<open>writen\<close> for the data of a round or of the last flush: either all is written or the connection
  has failed; both callers only log a failure and drop the data. The sockets are non-blocking, so that a \<open>write\<close> is not
  interrupted by a signal and does not return 0.\<close>

definition write_result :: "bytes \<Rightarrow> bytes \<Rightarrow> bytes \<Rightarrow> bool" where
  "write_result data out rest \<longleftrightarrow> (\<exists>e rs ret e' rs'. writen e rs data = Some (ret, out, e', rs') \<and>
     (ret = int (length data) \<or> ret = -1 \<and> e' \<noteq> EINTR) \<and> rest = drop (length out) data)"

text \<open>\<open>Close\<close> is \<open>Connection::close\<close> by the owner of the connection after its last task has stopped; the owner then forgets
  the connection, so that nothing is started or sent on it any more. All sockets have \<open>SO_LINGER\<close> set to \<open>{1, 0}\<close>
  (\<open>set_linger\<close>): \<open>::close\<close> resets the connection and throws away what the peer has not got by then. \<open>Reset\<close> is a
  connection that breaks at any other moment. \<open>handle_read\<close> reads nothing for a connection that is closed.\<close>

abbreviation with_conn :: "bool \<Rightarrow> connection \<Rightarrow> session \<Rightarrow> session" where
  "with_conn x c s \<equiv> s\<lparr>ends := (ends s)(x := (ends s x)\<lparr>conn := c\<rparr>)\<rparr>"

inductive session_step :: "session \<Rightarrow> session \<Rightarrow> bool" where
  Control: "control_step (ends s x) n \<Longrightarrow> mid_round_ok s x n \<Longrightarrow>
    session_step s (s\<lparr>ends := (ends s)(x := n)\<rparr>)"
| Task_Start: "caller (ends s x) t = Idle \<Longrightarrow> task_mtx (ends s x) = None \<Longrightarrow> length (lock_id t) \<le> 254 \<Longrightarrow>
    length (frames (posted s x @ [(lock_id t, ''1'')])) \<le> cb_limit \<Longrightarrow>
    start_lock t (conn (ends s x)) = Inr c \<Longrightarrow> state (conn (ends s x)) \<noteq> Closed \<Longrightarrow>
    session_step s (s\<lparr>ends := (ends s)(x := set_caller t Starting ((ends s x)\<lparr>conn := c\<rparr>)),
      posted := (posted s)(x := posted s x @ [(lock_id t, ''1'')])\<rparr>)"
| Task_Stop: "caller (ends s x) t = Lock_Waiting \<Longrightarrow>
    conn_recv (state (conn (ends s x))) 0 (conn (ends s x)) (lock_id t) 1 (-1) = Inr (n, data, c) \<Longrightarrow>
    session_step s (s\<lparr>ends := (ends s)(x := set_caller t Stopping ((ends s x)\<lparr>conn := c, task_mtx := None\<rparr>)),
      taken := (taken s)(x := (taken s x)(lock_id t := taken s x (lock_id t) @ data))\<rparr>)"
| Post: "msg_ok (i, d) \<Longrightarrow> \<not> is_lock_id i \<Longrightarrow> length (frames (posted s x @ [(i, d)])) \<le> cb_limit \<Longrightarrow>
    send_msg (conn (ends s x)) i d = Inr (n, c) \<Longrightarrow> state (conn (ends s x)) \<noteq> Closed \<Longrightarrow>
    session_step s ((with_conn x c s)\<lparr>posted := (posted s)(x := posted s x @ [(i, d)])\<rparr>)"
| Fetch: "\<not> is_lock_id i \<Longrightarrow> conn_recv tmpstate elapsed (conn (ends s x)) i len timeout = Inr (n, data, c) \<Longrightarrow>
    0 \<le> n \<Longrightarrow>
    session_step s ((with_conn x c s)\<lparr>taken := (taken s)(x := (taken s x)(i := taken s x i @ data))\<rparr>)"
| Take: "sends (worker (ends s x) t) \<Longrightarrow> in_flight s x t = None \<Longrightarrow>
    send_step t (conn (ends s x)) = Inr (Stepped (data, c)) \<Longrightarrow>
    session_step s ((with_conn x c s)\<lparr>in_flight := (in_flight s)(x := (in_flight s x)(t \<mapsto> data))\<rparr>)"
| Put: "in_flight s x t = Some data \<Longrightarrow> write_result data out rest \<Longrightarrow>
    session_step s (transmit x out rest (s\<lparr>in_flight := (in_flight s)(x := (in_flight s x)(t := None))\<rparr>))"
| Arrive: "stream s (\<not> x) = data @ rest \<Longrightarrow> conn_write (conn (ends s x)) data = Inr c \<Longrightarrow>
    state (conn (ends s x)) \<noteq> Closed \<Longrightarrow>
    session_step s ((with_conn x c s)\<lparr>stream := (stream s)(\<not> x := rest)\<rparr>)"
| Unpack: "receives (worker (ends s x) t) \<Longrightarrow> in_hand s x t = None \<Longrightarrow>
    unpack_message t (conn (ends s x)) = Inr (Stepped (i, d, c)) \<Longrightarrow>
    session_step s ((with_conn x c s)\<lparr>in_hand := (in_hand s)(x := (in_hand s x)(t \<mapsto> (i, d)))\<rparr>)"
| Store: "in_hand s x t = Some (i, d) \<Longrightarrow> store_message (conn (ends s x)) i d = Inr c \<Longrightarrow>
    session_step s ((with_conn x c s)\<lparr>in_hand := (in_hand s)(x := (in_hand s x)(t := None))\<rparr>)"
| Close: "(\<And>t. caller (ends s x) t = Idle) \<Longrightarrow> close_connection (conn (ends s x)) = Inr (data, True, c) \<Longrightarrow>
    write_result data out rest \<Longrightarrow>
    session_step s (discard x k (transmit x out rest (with_conn x c s)))"
| Reset: "session_step s (discard x k s)"

section \<open>One direction of the data\<close>

text \<open>The messages posted are those delivered, the one in hand, and the frames in the receive buffer, the stream,
  the local variable of the sending thread and the send buffer.\<close>

definition flow :: "message list \<Rightarrow> bytes \<Rightarrow> bytes \<Rightarrow> bytes list \<Rightarrow> bytes \<Rightarrow> message list \<Rightarrow> (bytes \<Rightarrow> bytes) \<Rightarrow>
    (bytes \<Rightarrow> bytes) \<Rightarrow> bool" where
  "flow ps rq st fl sq h ms tk \<longleftrightarrow>
    (\<exists>arrived todo. ps = arrived @ h @ todo \<and> frames todo = rq @ st @ concat fl @ sq \<and>
       (\<forall>i. payloads arrived i = tk i @ ms i)) \<and> list_all msg_ok ps \<and> length (frames ps) \<le> cb_limit"

lemma flowI:
  "ps = arrived @ h @ todo \<Longrightarrow> frames todo = rq @ st @ concat fl @ sq \<Longrightarrow>
   (\<And>i. payloads arrived i = tk i @ ms i) \<Longrightarrow> list_all msg_ok ps \<Longrightarrow> length (frames ps) \<le> cb_limit \<Longrightarrow>
   flow ps rq st fl sq h ms tk"
  unfolding flow_def by blast

lemma flow_new: "flow [] [] [] [] [] [] (\<lambda>_. []) (\<lambda>_. [])"
  by (simp add: flow_def)

lemma flow_post:
  assumes "flow ps rq st fl sq h ms tk" and "msg_ok (i, d)" and "length (frames (ps @ [(i, d)])) \<le> cb_limit"
  shows "flow (ps @ [(i, d)]) rq st fl (sq @ pack i d) h ms tk"
proof -
  obtain arrived todo where a: "ps = arrived @ h @ todo" "frames todo = rq @ st @ concat fl @ sq"
    "\<And>i. payloads arrived i = tk i @ ms i" "list_all msg_ok ps"
    using assms(1) by (auto simp: flow_def)
  show ?thesis
    by (rule flowI [of _ arrived h "todo @ [(i, d)]"]) (use a assms(2,3) in simp_all)
qed

lemma flow_take: "flow ps rq st [] sq h ms tk \<Longrightarrow> flow ps rq st [sq] [] h ms tk"
  by (simp add: flow_def)

lemma flow_put: "flow ps rq st [d] sq h ms tk \<Longrightarrow> flow ps rq (st @ d) [] sq h ms tk"
  by (simp add: flow_def)

lemma flow_arrive: "flow ps rq (d @ rest) fl sq h ms tk \<Longrightarrow> flow ps (rq @ d) rest fl sq h ms tk"
  by (simp add: flow_def)

lemma flow_unpack:
  assumes "flow ps rq st fl sq [] ms tk" and "frame_ready rq" and "parse_frame [] [] rq = Inr (k, i, d, rq')"
  shows "flow ps rq' st fl sq [(i, d)] ms tk"
proof -
  obtain arrived todo where a: "ps = arrived @ todo" "frames todo = rq @ st @ concat fl @ sq"
    "\<And>i. payloads arrived i = tk i @ ms i" "list_all msg_ok ps" "length (frames ps) \<le> cb_limit"
    using assms(1) by (auto simp: flow_def)
  have "rq \<noteq> []" using assms(2) by (auto simp: frame_ready_def)
  then obtain j e todo' where todo: "todo = (j, e) # todo'" using a(2) by (cases todo) auto
  then have ok: "msg_ok (j, e)" using a(1,4) by simp
  have "rq @ st @ concat fl @ sq = pack j e @ frames todo'" using a(2) todo by simp
  from incomplete_frame [OF ok this assms(2)] obtain q where q: "rq = pack j e @ q" by blast
  then have "i = j" "d = e" "rq' = q" using parse_message(1) [OF ok, of q] assms(3) by simp_all
  with a todo q show ?thesis by (auto simp: flow_def)
qed

lemma flow_store:
  assumes "flow ps rq st fl sq [(i, d)] ms tk"
  shows "flow ps rq st fl sq [] (ms(i := ms i @ d)) tk"
proof -
  obtain arrived todo where a: "ps = arrived @ (i, d) # todo" "frames todo = rq @ st @ concat fl @ sq"
    "\<And>i. payloads arrived i = tk i @ ms i" "list_all msg_ok ps" "length (frames ps) \<le> cb_limit"
    using assms by (auto simp: flow_def)
  then have "ps = (arrived @ [(i, d)]) @ todo"
    "payloads (arrived @ [(i, d)]) j = tk j @ (ms(i := ms i @ d)) j" for j
    by simp_all
  with a(2,4,5) show ?thesis unfolding flow_def by (metis append_Nil)
qed

lemma flow_fetch:
  assumes "flow ps rq st fl sq h ms tk" and "ms i = data @ r"
  shows "flow ps rq st fl sq h (ms(i := r)) (tk(i := tk i @ data))"
proof -
  obtain arrived todo where a: "ps = arrived @ h @ todo" "frames todo = rq @ st @ concat fl @ sq"
    "\<And>i. payloads arrived i = tk i @ ms i" "list_all msg_ok ps" "length (frames ps) \<le> cb_limit"
    using assms(1) by (auto simp: flow_def)
  show ?thesis by (rule flowI [OF a(1,2) _ a(4,5)]) (use a(3) assms(2) in simp)
qed

lemma flow_prefix: "flow ps rq st fl sq h ms tk \<Longrightarrow> \<exists>rest. payloads ps i = tk i @ ms i @ rest"
  by (auto simp: flow_def)

lemma flow_limits:
  assumes "flow ps rq st fl sq h ms tk"
  shows "length sq + length rq + length st \<le> length (frames ps)" "length (frames ps) \<le> cb_limit"
    and "h = [(i, d)] \<Longrightarrow> length (ms i) + length d \<le> cb_limit"
proof -
  obtain arrived todo where a: "ps = arrived @ h @ todo" "frames todo = rq @ st @ concat fl @ sq"
    "\<And>i. payloads arrived i = tk i @ ms i"
    using assms by (auto simp: flow_def)
  show "length sq + length rq + length st \<le> length (frames ps)" using a(1) arg_cong [OF a(2), of length] by simp
  show l: "length (frames ps) \<le> cb_limit" using assms by (simp add: flow_def)
  show "length (ms i) + length d \<le> cb_limit" if "h = [(i, d)]"
    using that a(1,3) l payloads_le_frames [of ps i] arg_cong [OF a(3) [of i], of length] by simp
qed

section \<open>One thread at a time in a round\<close>

definition sole :: "(bytes \<rightharpoonup> 'a) \<Rightarrow> (bytes \<Rightarrow> bool) \<Rightarrow> 'a list \<Rightarrow> bool" where
  "sole m P xs \<longleftrightarrow> xs = [] \<and> m = Map.empty \<or> (\<exists>t v. xs = [v] \<and> m = [t \<mapsto> v] \<and> P t)"

lemma sole_empty [simp]: "sole Map.empty P []"
  by (simp add: sole_def)

lemma sole_none: "sole m P xs \<Longrightarrow> m = Map.empty \<Longrightarrow> xs = []"
  unfolding sole_def by (metis map_upd_nonempty)

lemma sole_free: "sole m P xs \<Longrightarrow> m t = None \<Longrightarrow> (\<And>u. P u \<Longrightarrow> u = t) \<Longrightarrow> m = Map.empty \<and> xs = []"
  by (auto simp: sole_def)

lemma sole_set: "P t \<Longrightarrow> sole [t \<mapsto> v] P [v]"
  by (auto simp: sole_def)

lemma sole_at: "sole m P xs \<Longrightarrow> m t = Some v \<Longrightarrow> xs = [v] \<and> m(t := None) = Map.empty"
  by (auto simp: sole_def split: if_splits)

lemma sole_mono: "sole m P xs \<Longrightarrow> (\<And>t. m t \<noteq> None \<Longrightarrow> Q t) \<Longrightarrow> sole m Q xs"
  unfolding sole_def by (metis fun_upd_same option.distinct(1))

lemma sends_running: "sends w \<Longrightarrow> running w" "receives w \<Longrightarrow> running w"
  by (cases w; simp add: sends_def receives_def)+

lemma only_runner:
  "sched_inv s \<Longrightarrow> running (worker s t) \<Longrightarrow> running (worker s u) \<Longrightarrow> u = t"
  using sched_invD(3) [of s t] sched_invD(3) [of s u] by simp

section \<open>The invariant\<close>

definition session_at :: "session \<Rightarrow> (bool \<Rightarrow> bytes) \<Rightarrow> (bool \<Rightarrow> bytes \<Rightarrow> bytes) \<Rightarrow> (bool \<Rightarrow> bytes) \<Rightarrow>
    (bool \<Rightarrow> bytes list) \<Rightarrow> (bool \<Rightarrow> message list) \<Rightarrow> bool \<Rightarrow> bool" where
  "session_at s rq ms sq fl h x \<longleftrightarrow> sched_inv (ends s x) \<and>
     conn_repr (conn (ends s x)) (rq x) (ms x) (sq x) \<and>
     sole (in_flight s x) (\<lambda>t. sends (worker (ends s x) t)) (fl x) \<and>
     sole (in_hand s x) (\<lambda>t. receives (worker (ends s x) t)) (h x) \<and>
     flow (posted s x) (rq (\<not> x)) (written s x) (fl x) (sq x) (h (\<not> x)) (ms (\<not> x)) (taken s (\<not> x))"

definition session_inv :: "session \<Rightarrow> bool" where
  "session_inv s \<longleftrightarrow> (\<exists>rq ms sq fl h. \<forall>x. session_at s rq ms sq fl h x)"

lemma session_atD:
  assumes "session_at s rq ms sq fl h x"
  shows "sched_inv (ends s x)" "conn_repr (conn (ends s x)) (rq x) (ms x) (sq x)"
    "sole (in_flight s x) (\<lambda>t. sends (worker (ends s x) t)) (fl x)"
    "sole (in_hand s x) (\<lambda>t. receives (worker (ends s x) t)) (h x)"
    "flow (posted s x) (rq (\<not> x)) (written s x) (fl x) (sq x) (h (\<not> x)) (ms (\<not> x)) (taken s (\<not> x))"
  using assms by (simp_all add: session_at_def)

text \<open>A step of node \<open>x\<close>, with what its new state represents.\<close>

lemma session_inv_node:
  assumes "\<And>z. session_at s rq ms sq fl h z"
    and "ends s' (\<not> x) = ends s (\<not> x)" "in_flight s' (\<not> x) = in_flight s (\<not> x)"
      "in_hand s' (\<not> x) = in_hand s (\<not> x)" "posted s' (\<not> x) = posted s (\<not> x)" "taken s' (\<not> x) = taken s (\<not> x)"
    and "sched_inv (ends s' x)" and "conn_repr (conn (ends s' x)) rqx msx sqx"
    and "sole (in_flight s' x) (\<lambda>t. sends (worker (ends s' x) t)) flx"
    and "sole (in_hand s' x) (\<lambda>t. receives (worker (ends s' x) t)) hx"
    and "flow (posted s' x) (rq (\<not> x)) (written s' x) flx sqx (h (\<not> x)) (ms (\<not> x)) (taken s (\<not> x))"
    and "flow (posted s (\<not> x)) rqx (written s' (\<not> x)) (fl (\<not> x)) (sq (\<not> x)) hx msx (taken s' x)"
  shows "session_inv s'"
proof -
  have "session_at s' (rq(x := rqx)) (ms(x := msx)) (sq(x := sqx)) (fl(x := flx)) (h(x := hx)) z" for z
  proof (cases "z = x")
    case True
    then show ?thesis using assms(6-11) by (simp add: session_at_def)
  next
    case False
    then have "z = (\<not> x)" by auto
    with assms(2-6,12) session_atD [OF assms(1) [of "\<not> x"]] show ?thesis by (simp add: session_at_def)
  qed
  then show ?thesis unfolding session_inv_def by blast
qed

text \<open>A data operation of node \<open>x\<close>: it changes the connection but neither the flags nor the threads.\<close>

lemma session_inv_data:
  assumes "\<And>z. session_at s rq ms sq fl h z" and "stop_works c = stop_works (conn (ends s x))"
    and "ends s' = (ends s)(x := (ends s x)\<lparr>conn := c\<rparr>)" and "in_flight s' (\<not> x) = in_flight s (\<not> x)"
      "in_hand s' (\<not> x) = in_hand s (\<not> x)" "posted s' (\<not> x) = posted s (\<not> x)" "taken s' (\<not> x) = taken s (\<not> x)"
    and "conn_repr c rqx msx sqx"
    and "sole (in_flight s' x) (\<lambda>t. sends (worker (ends s x) t)) flx"
    and "sole (in_hand s' x) (\<lambda>t. receives (worker (ends s x) t)) hx"
    and "flow (posted s' x) (rq (\<not> x)) (written s' x) flx sqx (h (\<not> x)) (ms (\<not> x)) (taken s (\<not> x))"
    and "flow (posted s (\<not> x)) rqx (written s' (\<not> x)) (fl (\<not> x)) (sq (\<not> x)) hx msx (taken s' x)"
  shows "session_inv s'"
  by (rule session_inv_node [OF assms(1), where rqx = rqx and msx = msx and sqx = sqx and flx = flx and hx = hx and x = x])
    (use assms(3-12) sched_inv_data [OF session_atD(1) [OF assms(1)] assms(2)] in simp_all)

lemma flow_in: "(\<And>z. session_at s rq ms sq fl h z) \<Longrightarrow>
    flow (posted s (\<not> x)) (rq x) (written s (\<not> x)) (fl (\<not> x)) (sq (\<not> x)) (h x) (ms x) (taken s x)"
  using session_atD(5) [of s rq ms sq fl h "\<not> x"] by simp

text \<open>\<open>conn_recv\<close> takes a prefix of the undelivered bytes of its id.\<close>

lemma conn_recv_takes:
  assumes "conn_repr c rq ms sq" and "conn_recv tmpstate elapsed c i len timeout = Inr (n, data, c')" and "0 \<le> n"
  shows "data = take (unat len) (ms i) \<and> conn_repr c' rq (ms(i := drop (unat len) (ms i))) sq \<and>
    stop_works c' = stop_works c \<and> unat len \<le> length (ms i)"
proof -
  have pre: "\<not> (tmpstate = Connected \<and> state c \<noteq> Connected)"
    "elapsed \<le> (if timeout < 0 then 1000 * 1000000 else timeout)"
    using assms(2,3) by (auto simp: conn_recv_def Let_def E_UNCONNECTED_def E_TIMEOUT_def split: if_splits)
  from conn_recv_ok [OF assms(1) pre, of len i] assms(2) show ?thesis by (auto split: if_splits)
qed

lemma flow_fetch_take: "flow ps rq st fl sq h ms tk \<Longrightarrow>
    flow ps rq st fl sq h (ms(i := drop k (ms i))) (tk(i := tk i @ take k (ms i)))"
  by (rule flow_fetch) simp_all

section \<open>The steps keep the invariant\<close>

lemma inv_post:
  assumes "\<And>z. session_at s rq ms sq fl h z" and "msg_ok (i, d)"
    and "length (frames (posted s x @ [(i, d)])) \<le> cb_limit" and "send_msg (conn (ends s x)) i d = Inr (n, c)"
  shows "session_inv ((with_conn x c s)\<lparr>posted := (posted s)(x := posted s x @ [(i, d)])\<rparr>)"
    and "conn_repr c (rq x) (ms x) (sq x @ pack i d)" and "stop_works c = stop_works (conn (ends s x))"
proof -
  note at = session_atD [OF assms(1) [of x]]
  have "length (sq x) + (9 + length i + length d) \<le> cb_limit"
    using flow_limits(1) [OF at(5)] assms(3) by simp
  from send_msg_ok [OF at(2) this] assms(4) show
    c: "conn_repr c (rq x) (ms x) (sq x @ pack i d)" "stop_works c = stop_works (conn (ends s x))" by auto
  show "session_inv ((with_conn x c s)\<lparr>posted := (posted s)(x := posted s x @ [(i, d)])\<rparr>)"
    by (rule session_inv_data [OF assms(1) c(2), where rqx = "rq x" and msx = "ms x" and sqx = "sq x @ pack i d"
          and flx = "fl x" and hx = "h x"])
      (use c at flow_post [OF at(5) assms(2,3)] flow_in [OF assms(1), of x] in simp_all)
qed

lemma inv_fetch:
  assumes "\<And>z. session_at s rq ms sq fl h z" and "0 \<le> n"
    and "conn_recv tmpstate elapsed (conn (ends s x)) i len timeout = Inr (n, data, c)"
  shows "session_inv ((with_conn x c s)\<lparr>taken := (taken s)(x := (taken s x)(i := taken s x i @ data))\<rparr>)"
proof -
  note at = session_atD [OF assms(1) [of x]]
  have c: "data = take (unat len) (ms x i)" "conn_repr c (rq x) ((ms x)(i := drop (unat len) (ms x i))) (sq x)"
    "stop_works c = stop_works (conn (ends s x))"
    using conn_recv_takes [OF at(2) assms(3,2)] by simp_all
  show ?thesis
    by (rule session_inv_data [OF assms(1) c(3), where rqx = "rq x" and msx = "(ms x)(i := drop (unat len) (ms x i))"
          and sqx = "sq x" and flx = "fl x" and hx = "h x"])
      (use c at flow_fetch_take [OF flow_in [OF assms(1), of x], of i "unat len"] in simp_all)
qed

lemma inv_take:
  assumes "\<And>z. session_at s rq ms sq fl h z" and "sends (worker (ends s x) t)" and "in_flight s x t = None"
    and "send_step t (conn (ends s x)) = Inr (Stepped (data, c))"
  shows "session_inv ((with_conn x c s)\<lparr>in_flight := (in_flight s)(x := (in_flight s x)(t \<mapsto> data))\<rparr>)"
proof -
  note at = session_atD [OF assms(1) [of x]]
  have free: "in_flight s x = Map.empty" "fl x = []"
    using sole_free [OF at(3) assms(3)] only_runner [OF at(1)] assms(2) sends_running(1) by metis+
  have "\<not> stop_requested (conn (ends s x)) t" using assms(4) by (auto simp: send_step_def)
  from send_step_ok [OF at(2) this] assms(4) have
    c: "data = sq x" "conn_repr c (rq x) (ms x) []" "stop_works c = stop_works (conn (ends s x))" by auto
  show ?thesis
    by (rule session_inv_data [OF assms(1) c(3), where rqx = "rq x" and msx = "ms x" and sqx = "[]"
          and flx = "[data]" and hx = "h x"])
      (use c at free assms(2) sole_set flow_take [of "posted s x"] flow_in [OF assms(1), of x] in simp_all)
qed

lemma write_result_split: "write_result data out rest \<Longrightarrow> data = out @ rest"
  unfolding write_result_def writen_def by (auto dest!: writen_loop_prefix)

lemma write_whole: "write_result data data []"
  using writen_whole [of No_Error data] unfolding write_result_def by fastforce

lemma inv_put:
  assumes "\<And>z. session_at s rq ms sq fl h z" and "in_flight s x t = Some data" and "write_result data out rest"
  shows "session_inv (transmit x out rest (s\<lparr>in_flight := (in_flight s)(x := (in_flight s x)(t := None))\<rparr>))"
proof -
  note at = session_atD [OF assms(1) [of x]]
  have one: "fl x = [data]" "(in_flight s x)(t := None) = Map.empty"
    using sole_at [OF at(3) assms(2)] by simp_all
  have "flow (posted s x) (rq (\<not> x)) (written s x @ out @ rest) [] (sq x) (h (\<not> x)) (ms (\<not> x)) (taken s (\<not> x))"
    using flow_put [OF at(5) [unfolded one(1)]] write_result_split [OF assms(3)] by simp
  then show ?thesis
    by (intro session_inv_node [OF assms(1), where x = x and rqx = "rq x" and msx = "ms x" and sqx = "sq x"
          and flx = "[]" and hx = "h x"])
      (use at one flow_in [OF assms(1), of x] in \<open>simp_all only: written_transmit, simp_all\<close>)
qed

lemma inv_reset:
  assumes "session_inv s"
  shows "session_inv (discard x k s)"
proof -
  have w: "written (discard x k s) y = written s y" for y
    using written_discard [of x k s] by (cases "y = x") simp_all
  have "session_at (discard x k s) rq ms sq fl h y = session_at s rq ms sq fl h y" for rq ms sq fl h y
    unfolding session_at_def w by simp
  then show ?thesis using assms by (simp add: session_inv_def)
qed

lemma inv_arrive:
  assumes "\<And>z. session_at s rq ms sq fl h z" and "stream s (\<not> x) = data @ rest"
    and "conn_write (conn (ends s x)) data = Inr c"
  shows "session_inv ((with_conn x c s)\<lparr>stream := (stream s)(\<not> x := rest)\<rparr>)"
proof -
  note at = session_atD [OF assms(1) [of x]]
  note f = flow_in [OF assms(1), of x]
  have "length (rq x) + length data \<le> cb_limit"
    using flow_limits(1,2) [OF f] assms(2) by simp
  from conn_write_ok [OF at(2) this] assms(3) have
    c: "conn_repr c (rq x @ data) (ms x) (sq x)" "stop_works c = stop_works (conn (ends s x))" by auto
  show ?thesis
    by (rule session_inv_data [OF assms(1) c(2), where rqx = "rq x @ data" and msx = "ms x" and sqx = "sq x"
          and flx = "fl x" and hx = "h x"])
      (use c at flow_arrive [of "posted s (\<not> x)" "rq x" data "rest @ lost s (\<not> x)"] f assms(2) in simp_all)
qed

lemma inv_unpack:
  assumes "\<And>z. session_at s rq ms sq fl h z" and "receives (worker (ends s x) t)" and "in_hand s x t = None"
    and "unpack_message t (conn (ends s x)) = Inr (Stepped (i, d, c))"
  shows "session_inv ((with_conn x c s)\<lparr>in_hand := (in_hand s)(x := (in_hand s x)(t \<mapsto> (i, d)))\<rparr>)"
proof -
  note at = session_atD [OF assms(1) [of x]]
  have free: "in_hand s x = Map.empty" "h x = []"
    using sole_free [OF at(4) assms(3)] only_runner [OF at(1)] assms(2) sends_running(2) by metis+
  obtain k rq' where u: "frame_ready (rq x)" "parse_frame [] [] (rq x) = Inr (k, i, d, rq')"
    "conn_repr c rq' (ms x) (sq x)" "stop_works c = stop_works (conn (ends s x))"
    using unpack_message_ok [OF at(2) assms(4)] by blast
  have f: "flow (posted s (\<not> x)) rq' (written s (\<not> x)) (fl (\<not> x)) (sq (\<not> x)) [(i, d)] (ms x) (taken s x)"
    using flow_unpack [OF _ u(1,2)] flow_in [OF assms(1), of x] free(2) by simp
  show ?thesis
    by (rule session_inv_data [OF assms(1) u(4), where rqx = rq' and msx = "ms x" and sqx = "sq x"
          and flx = "fl x" and hx = "[(i, d)]"])
      (use u f at free(1) assms(2) sole_set in simp_all)
qed

lemma inv_store:
  assumes "\<And>z. session_at s rq ms sq fl h z" and "in_hand s x t = Some (i, d)"
    and "store_message (conn (ends s x)) i d = Inr c"
  shows "session_inv ((with_conn x c s)\<lparr>in_hand := (in_hand s)(x := (in_hand s x)(t := None))\<rparr>)"
proof -
  note at = session_atD [OF assms(1) [of x]]
  note f = flow_in [OF assms(1), of x]
  have one: "h x = [(i, d)]" "(in_hand s x)(t := None) = Map.empty"
    using sole_at [OF at(4) assms(2)] by simp_all
  have st: "streams (mapbuffer (conn (ends s x))) (ms x)" using at(2) by (simp add: conn_repr_def)
  obtain mb where mb: "c = (conn (ends s x))\<lparr>mapbuffer := mb\<rparr>" "streams mb ((ms x)(i := ms x i @ d))"
    using store_message_ok [OF st flow_limits(3) [OF f one(1)]] assms(3) by auto
  have c: "conn_repr c (rq x) ((ms x)(i := ms x i @ d)) (sq x)" "stop_works c = stop_works (conn (ends s x))"
    using at(2) mb by (simp_all add: conn_repr_def)
  show ?thesis
    by (rule session_inv_data [OF assms(1) c(2), where rqx = "rq x" and msx = "(ms x)(i := ms x i @ d)"
          and sqx = "sq x" and flx = "fl x" and hx = "[]"])
      (use c at one flow_store [OF f [unfolded one(1)]] in simp_all)
qed

lemma close_connection_ok:
  assumes "conn_repr c rq ms sq" and "close_connection c = Inr (data, True, c')"
  shows "data = sq \<and> conn_repr c' rq ms [] \<and> stop_works c' = stop_works c \<and> state c' = Closed"
proof -
  have r: "conn_repr (c\<lparr>state := Closing\<rparr>) rq ms sq" using assms(1) by (simp add: conn_repr_def)
  obtain c1 where c1: "flush_send_buffer (c\<lparr>state := Closing\<rparr>) = Inr (sq, c1)" "conn_repr c1 rq ms []"
    using flush_send_buffer_ok [OF r] by blast
  then have "c' = c1\<lparr>state := Closed\<rparr>" "data = sq" using assms(2) by (auto simp: close_connection_def split: if_splits)
  moreover have "stop_works c1 = stop_works c"
    using c1(1) by (auto simp: flush_send_buffer_def bindE_eq_Inr split: if_splits)
  ultimately show ?thesis using c1(2) by (simp add: conn_repr_def)
qed

lemma inv_close:
  assumes "\<And>z. session_at s rq ms sq fl h z" and "\<And>t. caller (ends s x) t = Idle"
    and "close_connection (conn (ends s x)) = Inr (data, True, c)" and "write_result data out rest"
  shows "session_inv (discard x k (transmit x out rest (with_conn x c s)))"
proof (rule inv_reset)
  note at = session_atD [OF assms(1) [of x]]
  have c: "data = sq x" "conn_repr c (rq x) (ms x) []" "stop_works c = stop_works (conn (ends s x))"
    using close_connection_ok [OF at(2) assms(3)] by simp_all
  have "worker (ends s x) t = Absent" for t
    using sched_invD(2) [OF at(1), of t] assms(2) by (simp add: task_ok_def)
  then have fl: "fl x = []" using at(3) by (auto simp: sole_def sends_def)
  have "flow (posted s x) (rq (\<not> x)) (written s x) [sq x] [] (h (\<not> x)) (ms (\<not> x)) (taken s (\<not> x))"
    using flow_take [of "posted s x"] at(5) fl by simp
  from flow_put [OF this]
  have "flow (posted s x) (rq (\<not> x)) (written s x @ out @ rest) [] [] (h (\<not> x)) (ms (\<not> x)) (taken s (\<not> x))"
    using c(1) write_result_split [OF assms(4)] by simp
  then show "session_inv (transmit x out rest (with_conn x c s))"
    by (intro session_inv_data [OF assms(1) c(3), where rqx = "rq x" and msx = "ms x" and sqx = "[]"
          and flx = "[]" and hx = "h x"])
      (use c at fl flow_in [OF assms(1), of x] in \<open>simp_all only: written_transmit, simp_all\<close>)
qed

lemma inv_control:
  assumes "\<And>z. session_at s rq ms sq fl h z" and "control_step (ends s x) n" and "mid_round_ok s x n"
  shows "session_inv (s\<lparr>ends := (ends s)(x := n)\<rparr>)"
proof -
  note at = session_atD [OF assms(1) [of x]]
  have n: "sched_inv n" "conn_repr (conn n) (rq x) (ms x) (sq x)"
    using assms(2) sched_inv_step [OF _ at(1)] at(2) by (auto simp: control_step_def conn_repr_def)
  have "sole (in_flight s x) (\<lambda>t. sends (worker n t)) (fl x)" "sole (in_hand s x) (\<lambda>t. receives (worker n t)) (h x)"
    using sole_mono [OF at(3)] sole_mono [OF at(4)] assms(3) by (auto simp: mid_round_ok_def)
  with n at(5) flow_in [OF assms(1), of x] show ?thesis
    by (intro session_inv_node [OF assms(1), where x = x and rqx = "rq x" and msx = "ms x" and sqx = "sq x"
          and flx = "fl x" and hx = "h x"]) simp_all
qed

lemma inv_start:
  assumes "\<And>z. session_at s rq ms sq fl h z" and "caller (ends s x) t = Idle" and "length (lock_id t) \<le> 254"
    and "length (frames (posted s x @ [(lock_id t, ''1'')])) \<le> cb_limit"
    and "start_lock t (conn (ends s x)) = Inr c"
  shows "session_inv (s\<lparr>ends := (ends s)(x := set_caller t Starting ((ends s x)\<lparr>conn := c\<rparr>)),
    posted := (posted s)(x := posted s x @ [(lock_id t, ''1'')])\<rparr>)"
proof -
  note at = session_atD [OF assms(1) [of x]]
  let ?c0 = "(conn (ends s x))\<lparr>task_count := task_count (conn (ends s x)) + 1\<rparr>"
  have r0: "conn_repr ?c0 (rq x) (ms x) (sq x)" using at(2) by (simp add: conn_repr_def)
  have "length (sq x) + (9 + length (lock_id t) + length ''1'') \<le> cb_limit"
    using flow_limits(1) [OF at(5)] assms(4) by simp
  from send_msg_ok [OF r0 this] assms(5) have
    c: "conn_repr c (rq x) (ms x) (sq x @ pack (lock_id t) ''1'')" by (auto simp: start_lock_def)
  have ok: "msg_ok (lock_id t, ''1'')" using assms(3) by (simp add: msg_ok_def cb_limit_def)
  show ?thesis
    by (rule session_inv_node [OF assms(1), where x = x and rqx = "rq x" and msx = "ms x"
          and sqx = "sq x @ pack (lock_id t) ''1''" and flx = "fl x" and hx = "h x"])
      (use c at sched_inv_start [OF at(1) assms(2,5)] flow_post [OF at(5) ok assms(4)] flow_in [OF assms(1), of x]
        in simp_all)
qed

text \<open>A stop takes one byte under the id of its lock message.\<close>

lemma lock_recv:
  assumes "conn_repr c rq ms sq" and "conn_recv (state c) 0 c (lock_id t) 1 (-1) = Inr (n, data, c')"
  shows "n = 1" "length data = 1" "stop_lock t c = Inr c'"
proof -
  show one: "n = 1"
    using assms(2) conn_recv_ok [OF assms(1), of "state c" 0 "-1" 1 "lock_id t"] by (auto split: if_splits)
  show "length data = 1" using conn_recv_takes [OF assms] one by simp
  show "stop_lock t c = Inr c'" using assms(2) by (simp add: stop_lock_def)
qed

lemma inv_stop:
  assumes "\<And>z. session_at s rq ms sq fl h z" and "caller (ends s x) t = Lock_Waiting"
    and "conn_recv (state (conn (ends s x))) 0 (conn (ends s x)) (lock_id t) 1 (-1) = Inr (n, data, c)"
  shows "session_inv (s\<lparr>ends := (ends s)(x := set_caller t Stopping ((ends s x)\<lparr>conn := c, task_mtx := None\<rparr>)),
    taken := (taken s)(x := (taken s x)(lock_id t := taken s x (lock_id t) @ data))\<rparr>)"
proof -
  note at = session_atD [OF assms(1) [of x]]
  note l = lock_recv [OF at(2) assms(3)]
  let ?ms = "(ms x)(lock_id t := drop 1 (ms x (lock_id t)))"
  have c: "data = take 1 (ms x (lock_id t))" "conn_repr c (rq x) ?ms (sq x)"
    using conn_recv_takes [OF at(2) assms(3)] l(1) by simp_all
  show ?thesis
    by (rule session_inv_node [OF assms(1), where x = x and rqx = "rq x" and msx = ?ms and sqx = "sq x"
          and flx = "fl x" and hx = "h x"])
      (use c at sched_inv_stop_lock [OF at(1) assms(2) l(3)]
          flow_fetch_take [OF flow_in [OF assms(1), of x], of "lock_id t" 1] in simp_all)
qed

lemma session_inv_step:
  assumes "session_step s s'" and "session_inv s"
  shows "session_inv s'"
proof -
  obtain rq ms sq fl h where at: "\<And>x. session_at s rq ms sq fl h x"
    using assms(2) unfolding session_inv_def by blast
  note invs = inv_control [OF at] inv_start [OF at] inv_stop [OF at] inv_post(1) [OF at] inv_fetch [OF at]
    inv_take [OF at] inv_put [OF at] inv_arrive [OF at] inv_unpack [OF at] inv_store [OF at]
    inv_close [OF at] inv_reset [OF assms(2)]
  from assms(1) show ?thesis by cases (simp_all only: invs)
qed

lemma session_inv_new:
  assumes "\<And>x. stop_works (c x) = []" and "\<And>x. conn_repr (c x) [] (\<lambda>_. []) []"
  shows "session_inv (new_session c)"
proof -
  have "sched_inv (new_sched (c x))" "conn_repr (conn (new_sched (c x))) [] (\<lambda>_. []) []" for x
    using sched_inv_new [OF assms(1)] assms(2) by (simp_all add: new_sched_def)
  then have "session_at (new_session c) (\<lambda>_. []) (\<lambda>_ _. []) (\<lambda>_. []) (\<lambda>_. []) (\<lambda>_. []) x" for x
    by (simp add: session_at_def new_session_def flow_new)
  then show ?thesis unfolding session_inv_def by blast
qed

end
