(* ===== verification/Session_Tasks.thy ===== *)
theory Session_Tasks
  imports Session
begin

text \<open>
  How the tasks of two nodes meet (\<open>Session\<close>): \<open>start\<close> sends a lock message and \<open>stop\<close> waits for that of the
  peer. The lemmas count the starts of both ends, show when two stops block each other for good, and that
  stops both ends agree on return.
\<close>

section \<open>Starts and stops of the two ends\<close>

text \<open>How often a node has started a task: its lock messages.\<close>

definition starts :: "session \<Rightarrow> bool \<Rightarrow> bytes \<Rightarrow> nat" where
  "starts s x t = length (filter (\<lambda>m. fst m = lock_id t) (posted s x))"

text \<open>A caller between its start and the arrival of the lock message of the peer.\<close>

definition begun :: "caller \<Rightarrow> bool" where
  "begun c \<longleftrightarrow> c \<in> {Starting, Awaiting, Started, Lock_Waiting}"

definition locks_ok :: "session \<Rightarrow> bool" where
  "locks_ok s \<longleftrightarrow> (\<forall>x. \<forall>m\<in>set (posted s x). is_lock_id (fst m) \<longrightarrow> snd m = ''1'') \<and>
     (\<forall>x t. starts s x t = length (taken s x (lock_id t)) + (if begun (caller (ends s x) t) then 1 else 0))"

lemma lock_ids [simp]: "is_lock_id (lock_id t)" "lock_id t = lock_id u \<longleftrightarrow> t = u"
  by (simp_all add: is_lock_id_def lock_id_def)

lemma not_lock_id: "\<not> is_lock_id i \<Longrightarrow> i \<noteq> lock_id t"
  by auto

lemma payloads_lock:
  "\<forall>m\<in>set ps. is_lock_id (fst m) \<longrightarrow> snd m = ''1'' \<Longrightarrow>
   length (payloads ps (lock_id t)) = length (filter (\<lambda>m. fst m = lock_id t) ps)"
  by (induction ps) (auto simp: payloads_def)

lemma control_step_begun:
  assumes "control_step s n"
  shows "begun (caller n t) \<longleftrightarrow> begun (caller s t)"
proof -
  have st: "sched_step s n" and idle: "caller s t = Idle \<Longrightarrow> caller n t = Idle"
    and lock: "caller s t = Lock_Waiting \<Longrightarrow> caller n t = Lock_Waiting" for t
    using assms by (auto simp: control_step_def)
  from st show ?thesis
  proof (cases rule: sched_step.cases)
    case (Start u c)
    with idle [of u] show ?thesis by simp
  next
    case (Stop_Lock u c)
    with lock [of u] show ?thesis by simp
  next
    case (Stop_Take u s')
    then have "caller s' = caller s" by (auto simp: do_stop_take_def split: if_splits)
    with Stop_Take show ?thesis by (auto simp: begun_def)
  qed (auto simp: begun_def spawn_thread_def do_start_work_def do_start_end_def)
qed

lemma locks_ok_step:
  assumes "session_step s s'" and "session_inv s" and "locks_ok s"
  shows "locks_ok s'"
  using assms(1)
proof cases
  case (Control x n)
  then show ?thesis using assms(3) control_step_begun [OF Control(2)] by (auto simp: locks_ok_def starts_def)
next
  case (Task_Start x t c)
  then show ?thesis using assms(3) by (auto simp: locks_ok_def starts_def begun_def)
next
  case (Task_Stop x t n data c)
  obtain rq ms sq fl h where "\<And>x. session_at s rq ms sq fl h x"
    using assms(2) unfolding session_inv_def by blast
  then have "length data = 1" using lock_recv(2) [OF session_atD(2) Task_Stop(3)] by blast
  then show ?thesis using assms(3) Task_Stop(1,2) by (auto simp: locks_ok_def starts_def begun_def)
next
  case (Post i d x n c)
  then show ?thesis using assms(3) not_lock_id [OF Post(3)] by (auto simp: locks_ok_def starts_def)
next
  case (Fetch i ts el x len timeout n data c)
  then show ?thesis using assms(3) not_lock_id [OF Fetch(2)] by (auto simp: locks_ok_def starts_def)
qed (use assms(3) in \<open>auto simp: locks_ok_def starts_def\<close>)

lemma session_steps:
  assumes "session_step\<^sup>*\<^sup>* s s'" and "session_inv s" and "locks_ok s"
  shows "session_inv s' \<and> locks_ok s'"
  using assms(1)
proof (induction rule: rtranclp_induct)
  case (step s s')
  then show ?case using session_inv_step locks_ok_step by blast
qed (use assms(2,3) in simp)

lemma session_reach:
  assumes "session_step\<^sup>*\<^sup>* (new_session c) s"
    and "\<And>x. stop_works (c x) = []" and "\<And>x. conn_repr (c x) [] (\<lambda>_. []) []"
  shows "session_inv s" and "locks_ok s"
proof -
  have "locks_ok (new_session c)"
    by (simp add: locks_ok_def starts_def new_session_def begun_def new_sched_def)
  with session_steps [OF assms(1) session_inv_new [of c]] assms(2,3) show "session_inv s" "locks_ok s" by simp_all
qed

lemma session_prefix:
  assumes "session_inv s"
  shows "\<exists>rest. payloads (posted s x) i = taken s (\<not> x) i @ rest"
  using assms flow_prefix unfolding session_inv_def session_at_def by metis

lemma taken_locks_le:
  assumes "session_inv s" and "locks_ok s"
  shows "length (taken s (\<not> x) (lock_id t)) \<le> starts s x t"
proof -
  obtain rest where "payloads (posted s x) (lock_id t) = taken s (\<not> x) (lock_id t) @ rest"
    using session_prefix [OF assms(1)] by blast
  then have "length (taken s (\<not> x) (lock_id t)) \<le> length (payloads (posted s x) (lock_id t))" by simp
  also have "\<dots> = starts s x t" using assms(2) payloads_lock by (simp add: locks_ok_def starts_def)
  finally show ?thesis .
qed

lemma starts_in_step:
  assumes "session_inv s" and "locks_ok s"
  shows "starts s x t \<le> starts s (\<not> x) t + (if begun (caller (ends s x) t) then 1 else 0)"
  using taken_locks_le [OF assms, of "\<not> x" t] assms(2) by (simp add: locks_ok_def)

section \<open>Crossing stops\<close>

text \<open>A task whose stop waits for a start of the peer that has not happened.\<close>

definition stuck :: "session \<Rightarrow> bool \<Rightarrow> bytes \<Rightarrow> bool" where
  "stuck s x t \<longleftrightarrow> caller (ends s x) t = Lock_Waiting \<and> length (taken s x (lock_id t)) = starts s (\<not> x) t"

lemma no_lock_to_take:
  assumes "session_inv s" and "locks_ok s" and "length (taken s x (lock_id t)) = starts s (\<not> x) t"
  shows "conn_recv (state (conn (ends s x))) 0 (conn (ends s x)) (lock_id t) 1 (-1) \<noteq> Inr (n, data, c)"
proof
  assume r: "conn_recv (state (conn (ends s x))) 0 (conn (ends s x)) (lock_id t) 1 (-1) = Inr (n, data, c)"
  obtain rq ms sq fl h where at: "\<And>x. session_at s rq ms sq fl h x"
    using assms(1) unfolding session_inv_def by blast
  note repr = session_atD(2) [OF at [of x]]
  obtain rest where "payloads (posted s (\<not> x)) (lock_id t) = taken s x (lock_id t) @ ms x (lock_id t) @ rest"
    using flow_prefix [OF flow_in [OF at, of x], of "lock_id t"] by blast
  then have "length (payloads (posted s (\<not> x)) (lock_id t)) \<ge> length (taken s x (lock_id t)) + length (ms x (lock_id t))"
    by simp
  then have "ms x (lock_id t) = []"
    using assms(2,3) payloads_lock [of "posted s (\<not> x)" t] by (simp add: locks_ok_def starts_def)
  moreover have "unat (1 :: u64) \<le> length (ms x (lock_id t))"
    using conn_recv_takes [OF repr r] lock_recv(1) [OF repr r] by simp
  ultimately show False by simp
qed

lemma stuck_mtx: "session_inv s \<Longrightarrow> stuck s x t \<Longrightarrow> task_mtx (ends s x) = Some t"
  using sched_invD(5) unfolding session_inv_def session_at_def stuck_def by blast

lemma stuck_step:
  assumes "session_step s s'" and "session_inv s" and "locks_ok s" and "stuck s x t" and "stuck s (\<not> x) u"
  shows "stuck s' x t \<and> stuck s' (\<not> x) u \<and> starts s' = starts s"
proof -
  have held: "task_mtx (ends s y) \<noteq> None" for y
    using stuck_mtx [OF assms(2,4)] stuck_mtx [OF assms(2,5)] by (cases "y = x") auto
  have none: "caller (ends s y) v = Lock_Waiting \<Longrightarrow>
      conn_recv (state (conn (ends s y))) 0 (conn (ends s y)) (lock_id v) 1 (-1) \<noteq> Inr (n, data, c)"
    for y v n data c
  proof (rule no_lock_to_take [OF assms(2,3)])
    assume "caller (ends s y) v = Lock_Waiting"
    then have "task_mtx (ends s y) = Some v"
      using assms(2) sched_invD(5) unfolding session_inv_def session_at_def by blast
    then have "y = x \<and> v = t \<or> y = (\<not> x) \<and> v = u"
      using stuck_mtx [OF assms(2,4)] stuck_mtx [OF assms(2,5)] by (cases "y = x") auto
    then show "length (taken s y (lock_id v)) = starts s (\<not> y) v" using assms(4,5) by (auto simp: stuck_def)
  qed
  show ?thesis using assms(1)
  proof cases
    case (Control y n)
    then show ?thesis using assms(4,5) by (auto simp: stuck_def starts_def control_step_def fun_eq_iff)
  next
    case (Task_Start y v c)
    with held [of y] show ?thesis by simp
  next
    case (Task_Stop y v n data c)
    with none show ?thesis by blast
  next
    case (Post i d y n c)
    then show ?thesis using assms(4,5) not_lock_id [OF Post(3)] by (auto simp: stuck_def starts_def fun_eq_iff)
  next
    case (Fetch i ts el y len timeout n data c)
    then show ?thesis using assms(4,5) not_lock_id [OF Fetch(2)] by (auto simp: stuck_def starts_def fun_eq_iff)
  next
    case (Close y data c out rest k)
    then have "task_mtx (ends s y) = None"
      using held [of y] stuck_mtx [OF assms(2,4)] stuck_mtx [OF assms(2,5)] assms(4,5)
      by (cases "y = x") (auto simp: stuck_def)
    with held [of y] show ?thesis by simp
  qed (use assms(4,5) in \<open>auto simp: stuck_def starts_def fun_eq_iff\<close>)
qed

lemma stuck_steps:
  assumes "session_step\<^sup>*\<^sup>* s s'" and "session_inv s" and "locks_ok s" and "stuck s x t" and "stuck s (\<not> x) u"
  shows "stuck s' x t \<and> stuck s' (\<not> x) u \<and> starts s' = starts s \<and> session_inv s' \<and> locks_ok s'"
  using assms(1)
proof (induction rule: rtranclp_induct)
  case (step s1 s2)
  then show ?case using stuck_step [OF step(2)] session_inv_step [OF step(2)] locks_ok_step [OF step(2)] by metis
qed (use assms(2-5) in simp)

section \<open>Reaching a stop\<close>

lemma control_steps:
  assumes "control_step\<^sup>*\<^sup>* (ends s x) n" and "in_flight s x = Map.empty" and "in_hand s x = Map.empty"
  shows "session_step\<^sup>*\<^sup>* s (s\<lparr>ends := (ends s)(x := n)\<rparr>)"
  using assms(1)
proof (induction rule: rtranclp_induct)
  case (step m n)
  let ?s = "s\<lparr>ends := (ends s)(x := m)\<rparr>"
  have "control_step (ends ?s x) n" "mid_round_ok ?s x n" using step(2) assms(2,3) by (simp_all add: mid_round_ok_def)
  then have "session_step ?s (?s\<lparr>ends := (ends ?s)(x := n)\<rparr>)" by (rule Control)
  then have "session_step ?s (s\<lparr>ends := (ends s)(x := n)\<rparr>)" by simp
  with step(3) show ?case by (rule rtranclp.rtrancl_into_rtrancl)
qed simp

text \<open>A task that has just been started runs until \<open>start\<close> returns, and its stop up to the wait.\<close>

definition plain_step :: "sched \<Rightarrow> sched \<Rightarrow> bool" where
  "plain_step m n \<longleftrightarrow> control_step m n \<and> (\<forall>u. caller n u = Lock_Waiting \<longrightarrow> caller m u = Lock_Waiting)"

lemma started_task_runs:
  assumes "caller m t = Starting" and "worker m t = Absent" and "task_mtx m = None"
    and "stop_works (conn m) = []"
  shows "\<exists>n. plain_step\<^sup>*\<^sup>* m n \<and> caller n t = Started \<and> task_mtx n = None \<and>
    buffer (conn n) = buffer (conn m) \<and> mapbuffer (conn n) = mapbuffer (conn m)"
proof -
  let ?m1 = "set_caller t Awaiting (spawn_thread t m)"
  let ?m2 = "set_worker t Queued (?m1\<lparr>conn := do_start_insert t (conn ?m1)\<rparr>)"
  let ?m3 = "set_caller t Started ?m2"
  have s1: "sched_step m ?m1" using assms(1) by (rule Spawn)
  have s2: "sched_step ?m1 ?m2" by (rule Queue) (simp add: spawn_thread_def)
  have "start_done t (conn ?m2)"
    using assms(4) std.find_insert [of "[]" t False] by (simp add: start_done_def do_start_insert_def spawn_thread_def)
  then have s3: "sched_step ?m2 ?m3" by (intro Start_Return) (simp_all add: spawn_thread_def)
  have "plain_step m ?m1" "plain_step ?m1 ?m2" "plain_step ?m2 ?m3"
    using s1 s2 s3 assms(1) by (auto simp: plain_step_def control_step_def spawn_thread_def do_start_insert_def)
  then have "plain_step\<^sup>*\<^sup>* m ?m3" by (meson r_into_rtranclp rtranclp_trans)
  then show ?thesis by (rule exI [of _ ?m3, OF conjI]) (simp add: assms(3) spawn_thread_def do_start_insert_def)
qed

lemma stop_begins:
  assumes "caller m t = Started" and "task_mtx m = None"
  shows "control_step m (set_caller t Lock_Waiting (m\<lparr>conn := stop_count (conn m), task_mtx := Some t\<rparr>))"
  using Stop [OF assms] assms(1) by (auto simp: control_step_def stop_count_def)

lemma started_task_stops:
  assumes "caller m t = Starting" and "worker m t = Absent" and "task_mtx m = None"
    and "stop_works (conn m) = []"
  shows "\<exists>n. control_step\<^sup>*\<^sup>* m n \<and> caller n t = Lock_Waiting"
proof -
  obtain k where k: "plain_step\<^sup>*\<^sup>* m k" "caller k t = Started" "task_mtx k = None"
    using started_task_runs [OF assms] by blast
  have "control_step\<^sup>*\<^sup>* m k" using k(1) by (rule mono_rtranclp [rule_format, rotated]) (simp add: plain_step_def)
  from rtranclp.rtrancl_into_rtrancl [OF this stop_begins [OF k(2,3)]] show ?thesis by (auto intro!: exI)
qed

text \<open>The start of a task on a fresh connection.\<close>

lemma fresh_start:
  assumes "ends s x = new_sched c" and "posted s x = []"
    and "conn_repr c [] (\<lambda>_. []) []" and "stop_works c = []" and "length (lock_id t) \<le> 254" and "state c \<noteq> Closed"
  shows "\<exists>m. session_step s (s\<lparr>ends := (ends s)(x := m), posted := (posted s)(x := [(lock_id t, ''1'')])\<rparr>) \<and>
    caller m = (\<lambda>_. Idle)(t := Starting) \<and> worker m t = Absent \<and> task_mtx m = None \<and> stop_works (conn m) = [] \<and>
    conn_repr (conn m) [] (\<lambda>_. []) (pack (lock_id t) ''1'')"
proof -
  have r: "conn_repr (c\<lparr>task_count := task_count c + 1\<rparr>) [] (\<lambda>_. []) []" using assms(3) by (simp add: conn_repr_def)
  have len: "length [] + (9 + length (lock_id t) + length ''1'') \<le> cb_limit" using assms(5) by (simp add: cb_limit_def)
  obtain c' where c': "start_lock t c = Inr c'" "stop_works c' = []" "conn_repr c' [] (\<lambda>_. []) (pack (lock_id t) ''1'')"
    using send_msg_ok [OF r len] assms(4) by (auto simp: start_lock_def)
  have start: "caller (ends s x) t = Idle" "task_mtx (ends s x) = None" "start_lock t (conn (ends s x)) = Inr c'"
      "state (conn (ends s x)) \<noteq> Closed"
    using assms(1,6) c'(1) by (simp_all add: new_sched_def)
  have lim: "length (frames (posted s x @ [(lock_id t, ''1'')])) \<le> cb_limit" using assms(2) len by simp
  let ?m = "set_caller t Starting ((ends s x)\<lparr>conn := c'\<rparr>)"
  have "session_step s (s\<lparr>ends := (ends s)(x := ?m), posted := (posted s)(x := posted s x @ [(lock_id t, ''1'')])\<rparr>)"
    by (rule Task_Start [OF start(1,2) assms(5) lim start(3,4)])
  with c' assms(1,2) show ?thesis by (intro exI [of _ ?m]) (simp add: new_sched_def)
qed

text \<open>From a fresh connection node \<open>x\<close> gets to the stop of a task, whatever the other node has done.\<close>

lemma reach_stop:
  assumes "ends s x = new_sched c" and "posted s x = []" and "in_flight s x = Map.empty" and "in_hand s x = Map.empty"
    and "conn_repr c [] (\<lambda>_. []) []" and "stop_works c = []" and "length (lock_id t) \<le> 254" and "state c \<noteq> Closed"
  shows "\<exists>n. session_step\<^sup>*\<^sup>* s (s\<lparr>posted := (posted s)(x := [(lock_id t, ''1'')]), ends := (ends s)(x := n)\<rparr>) \<and>
    caller n t = Lock_Waiting"
proof -
  obtain m where m: "session_step s (s\<lparr>ends := (ends s)(x := m), posted := (posted s)(x := [(lock_id t, ''1'')])\<rparr>)"
    "caller m t = Starting" "worker m t = Absent" "task_mtx m = None" "stop_works (conn m) = []"
    using fresh_start [OF assms(1,2,5-8)] by auto
  let ?s = "s\<lparr>ends := (ends s)(x := m), posted := (posted s)(x := [(lock_id t, ''1'')])\<rparr>"
  obtain n where n: "control_step\<^sup>*\<^sup>* m n" "caller n t = Lock_Waiting" using started_task_stops [OF m(2-5)] by blast
  have "session_step\<^sup>*\<^sup>* ?s (?s\<lparr>ends := (ends ?s)(x := n)\<rparr>)"
    by (rule control_steps) (use n(1) assms(3,4) in simp_all)
  from converse_rtranclp_into_rtranclp [OF m(1) this] n(2) show ?thesis
    by (intro exI [of _ n]) simp
qed

lemma reach_crossing:
  assumes "length (lock_id t) \<le> 254" and "length (lock_id u) \<le> 254"
    and "\<And>x. stop_works (c x) = []" and "\<And>x. conn_repr (c x) [] (\<lambda>_. []) []" and "\<And>x. state (c x) \<noteq> Closed"
  shows "\<exists>s. session_step\<^sup>*\<^sup>* (new_session c) s \<and>
    caller (ends s True) t = Lock_Waiting \<and> caller (ends s False) u = Lock_Waiting \<and>
    posted s True = [(lock_id t, ''1'')] \<and> posted s False = [(lock_id u, ''1'')]"
proof -
  obtain n where n: "session_step\<^sup>*\<^sup>* (new_session c) ((new_session c)\<lparr>posted := (posted (new_session c))(True := [(lock_id t, ''1'')]),
      ends := (ends (new_session c))(True := n)\<rparr>)" "caller n t = Lock_Waiting"
    using reach_stop [of "new_session c" True "c True" t] assms(1,3,4,5) by (auto simp: new_session_def)
  let ?s = "(new_session c)\<lparr>posted := (posted (new_session c))(True := [(lock_id t, ''1'')]),
      ends := (ends (new_session c))(True := n)\<rparr>"
  obtain k where k: "session_step\<^sup>*\<^sup>* ?s (?s\<lparr>posted := (posted ?s)(False := [(lock_id u, ''1'')]),
      ends := (ends ?s)(False := k)\<rparr>)" "caller k u = Lock_Waiting"
    using reach_stop [of ?s False "c False" u] assms(2-5) by (auto simp: new_session_def)
  from rtranclp_trans [OF n(1) k(1)] n(2) k(2) show ?thesis
    by (intro exI [of _ "?s\<lparr>posted := (posted ?s)(False := [(lock_id u, ''1'')]), ends := (ends ?s)(False := k)\<rparr>"])
      (auto simp: new_session_def)
qed

lemma new_connections_ok:
  "stop_works (new_connection f ev srv p) = []" "conn_repr (new_connection f ev srv p) [] (\<lambda>_. []) []"
  "state (new_connection f ev srv p) \<noteq> Closed"
  by (simp_all add: new_connection_repr) (simp_all add: new_connection_def)

lemma starts_single: "posted s x = [(lock_id u, d)] \<Longrightarrow> starts s x t = (if t = u then 1 else 0)"
  by (simp add: starts_def)

lemma crossing_conn0:
  obtains s where "session_step\<^sup>*\<^sup>* (new_session (\<lambda>_. new_connection 3 0 False ''peer'')) s"
    "caller (ends s True) ''t'' = Lock_Waiting" "starts s True ''t'' = 1" "starts s False ''t'' = 0"
    "caller (ends s False) ''u'' = Lock_Waiting" "starts s False ''u'' = 1" "starts s True ''u'' = 0"
proof -
  have "length (lock_id ''t'') \<le> 254" "length (lock_id ''u'') \<le> 254" by (simp_all add: lock_id_def)
  from reach_crossing [OF this, of "\<lambda>_. new_connection 3 0 False ''peer''", OF new_connections_ok] obtain s
    where "session_step\<^sup>*\<^sup>* (new_session (\<lambda>_. new_connection 3 0 False ''peer'')) s"
      "caller (ends s True) ''t'' = Lock_Waiting" "caller (ends s False) ''u'' = Lock_Waiting"
      and p: "posted s True = [(lock_id ''t'', ''1'')]" "posted s False = [(lock_id ''u'', ''1'')]" by blast
  with starts_single [OF p(1)] starts_single [OF p(2)] show thesis by (intro that [of s]) simp_all
qed

lemma same_stop_conn0:
  obtains s where "session_step\<^sup>*\<^sup>* (new_session (\<lambda>_. new_connection 3 0 False ''peer'')) s"
    "caller (ends s True) ''t'' = Lock_Waiting" "starts s True ''t'' = 1"
    "caller (ends s (\<not> True)) ''t'' = Lock_Waiting" "starts s True ''t'' = starts s (\<not> True) ''t''"
proof -
  have "length (lock_id ''t'') \<le> 254" by (simp add: lock_id_def)
  from reach_crossing [OF this this, of "\<lambda>_. new_connection 3 0 False ''peer''", OF new_connections_ok] obtain s
    where "session_step\<^sup>*\<^sup>* (new_session (\<lambda>_. new_connection 3 0 False ''peer'')) s"
      "caller (ends s True) ''t'' = Lock_Waiting" "caller (ends s False) ''t'' = Lock_Waiting"
      and p: "posted s True = [(lock_id ''t'', ''1'')]" "posted s False = [(lock_id ''t'', ''1'')]" by blast
  with starts_single [OF p(1)] starts_single [OF p(2)] show thesis by (intro that [of s]) simp_all
qed

section \<open>Properties\<close>

text \<open>C2: tasks share a connection without disturbing the data: in every state two nodes can reach, with any number of
  tasks starting and stopping at both ends and their threads taking over from one another in the middle of
  anything, what \<open>recv\<close> has returned at one end for an id is a prefix of what \<open>send\<close> was given for it at the other.\<close>

theorem tasks_share_the_stream:
  assumes "session_step\<^sup>*\<^sup>* (new_session (\<lambda>x. new_connection (f x) (ev x) (srv x) (p x))) s"
  shows "\<exists>rest. payloads (posted s x) i = taken s (\<not> x) i @ rest"
  by (rule session_prefix [OF session_reach(1) [OF assms new_connections_ok(1,2)]])

theorem tasks_share_the_stream_witness:
  "\<exists>(s :: session) rest. starts s True ''t'' = 1 \<and>
     payloads (posted s True) (lock_id ''t'') = taken s False (lock_id ''t'') @ rest"
proof (rule crossing_conn0)
  fix s
  assume s: "session_step\<^sup>*\<^sup>* (new_session (\<lambda>_. new_connection 3 0 False ''peer'')) s" "starts s True ''t'' = 1"
  from tasks_share_the_stream [OF s(1), of True "lock_id ''t''"] s(2) show ?thesis by auto
qed

text \<open>C10: the two ends of a task keep in step: a node has never started a task more often than its peer has, except
  for the one run whose stop still waits for the peer. So a stop gets past its wait only when
  the peer has started the task as often.\<close>

theorem tasks_keep_in_step:
  assumes "session_step\<^sup>*\<^sup>* (new_session (\<lambda>x. new_connection (f x) (ev x) (srv x) (p x))) s"
  shows "starts s x t \<le> starts s (\<not> x) t + (if begun (caller (ends s x) t) then 1 else 0)"
  by (rule starts_in_step [OF session_reach [OF assms new_connections_ok(1,2)]])

theorem tasks_keep_in_step_witness:
  "\<exists>s. starts s True ''t'' = 1 \<and>
     starts s True ''t'' \<le> starts s False ''t'' + (if begun (caller (ends s True) ''t'') then 1 else 0)"
proof (rule crossing_conn0)
  fix s
  assume s: "session_step\<^sup>*\<^sup>* (new_session (\<lambda>_. new_connection 3 0 False ''peer'')) s" "starts s True ''t'' = 1"
  from tasks_keep_in_step [OF s(1), of True "''t''"] s(2) show ?thesis by auto
qed

text \<open>C11: two nodes can block each other for ever: when each of them stops a task that the other has not started,
  both stops keep waiting and no task ever starts again on the connection, whatever the threads and the
  clients do.\<close>

theorem crossing_stops_deadlock:
  assumes "session_step\<^sup>*\<^sup>* (new_session (\<lambda>x. new_connection (f x) (ev x) (srv x) (p x))) s"
    and "caller (ends s x) t = Lock_Waiting" and "starts s (\<not> x) t < starts s x t"
    and "caller (ends s (\<not> x)) u = Lock_Waiting" and "starts s x u < starts s (\<not> x) u"
    and "session_step\<^sup>*\<^sup>* s s'"
  shows "caller (ends s' x) t = Lock_Waiting \<and> caller (ends s' (\<not> x)) u = Lock_Waiting \<and> starts s' = starts s"
proof -
  note inv = session_reach [OF assms(1) new_connections_ok(1,2)]
  have "stuck s x t" "stuck s (\<not> x) u"
    using assms(2-5) inv(2) taken_locks_le [OF inv, of "\<not> x" t] taken_locks_le [OF inv, of x u]
    by (simp_all add: stuck_def locks_ok_def begun_def)
  from stuck_steps [OF assms(6) inv this] show ?thesis by (simp add: stuck_def)
qed

theorem crossing_stops_deadlock_witness:
  "\<exists>s. session_step\<^sup>*\<^sup>* (new_session (\<lambda>_. new_connection 3 0 False ''peer'')) s \<and>
     (\<forall>s'. session_step\<^sup>*\<^sup>* s s' \<longrightarrow> caller (ends s' True) ''t'' = Lock_Waiting \<and> starts s' False ''t'' = 0)"
proof (rule crossing_conn0)
  fix s
  assume s: "session_step\<^sup>*\<^sup>* (new_session (\<lambda>_. new_connection 3 0 False ''peer'')) s"
    "caller (ends s True) ''t'' = Lock_Waiting" "starts s True ''t'' = 1" "starts s False ''t'' = 0"
    "caller (ends s False) ''u'' = Lock_Waiting" "starts s False ''u'' = 1" "starts s True ''u'' = 0"
  have lt: "starts s (\<not> True) ''t'' < starts s True ''t''" "starts s True ''u'' < starts s (\<not> True) ''u''"
    "caller (ends s (\<not> True)) ''u'' = Lock_Waiting" using s(3-7) by simp_all
  have "caller (ends s' True) ''t'' = Lock_Waiting \<and> starts s' False ''t'' = 0"
    if "session_step\<^sup>*\<^sup>* s s'" for s'
    using crossing_stops_deadlock [OF s(1,2) lt(1,3,2) that] s(4) by (simp only: simp_thms)
  with s(1) show ?thesis by blast
qed

end
