(* ===== verification/Session_Progress.thy ===== *)
theory Session_Progress
  imports Session_Tasks
begin

text \<open>
  How the threads of the two nodes of a \<open>Session\<close> go on: those of a task that is started at both ends bring every message to
  the buffer of its id, so that stops return and the client gets what was sent. The runs are stated for any relation
  \<open>R\<close> that contains the steps of the threads (\<open>going\<close>); who makes the bytes arrive is a premise, which
  \<open>Network\<close> discharges with its epoll threads. The last section is about what a close throws away.
\<close>

section \<open>Closed ends\<close>

definition unsent :: "session \<Rightarrow> bool \<Rightarrow> nat" where
  "unsent s x = unat (cb_size (send_buffer (conn (ends s x))))"

definition backlog :: "session \<Rightarrow> bool \<Rightarrow> nat" where
  "backlog s x = unat (cb_size (buffer (conn (ends s x))))"

lemma sizes_repr:
  assumes "session_at s rq ms sq fl h x"
  shows "unsent s x = length (sq x)" and "backlog s x = length (rq x)"
  using session_atD(2) [OF assms] cb.count_ok by (auto simp: conn_repr_def unsent_def backlog_def)

text \<open>A closed end has nothing left to send and no task.\<close>

definition closed_ok :: "session \<Rightarrow> bool" where
  "closed_ok s \<longleftrightarrow> (\<forall>x. state (conn (ends s x)) = Closed \<longrightarrow>
     unsent s x = 0 \<and> in_flight s x = Map.empty \<and> (\<forall>t. caller (ends s x) t = Idle))"

lemma closed_okD:
  assumes "closed_ok s" and "state (conn (ends s x)) = Closed"
  shows "unsent s x = 0" "in_flight s x = Map.empty" "caller (ends s x) t = Idle"
  using assms by (simp_all add: closed_ok_def)

lemma data_ops_keep_state:
  "conn_recv tmpstate elapsed c i len timeout = Inr (ret, d, c') \<Longrightarrow> state c' = state c \<and> send_buffer c' = send_buffer c"
  "conn_write c d = Inr c' \<Longrightarrow> state c' = state c \<and> send_buffer c' = send_buffer c"
  "unpack_message t c = Inr (Stepped (i, d, c')) \<Longrightarrow> state c' = state c \<and> send_buffer c' = send_buffer c"
  "store_message c i d = Inr c' \<Longrightarrow> state c' = state c \<and> send_buffer c' = send_buffer c"
  "send_step t c = Inr (Stepped (d, c')) \<Longrightarrow> state c' = state c"
  "send_msg c i d = Inr (n, c') \<Longrightarrow> state c' = state c"
  "start_lock t c = Inr c' \<Longrightarrow> state c' = state c"
  by (auto simp: conn_recv_def conn_write_def unpack_message_def store_message_def send_step_def send_msg_def
      put_into_send_buffer_def start_lock_def bindE_eq_Inr Let_def split: if_splits option.splits)

text \<open>A step of node \<open>x\<close> that leaves the state, the send buffer and the callers of an open or closed end alone.\<close>

lemma closed_ok_node:
  assumes "closed_ok s" and "ends s' (\<not> x) = ends s (\<not> x)" and "in_flight s' (\<not> x) = in_flight s (\<not> x)"
    and "state (conn (ends s' x)) = Closed \<Longrightarrow>
      unsent s' x = 0 \<and> in_flight s' x = Map.empty \<and> (\<forall>t. caller (ends s' x) t = Idle)"
  shows "closed_ok s'"
  unfolding closed_ok_def
proof (intro allI impI)
  fix z
  assume z: "state (conn (ends s' z)) = Closed"
  show "unsent s' z = 0 \<and> in_flight s' z = Map.empty \<and> (\<forall>t. caller (ends s' z) t = Idle)"
  proof (cases "z = x")
    case False
    then have "z = (\<not> x)" by auto
    with z assms(2,3) closed_okD [OF assms(1), of z] show ?thesis by (simp add: unsent_def)
  qed (use z assms(4) in simp)
qed

lemma idle_absent: "session_inv s \<Longrightarrow> caller (ends s x) t = Idle \<Longrightarrow> worker (ends s x) t = Absent"
  using sched_invD(2) [of "ends s x" t] unfolding session_inv_def session_at_def task_ok_def by fastforce

lemma closed_ok_step:
  assumes "session_step s s'" and "session_inv s" and "closed_ok s"
  shows "closed_ok s'"
  using assms(1)
proof cases
  case (Control x n)
  then show ?thesis
    by (intro closed_ok_node [OF assms(3), of _ x])
      (use closed_okD [OF assms(3), of x] in \<open>auto simp: control_step_def unsent_def\<close>)
next
  case (Task_Start x t c)
  then show ?thesis
    by (intro closed_ok_node [OF assms(3), of _ x]) (use data_ops_keep_state(7) [OF Task_Start(6)] in simp_all)
next
  case (Task_Stop x t n data c)
  then show ?thesis
    by (intro closed_ok_node [OF assms(3), of _ x])
      (use closed_okD [OF assms(3), of x] data_ops_keep_state(1) [OF Task_Stop(3)] in \<open>auto simp: unsent_def\<close>)
next
  case (Post i d x n c)
  then show ?thesis
    by (intro closed_ok_node [OF assms(3), of _ x]) (use data_ops_keep_state(6) [OF Post(5)] in simp_all)
next
  case (Fetch i ts el x len timeout n data c)
  then show ?thesis
    by (intro closed_ok_node [OF assms(3), of _ x])
      (use closed_okD [OF assms(3), of x] data_ops_keep_state(1) [OF Fetch(3)] in \<open>auto simp: unsent_def\<close>)
next
  case (Take x t data c)
  have "state (conn (ends s x)) \<noteq> Closed"
    using idle_absent [OF assms(2)] closed_okD(3) [OF assms(3)] Take(2) by (fastforce simp: sends_def)
  with Take show ?thesis
    by (intro closed_ok_node [OF assms(3), of _ x]) (use data_ops_keep_state(5) [OF Take(4)] in simp_all)
next
  case (Put x t data out rest)
  then show ?thesis
    by (intro closed_ok_node [OF assms(3), of _ x])
      (use closed_okD [OF assms(3), of x] in \<open>auto simp: unsent_def\<close>)
next
  case (Arrive x data rest c)
  then show ?thesis
    by (intro closed_ok_node [OF assms(3), of _ x])
      (use closed_okD [OF assms(3), of x] data_ops_keep_state(2) [OF Arrive(3)] in \<open>auto simp: unsent_def\<close>)
next
  case (Unpack x t i d c)
  then show ?thesis
    by (intro closed_ok_node [OF assms(3), of _ x])
      (use closed_okD [OF assms(3), of x] data_ops_keep_state(3) [OF Unpack(4)] in \<open>auto simp: unsent_def\<close>)
next
  case (Store x t i d c)
  then show ?thesis
    by (intro closed_ok_node [OF assms(3), of _ x])
      (use closed_okD [OF assms(3), of x] data_ops_keep_state(4) [OF Store(3)] in \<open>auto simp: unsent_def\<close>)
next
  case (Close x data c out rest k)
  obtain rq ms sq fl h where at: "\<And>x. session_at s rq ms sq fl h x"
    using assms(2) unfolding session_inv_def by blast
  note a = session_atD [OF at [of x]]
  have c: "conn_repr c (rq x) (ms x) []" using close_connection_ok [OF a(2) Close(3)] by simp
  have "in_flight s x = Map.empty"
    using a(3) idle_absent [OF assms(2) Close(2)] by (auto simp: sole_def sends_def)
  moreover have "unat (cb_size (send_buffer c)) = 0"
    using c cb.count_ok [of "send_buffer c" "[]"] by (simp add: conn_repr_def)
  ultimately show ?thesis
    by (intro closed_ok_node [OF assms(3), of _ x]) (use Close(1,2) in \<open>simp_all add: unsent_def\<close>)
next
  case (Reset x k)
  then show ?thesis
    by (intro closed_ok_node [OF assms(3), of _ x]) (use closed_okD [OF assms(3), of x] in \<open>auto simp: unsent_def\<close>)
qed

lemma closed_ok_reach:
  assumes "session_step\<^sup>*\<^sup>* (new_session c) s" and "\<And>x. state (c x) \<noteq> Closed"
    and "\<And>x. stop_works (c x) = []" and "\<And>x. conn_repr (c x) [] (\<lambda>_. []) []"
  shows "closed_ok s"
  using assms(1)
proof (induction rule: rtranclp_induct)
  case base
  show ?case using assms(2) by (simp add: closed_ok_def new_session_def new_sched_def)
next
  case (step s s')
  then show ?case using closed_ok_step session_reach(1) assms(3,4) by blast
qed

definition session_ok :: "session \<Rightarrow> bool" where
  "session_ok s \<longleftrightarrow> session_inv s \<and> closed_ok s"

lemma session_okD: "session_ok s \<Longrightarrow> session_inv s" "session_ok s \<Longrightarrow> closed_ok s"
  by (simp_all add: session_ok_def)

lemma session_ok_step: "session_step s s' \<Longrightarrow> session_ok s \<Longrightarrow> session_ok s'"
  using session_inv_step closed_ok_step by (auto simp: session_ok_def)

section \<open>Runs that only need the threads\<close>

text \<open>A step of a run in which no task starts and no stop begins; bytes arrive only at the ends \<open>x\<close> with \<open>R x\<close>, those that have
  an epoll thread.\<close>

definition going :: "(bool \<Rightarrow> bool) \<Rightarrow> session \<Rightarrow> session \<Rightarrow> bool" where
  "going R s s' \<longleftrightarrow> session_step s s' \<and>
     (\<forall>x. R x \<or> length (written s (\<not> x)) \<le> length (written s' (\<not> x))) \<and>
     (\<forall>x t. (caller (ends s x) t = Idle \<longrightarrow> caller (ends s' x) t = Idle) \<and>
       (caller (ends s' x) t = Lock_Waiting \<longrightarrow> caller (ends s x) t = Lock_Waiting))"

text \<open>The steps of the threads alone, on connections that hold.\<close>

definition resting :: "(bool \<Rightarrow> bool) \<Rightarrow> session \<Rightarrow> session \<Rightarrow> bool" where
  "resting R s s' \<longleftrightarrow> going R s s' \<and> posted s' = posted s \<and> taken s' = taken s \<and>
     (\<forall>y. caller (ends s' y) = caller (ends s y)) \<and> (\<forall>y. lost s y = [] \<longrightarrow> lost s' y = [])"

abbreviation calm :: "(bool \<Rightarrow> bool) \<Rightarrow> session \<Rightarrow> session \<Rightarrow> bool" where
  "calm R \<equiv> (resting R)\<^sup>*\<^sup>*"

definition untouched :: "bool \<Rightarrow> session \<Rightarrow> session \<Rightarrow> bool" where
  "untouched y s s' \<longleftrightarrow> ends s' y = ends s y \<and> in_flight s' y = in_flight s y \<and> in_hand s' y = in_hand s y"

lemma untouched_refl [simp]: "untouched y s s"
  by (simp add: untouched_def)

lemma untouched_trans: "untouched y s s' \<Longrightarrow> untouched y s' s'' \<Longrightarrow> untouched y s s''"
  by (simp add: untouched_def)

lemma calm_step: "session_step s s' \<Longrightarrow> posted s' = posted s \<Longrightarrow> taken s' = taken s \<Longrightarrow>
    (\<And>y. caller (ends s' y) = caller (ends s y)) \<Longrightarrow> (\<And>y. lost s y = [] \<Longrightarrow> lost s' y = []) \<Longrightarrow>
    (\<And>x. R x \<or> length (written s (\<not> x)) \<le> length (written s' (\<not> x))) \<Longrightarrow> calm R s s'"
  by (rule r_into_rtranclp) (simp add: resting_def going_def)

lemma calmD:
  assumes "calm R s s'"
  shows "posted s' = posted s" "taken s' = taken s" "caller (ends s' y) = caller (ends s y)"
    "lost s y = [] \<Longrightarrow> lost s' y = []"
proof -
  have "posted s' = posted s \<and> taken s' = taken s \<and> caller (ends s' y) = caller (ends s y) \<and> (lost s y = [] \<longrightarrow> lost s' y = [])"
    using assms by (induction rule: rtranclp_induct) (simp_all add: resting_def)
  then show "posted s' = posted s" "taken s' = taken s" "caller (ends s' y) = caller (ends s y)"
    "lost s y = [] \<Longrightarrow> lost s' y = []" by simp_all
qed

lemma calm_going: "calm R s s' \<Longrightarrow> (going R)\<^sup>*\<^sup>* s s'"
  by (rule mono_rtranclp [rule_format]) (simp_all add: resting_def)

lemma going_ok:
  assumes "(going R)\<^sup>*\<^sup>* s s'" and "session_ok s"
  shows "session_ok s'"
  using assms by (induction rule: rtranclp_induct) (auto simp: going_def intro: session_ok_step)

lemma calm_ok: "calm R s s' \<Longrightarrow> session_ok s \<Longrightarrow> session_ok s'"
  by (rule going_ok [OF calm_going])

section \<open>A stop gets its lock message\<close>

text \<open>A task of node \<open>x\<close> whose threads are both at the beginning of a round.\<close>

definition working :: "session \<Rightarrow> bool \<Rightarrow> bytes \<Rightarrow> bool" where
  "working s x v \<longleftrightarrow> worker (ends s x) v = Running True True \<and> \<not> stop_requested (conn (ends s x)) v \<and>
     in_flight s x = Map.empty \<and> in_hand s x = Map.empty"

lemma working_untouched: "untouched x s s' \<Longrightarrow> working s' x v = working s x v"
  by (simp add: untouched_def working_def)

lemma store_succeeds:
  assumes "session_inv s" and "in_hand s x t = Some (i, d)"
  shows "\<exists>mb. store_message (conn (ends s x)) i d = Inr ((conn (ends s x))\<lparr>mapbuffer := mb\<rparr>) \<and>
    (in_hand s x)(t := None) = Map.empty"
proof -
  obtain rq ms sq fl h where at: "\<And>x. session_at s rq ms sq fl h x" using assms(1) unfolding session_inv_def by blast
  note a = session_atD [OF at [of x]]
  have one: "h x = [(i, d)]" "(in_hand s x)(t := None) = Map.empty" using sole_at [OF a(4) assms(2)] by simp_all
  have st: "streams (mapbuffer (conn (ends s x))) (ms x)" using a(2) by (simp add: conn_repr_def)
  from store_message_ok [OF st flow_limits(3) [OF flow_in [OF at, of x] one(1)]] one(2) show ?thesis by blast
qed

lemma put_round:
  assumes "session_inv s"
  shows "\<exists>s'. calm R s s' \<and> untouched (\<not> x) s s' \<and> in_flight s' x = Map.empty \<and> in_hand s' x = in_hand s x \<and>
    ends s' = ends s"
proof (cases "in_flight s x = Map.empty")
  case False
  then obtain t data where t: "in_flight s x t = Some data" by (metis not_None_eq ext)
  obtain rq ms sq fl h where at: "\<And>x. session_at s rq ms sq fl h x" using assms unfolding session_inv_def by blast
  have one: "(in_flight s x)(t := None) = Map.empty" using sole_at [OF session_atD(3) [OF at [of x]] t] by simp
  let ?s = "transmit x data [] (s\<lparr>in_flight := (in_flight s)(x := Map.empty)\<rparr>)"
  have st: "session_step s ?s" using Put [OF t write_whole] one by simp
  have grows: "length (written s y) \<le> length (written ?s y)" for y by (cases "y = x") (simp_all add: transmit_def)
  have "lost ?s y = []" if "lost s y = []" for y using that by (cases x; cases y) (simp_all add: transmit_def)
  then have "calm R s ?s" using grows by (intro calm_step [OF st]) simp_all
  moreover have "untouched (\<not> x) s ?s" "in_flight ?s x = Map.empty" "in_hand ?s x = in_hand s x" "ends ?s = ends s"
    by (simp_all add: untouched_def)
  ultimately show ?thesis by blast
qed (auto intro: exI [of _ s])

lemma store_round:
  assumes "session_inv s"
  shows "\<exists>s'. calm R s s' \<and> untouched (\<not> x) s s' \<and> in_flight s' x = in_flight s x \<and> in_hand s' x = Map.empty"
proof (cases "in_hand s x = Map.empty")
  case False
  then obtain t i d where t: "in_hand s x t = Some (i, d)" by (metis not_None_eq ext surj_pair)
  obtain mb where mb: "store_message (conn (ends s x)) i d = Inr ((conn (ends s x))\<lparr>mapbuffer := mb\<rparr>)"
    "(in_hand s x)(t := None) = Map.empty"
    using store_succeeds [OF assms t] by blast
  let ?s = "(with_conn x ((conn (ends s x))\<lparr>mapbuffer := mb\<rparr>) s)\<lparr>in_hand := (in_hand s)(x := Map.empty)\<rparr>"
  have "session_step s ?s" using Store [OF t mb(1)] mb(2) by simp
  then have "calm R s ?s" by (rule calm_step) simp_all
  moreover have "untouched (\<not> x) s ?s" "in_flight ?s x = in_flight s x" "in_hand ?s x = Map.empty"
    by (simp_all add: untouched_def)
  ultimately show ?thesis by blast
qed (auto intro: exI [of _ s])

lemma end_rounds:
  assumes "session_inv s"
  shows "\<exists>s'. calm R s s' \<and> untouched (\<not> x) s s' \<and> in_flight s' x = Map.empty \<and> in_hand s' x = Map.empty"
proof -
  obtain s1 where s1: "calm R s s1" "untouched (\<not> x) s s1" "in_flight s1 x = Map.empty" "in_hand s1 x = in_hand s x"
    "ends s1 = ends s"
    using put_round [OF assms] by blast
  have "session_inv s1" using s1(1) assms
    by (induction rule: rtranclp_induct) (auto simp: resting_def going_def intro: session_inv_step)
  from store_round [OF this] obtain s2 where
    s2: "calm R s1 s2" "untouched (\<not> x) s1 s2" "in_flight s2 x = in_flight s1 x" "in_hand s2 x = Map.empty"
    by blast
  have "calm R s s2" using s1(1) s2(1) by (rule rtranclp_trans)
  moreover have "untouched (\<not> x) s s2" using s1(2) s2(2) by (rule untouched_trans)
  ultimately show ?thesis using s1(3) s2(3,4) by auto
qed

text \<open>A step of a thread, as far as the scheduling is concerned, and a run of them.\<close>

definition thread_step :: "sched \<Rightarrow> sched \<Rightarrow> bool" where
  "thread_step m n \<longleftrightarrow> control_step m n \<and> caller n = caller m"

lemma control_end:
  assumes "worker m u = Running a b" and "stop_requested (conn m) u"
  shows "\<exists>n. thread_step\<^sup>*\<^sup>* m n \<and> work_count n = work_count m - 1 \<and> caller n = caller m \<and> conn n = conn m \<and>
    worker n u = Exited \<and> (\<forall>w. w \<noteq> u \<longrightarrow> worker n w = worker m w)"
proof -
  let ?m1 = "set_worker u (Running False b) m" and ?m2 = "set_worker u (Running False False) m"
  have "thread_step\<^sup>*\<^sup>* m ?m1"
  proof (cases a)
    case True
    then have "sched_step m ?m1" using assms by (intro Recv_End stopped_steps) simp_all
    then show ?thesis by (intro r_into_rtranclp) (simp add: thread_step_def control_step_def)
  next
    case False
    then have "?m1 = m" using assms(1) by (simp add: fun_upd_idem)
    then show ?thesis by simp
  qed
  moreover have "thread_step\<^sup>*\<^sup>* ?m1 ?m2"
  proof (cases b)
    case True
    then have "sched_step ?m1 (set_worker u (Running False False) ?m1)"
      using assms by (intro Send_End stopped_steps) simp_all
    then show ?thesis by (intro r_into_rtranclp) (simp add: thread_step_def control_step_def)
  qed simp
  moreover have "thread_step ?m2 (do_start_end u ?m2)"
    using sched_step.Work_End [of ?m2 u] by (simp add: thread_step_def control_step_def do_start_end_def)
  ultimately have "thread_step\<^sup>*\<^sup>* m (do_start_end u ?m2)"
    by (meson rtranclp.rtrancl_into_rtrancl rtranclp_trans)
  then show ?thesis by (intro exI [of _ "do_start_end u ?m2"]) (simp add: do_start_end_def)
qed

lemma control_work:
  assumes "worker m t = Queued" and "work_count m = 0"
  shows "thread_step m (do_start_work t m)"
  using Work [OF assms(1)] assms(2) by (simp add: thread_step_def control_step_def work_wait_def) (simp add: do_start_work_def)

text \<open>Where a task is started some task gets to work, after a stopped one has ended.\<close>

lemma control_to_work:
  assumes "sched_inv m" and "caller m t \<in> {Started, Lock_Waiting, Stopping}"
  shows "\<exists>n v. thread_step\<^sup>*\<^sup>* m n \<and> caller n = caller m \<and> worker n v = Running True True \<and>
    \<not> stop_requested (conn n) v"
proof -
  have t: "worker m t = Queued \<or> worker m t = Running True True" "\<not> stop_requested (conn m) t"
    using sched_invD(2) [OF assms(1), of t] assms(2) by (auto simp: task_ok_def stop_requested_def)
  show ?thesis
  proof (cases "work_count m = 0 \<or> worker m t = Running True True")
    case True
    then show ?thesis
    proof
      assume z: "work_count m = 0"
      then have "worker m t = Queued" using t(1) sched_invD(3) [OF assms(1), of t] by auto
      from control_work [OF this z] t(2) show ?thesis
        by (intro exI [of _ "do_start_work t m"] exI [of _ t]) (auto simp: do_start_work_def)
    qed (use t(2) in blast)
  next
    case False
    then obtain u where u: "running (worker m u)" "work_count m = 1" and q: "worker m t = Queued"
      using sched_invD(4) [OF assms(1)] t(1) by auto
    then obtain a b where ab: "worker m u = Running a b" by (cases "worker m u") auto
    show ?thesis
    proof (cases "stop_requested (conn m) u")
      case False
      then have "worker m u = Running True True"
        using sched_invD(2) [OF assms(1), of u] ab by (auto simp: task_ok_def stop_requested_def split: caller.splits)
      with False show ?thesis by blast
    next
      case True
      obtain n where n: "thread_step\<^sup>*\<^sup>* m n" "work_count n = 0" "caller n = caller m" "conn n = conn m"
        "\<forall>w. w \<noteq> u \<longrightarrow> worker n w = worker m w"
        using control_end [OF ab True] u(2) by auto
      have "t \<noteq> u" using q ab by auto
      then have "thread_step n (do_start_work t n)" using n(2,5) q by (intro control_work) simp_all
      with n t(2) show ?thesis
        by (intro exI [of _ "do_start_work t n"] exI [of _ t])
          (auto simp: do_start_work_def intro: rtranclp.rtrancl_into_rtrancl)
    qed
  qed
qed

lemma thread_steps:
  assumes "thread_step\<^sup>*\<^sup>* (ends s x) n" and "in_flight s x = Map.empty" and "in_hand s x = Map.empty"
  shows "calm R s (s\<lparr>ends := (ends s)(x := n)\<rparr>)"
  using assms(1)
proof (induction rule: rtranclp_induct)
  case (step m n)
  let ?s = "\<lambda>m. s\<lparr>ends := (ends s)(x := m)\<rparr>"
  have mn: "control_step (ends (?s m) x) n" "mid_round_ok (?s m) x n" "caller n = caller m"
    using step(2) assms(2,3) by (simp_all add: mid_round_ok_def thread_step_def)
  have "session_step (?s m) (?s n)" using Control [OF mn(1,2)] by simp
  then have "calm R (?s m) (?s n)" by (rule calm_step) (use mn(3) in simp_all)
  with step(3) show ?case by (rule rtranclp_trans)
qed simp

abbreviation busy :: "caller set" where
  "busy \<equiv> {Started, Lock_Waiting, Stopping}"

lemma get_working:
  assumes "session_inv s" and "caller (ends s x) t \<in> busy"
  shows "\<exists>s' v. calm R s s' \<and> untouched (\<not> x) s s' \<and> working s' x v"
proof -
  obtain s1 where s1: "calm R s s1" "untouched (\<not> x) s s1" "in_flight s1 x = Map.empty" "in_hand s1 x = Map.empty"
    using end_rounds [OF assms(1)] by blast
  have "session_inv s1" using s1(1) assms(1)
    by (induction rule: rtranclp_induct) (auto simp: resting_def going_def intro: session_inv_step)
  then obtain rq ms sq fl h where at: "\<And>x. session_at s1 rq ms sq fl h x" unfolding session_inv_def by blast
  have "caller (ends s1 x) t \<in> busy" using calmD(3) [OF s1(1)] assms(2) by simp
  from control_to_work [OF session_atD(1) [OF at [of x]] this] obtain n v
    where n: "thread_step\<^sup>*\<^sup>* (ends s1 x) n" "worker n v = Running True True" "\<not> stop_requested (conn n) v" by blast
  let ?s2 = "s1\<lparr>ends := (ends s1)(x := n)\<rparr>"
  have "calm R s ?s2" using s1(1) thread_steps [OF n(1) s1(3,4)] by (rule rtranclp_trans)
  moreover have "untouched (\<not> x) s ?s2" using s1(2) by (simp add: untouched_def)
  moreover have "working ?s2 x v" using n(2,3) s1(3,4) by (simp add: working_def)
  ultimately show ?thesis by blast
qed

text \<open>A working task empties the send buffer onto the stream.\<close>

lemma flush_all:
  assumes "session_inv s" and "working s x v"
  shows "\<exists>s'. calm R s s' \<and> untouched (\<not> x) s s' \<and> working s' x v \<and> unsent s' x = 0"
proof (cases "unsent s x = 0")
  case False
  obtain rq ms sq fl h where at: "\<And>x. session_at s rq ms sq fl h x"
    using assms(1) unfolding session_inv_def by blast
  note w = assms(2) [unfolded working_def]
  have ne: "sq x \<noteq> []" using False sizes_repr(1) [OF at [of x]] by auto
  have nr: "\<not> stop_requested (conn (ends s x)) v" using w by simp
  obtain c where c: "send_step v (conn (ends s x)) = Inr (Stepped (sq x, c))" "conn_repr c (rq x) (ms x) []"
    "stop_works c = stop_works (conn (ends s x))"
    using send_step_ok [OF session_atD(2) [OF at [of x]] nr] ne by blast
  let ?s1 = "(with_conn x c s)\<lparr>in_flight := (in_flight s)(x := (in_flight s x)(v \<mapsto> sq x))\<rparr>"
  have st: "session_step s ?s1"
    by (rule Take) (use w c(1) in \<open>simp_all add: sends_def\<close>)
  then have c1: "calm R s ?s1" by (rule calm_step) simp_all
  have un: "unat (cb_size (send_buffer c)) = 0" using c(2) cb.count_ok [of "send_buffer c" "[]"] by (simp add: conn_repr_def)
  obtain s2 where s2: "calm R ?s1 s2" "untouched (\<not> x) ?s1 s2" "in_flight s2 x = Map.empty" "in_hand s2 x = in_hand ?s1 x"
    "ends s2 = ends ?s1"
    using put_round [OF session_inv_step [OF st assms(1)]] by blast
  have "working s2 x v" using s2(3-5) w c(3) by (simp add: working_def stop_requested_def)
  moreover have "unsent s2 x = 0" using s2(5) un by (simp add: unsent_def)
  moreover have "untouched (\<not> x) s s2" using s2(2) by (simp add: untouched_def)
  ultimately show ?thesis using rtranclp_trans [OF c1 s2(1)] by blast
qed (use assms(2) in \<open>auto intro: exI [of _ s]\<close>)

text \<open>The whole stream can arrive.\<close>

lemma arrive_rest:
  assumes "session_inv s" and "state (conn (ends s x)) \<noteq> Closed"
  shows "\<exists>c. session_step s ((with_conn x c s)\<lparr>stream := (stream s)(\<not> x := [])\<rparr>) \<and>
    stop_works c = stop_works (conn (ends s x)) \<and> state c = state (conn (ends s x))"
proof -
  obtain rq ms sq fl h where at: "\<And>x. session_at s rq ms sq fl h x"
    using assms(1) unfolding session_inv_def by blast
  have "length (rq x) + length (stream s (\<not> x)) \<le> cb_limit"
    using flow_limits(1,2) [OF flow_in [OF at, of x]] by simp
  from conn_write_ok [OF session_atD(2) [OF at [of x]] this] obtain c where
    c: "conn_write (conn (ends s x)) (stream s (\<not> x)) = Inr c" "stop_works c = stop_works (conn (ends s x))" by blast
  have "session_step s ((with_conn x c s)\<lparr>stream := (stream s)(\<not> x := [])\<rparr>)"
    by (rule Arrive [OF _ c(1) assms(2)]) simp
  with c(2) data_ops_keep_state(2) [OF c(1)] show ?thesis by blast
qed

lemma working_open: "session_ok s \<Longrightarrow> working s x v \<Longrightarrow> state (conn (ends s x)) \<noteq> Closed"
  using idle_absent [of s x v] closed_okD(3) [of s x v] by (auto simp: session_ok_def working_def)

lemma arrive_all:
  assumes "session_ok s" and "working s x v" and "R x"
  shows "\<exists>s'. calm R s s' \<and> untouched (\<not> x) s s' \<and> working s' x v \<and> stream s' (\<not> x) = [] \<and> lost s' = lost s"
proof -
  obtain c where c: "session_step s ((with_conn x c s)\<lparr>stream := (stream s)(\<not> x := [])\<rparr>)"
    "stop_works c = stop_works (conn (ends s x))"
    using arrive_rest [OF session_okD(1) [OF assms(1)] working_open [OF assms(1,2)]] by blast
  let ?s = "(with_conn x c s)\<lparr>stream := (stream s)(\<not> x := [])\<rparr>"
  have "R y \<or> length (written s (\<not> y)) \<le> length (written ?s (\<not> y))" for y
    using assms(3) by (cases "y = x") auto
  then have "calm R s ?s" by (intro calm_step [OF c(1)]) simp_all
  moreover have "untouched (\<not> x) s ?s" "working ?s x v" "stream ?s (\<not> x) = []" "lost ?s = lost s"
    using assms(2) c(2) by (simp_all add: untouched_def working_def stop_requested_def)
  ultimately show ?thesis by blast
qed

text \<open>When everything has arrived a working task takes one message after the other out of the receive buffer.\<close>

lemma pack_not_Nil [simp]: "pack i d \<noteq> []"
  by (simp add: pack_def Let_def)

definition all_arrived :: "session \<Rightarrow> bool \<Rightarrow> bool" where
  "all_arrived s x \<longleftrightarrow> written s (\<not> x) = [] \<and> unsent s (\<not> x) = 0 \<and> in_flight s (\<not> x) = Map.empty"

text \<open>Then nothing more comes while nothing is sent.\<close>

lemma all_arrived_step:
  assumes "session_step s s'" and "session_inv s" and "posted s' = posted s" and "all_arrived s x"
  shows "all_arrived s' x"
proof -
  obtain rq ms sq fl h where at: "\<And>x. session_at s rq ms sq fl h x"
    using assms(2) unfolding session_inv_def by blast
  have a: "stream s (\<not> x) = []" "lost s (\<not> x) = []" "unsent s (\<not> x) = 0" "in_flight s (\<not> x) = Map.empty"
    using assms(4) by (simp_all add: all_arrived_def)
  from assms(1) show ?thesis
  proof cases
    case (Control y n)
    then show ?thesis using a by (auto simp: all_arrived_def unsent_def control_step_def)
  next
    case (Task_Start y t c)
    then show ?thesis using fun_cong [OF assms(3), of y] by simp
  next
    case (Task_Stop y t n data c)
    then show ?thesis using a data_ops_keep_state(1) [OF Task_Stop(3)] by (auto simp: all_arrived_def unsent_def)
  next
    case (Post i d y n c)
    then show ?thesis using fun_cong [OF assms(3), of y] by simp
  next
    case (Fetch i ts el y len timeout n data c)
    then show ?thesis using a data_ops_keep_state(1) [OF Fetch(3)] by (auto simp: all_arrived_def unsent_def)
  next
    case (Take y t data c)
    have "y \<noteq> (\<not> x)"
      by (rule notI) (use Take(4) a(3) in \<open>auto simp: send_step_def unsent_def word_less_nat_alt split: if_splits\<close>)
    then show ?thesis using Take(1) a by (auto simp: all_arrived_def unsent_def)
  next
    case (Put y t data out rest)
    have "y \<noteq> (\<not> x)" by (rule notI) (use Put(2) a(4) in simp)
    then show ?thesis using Put(1) a by (auto simp: all_arrived_def unsent_def)
  next
    case (Arrive y data rest c)
    then show ?thesis using a data_ops_keep_state(2) [OF Arrive(3)] by (cases "y = x") (auto simp: all_arrived_def unsent_def)
  next
    case (Unpack y t i d c)
    then show ?thesis using a data_ops_keep_state(3) [OF Unpack(4)] by (auto simp: all_arrived_def unsent_def)
  next
    case (Store y t i d c)
    then show ?thesis using a data_ops_keep_state(4) [OF Store(3)] by (auto simp: all_arrived_def unsent_def)
  next
    case (Close y data c out rest k)
    note c = close_connection_ok [OF session_atD(2) [OF at [of y]] Close(3)]
    show ?thesis
    proof (cases "y = (\<not> x)")
      case True
      then have "data = []" using c sizes_repr(1) [OF at [of y]] a(3) by simp
      then have "out = []" "rest = []" using write_result_split [OF Close(4)] by simp_all
      moreover have "unat (cb_size (send_buffer c)) = 0"
        using c cb.count_ok [of "send_buffer c" "[]"] by (simp add: conn_repr_def)
      ultimately show ?thesis using Close(1) True a by (simp add: all_arrived_def unsent_def transmit_def discard_def)
    next
      case False
      then show ?thesis using Close(1) a by (auto simp: all_arrived_def unsent_def)
    qed
  next
    case (Reset y k)
    then show ?thesis using a by (cases "y = (\<not> x)") (auto simp: all_arrived_def unsent_def discard_def)
  qed
qed

lemma all_arrived_calm:
  assumes "calm R s s'" and "session_ok s" and "all_arrived s x"
  shows "all_arrived s' x"
  using assms(1)
proof (induction rule: rtranclp_induct)
  case (step s1 s2)
  have "session_step s1 s2" "posted s2 = posted s1" using step(2) by (simp_all add: resting_def going_def)
  with all_arrived_step [of s1 s2 x] session_okD(1) [OF calm_ok [OF step(1) assms(2)]] step(3) show ?case by blast
qed (use assms(3) in simp)

lemma all_arrived_flow:
  assumes "\<And>z. session_at s rq ms sq fl h z" and "all_arrived s x"
  shows "flow (posted s (\<not> x)) (rq x) [] [] [] (h x) (ms x) (taken s x)"
proof -
  have "sq (\<not> x) = []" using sizes_repr(1) [OF assms(1) [of "\<not> x"]] assms(2) by (simp add: all_arrived_def)
  moreover have "fl (\<not> x) = []"
    using sole_none [OF session_atD(3) [OF assms(1) [of "\<not> x"]]] assms(2) by (simp add: all_arrived_def)
  ultimately show ?thesis using flow_in [OF assms(1), of x] assms(2) by (simp add: all_arrived_def)
qed

lemma unpack_message_frame:
  assumes "conn_repr c (pack i d @ rq) ms sq" and "\<not> stop_requested c v" and "msg_ok (i, d)"
  shows "\<exists>c'. unpack_message v c = Inr (Stepped (i, d, c')) \<and> conn_repr c' rq ms sq \<and> stop_works c' = stop_works c"
proof -
  have b: "cb_repr (buffer c) (pack i d @ rq)" using assms(1) by (simp add: conn_repr_def)
  obtain b' where "cb_read_msg (buffer c) [] [] = Inr (9 + length i + length d, i, d, b')" "cb_repr b' rq"
    using cb_read_msg_refines [OF b, of "[]" "[]"] parse_message(1) [OF assms(3), of rq] by auto
  with assms(1,2) cb_can_read_ok [OF b] parse_message(2) [OF assms(3), of rq] show ?thesis
    by (simp add: unpack_message_def conn_repr_def)
qed

lemma deliver_one:
  assumes "session_inv s" and "working s x v" and "all_arrived s x" and "0 < backlog s x"
  shows "\<exists>s'. calm R s s' \<and> working s' x v \<and> all_arrived s' x \<and> backlog s' x < backlog s x"
proof -
  obtain rq ms sq fl h where at: "\<And>x. session_at s rq ms sq fl h x"
    using assms(1) unfolding session_inv_def by blast
  note w = assms(2) [unfolded working_def] and repr = session_atD(2) [OF at [of x]]
  have hx: "h x = []" using sole_none [OF session_atD(4) [OF at [of x]]] w by simp
  obtain arrived todo where f: "posted s (\<not> x) = arrived @ todo" "frames todo = rq x" "list_all msg_ok (posted s (\<not> x))"
    using all_arrived_flow [OF at assms(3)] hx by (auto simp: flow_def)
  have "rq x \<noteq> []" using assms(4) sizes_repr(2) [OF at [of x]] by auto
  then obtain i d todo' where todo: "todo = (i, d) # todo'" using f(2) by (cases todo) auto
  then have ok: "msg_ok (i, d)" and rx: "rq x = pack i d @ frames todo'" using f by simp_all
  have nr: "\<not> stop_requested (conn (ends s x)) v" using w by simp
  obtain c where c: "unpack_message v (conn (ends s x)) = Inr (Stepped (i, d, c))"
    "conn_repr c (frames todo') (ms x) (sq x)" "stop_works c = stop_works (conn (ends s x))"
    using unpack_message_frame [OF repr [unfolded rx] nr ok] by blast
  let ?s1 = "(with_conn x c s)\<lparr>in_hand := (in_hand s)(x := (in_hand s x)(v \<mapsto> (i, d)))\<rparr>"
  have st: "session_step s ?s1"
    by (rule Unpack) (use w c(1) in \<open>simp_all add: receives_def\<close>)
  have inv1: "session_inv ?s1" by (rule session_inv_step [OF st assms(1)])
  have hand: "in_hand ?s1 x v = Some (i, d)" by simp
  obtain mb where mb: "store_message (conn (ends ?s1 x)) i d = Inr ((conn (ends ?s1 x))\<lparr>mapbuffer := mb\<rparr>)"
    "(in_hand ?s1 x)(v := None) = Map.empty"
    using store_succeeds [OF inv1 hand] by blast
  let ?s2 = "(with_conn x (c\<lparr>mapbuffer := mb\<rparr>) s)"
  have "in_hand s x = Map.empty" using w by simp
  then have "(in_hand s)(x := Map.empty) = in_hand s" by (metis fun_upd_triv)
  then have "session_step ?s1 ?s2" using Store [OF hand mb(1)] mb(2) by simp
  then have "calm R s ?s2"
    by (intro rtranclp_trans [OF calm_step [OF st] calm_step [of ?s1]]) simp_all
  moreover have "working ?s2 x v" using w c(3) by (simp add: working_def stop_requested_def)
  moreover have "all_arrived ?s2 x" using assms(3) by (simp add: all_arrived_def unsent_def)
  moreover have "backlog ?s2 x < backlog s x"
    using c(2) cb.count_ok [of "buffer c" "frames todo'"] sizes_repr(2) [OF at [of x]] rx
    by (simp add: backlog_def conn_repr_def)
  ultimately show ?thesis by blast
qed

lemma deliver_all:
  assumes "session_ok s" and "working s x v" and "all_arrived s x"
  shows "\<exists>s'. calm R s s' \<and> working s' x v \<and> all_arrived s' x \<and> backlog s' x = 0"
  using assms
proof (induction "backlog s x" arbitrary: s rule: less_induct)
  case less
  show ?case
  proof (cases "backlog s x = 0")
    case False
    obtain s1 where s1: "calm R s s1" "working s1 x v" "all_arrived s1 x" "backlog s1 x < backlog s x"
      using deliver_one [OF session_okD(1) [OF less.prems(1)] less.prems(2,3)] False by auto
    from less.hyps [OF s1(4) calm_ok [OF s1(1) less.prems(1)] s1(2,3)] rtranclp_trans [OF s1(1)] show ?thesis
      by blast
  qed (use less.prems in \<open>auto intro: exI [of _ s]\<close>)
qed

lemma all_delivered:
  assumes "session_inv s" and "working s x v" and "all_arrived s x" and "backlog s x = 0"
  shows "\<exists>rq ms sq. conn_repr (conn (ends s x)) rq ms sq \<and> (\<forall>i. payloads (posted s (\<not> x)) i = taken s x i @ ms i)"
proof -
  obtain rq ms sq fl h where at: "\<And>x. session_at s rq ms sq fl h x"
    using assms(1) unfolding session_inv_def by blast
  have "h x = []" using sole_none [OF session_atD(4) [OF at [of x]]] assms(2) by (simp add: working_def)
  moreover have "rq x = []" using sizes_repr(2) [OF at [of x]] assms(4) by simp
  ultimately obtain arrived todo where f: "posted s (\<not> x) = arrived @ todo" "frames todo = []"
    "\<And>i. payloads arrived i = taken s x i @ ms x i"
    using all_arrived_flow [OF at assms(3)] by (auto simp: flow_def)
  have "length (frames todo) = 0" using f(2) by simp
  then have "todo = []" by (cases todo) auto
  with f session_atD(2) [OF at [of x]] show ?thesis by auto
qed

text \<open>What end \<open>x\<close> needs to get all that was sent to it: everything has arrived already, or it can read and nothing was
  lost.\<close>

definition hears :: "(bool \<Rightarrow> bool) \<Rightarrow> session \<Rightarrow> bool \<Rightarrow> bool" where
  "hears R s x \<longleftrightarrow> all_arrived s x \<or> R x \<and> lost s (\<not> x) = []"

lemma hears_calm: "calm R s s' \<Longrightarrow> session_ok s \<Longrightarrow> hears R s x \<Longrightarrow> hears R s' x"
  using all_arrived_calm [of R s s' x] calmD(4) [of R s s' "\<not> x"] by (auto simp: hears_def)

text \<open>A sender with nothing left to send: everything that was sent gets to the buffers of the ids of a receiver where a
  task is started.\<close>

lemma deliver_rest:
  assumes "session_ok s" and "caller (ends s x) t \<in> busy" and "hears R s x"
    and "unsent s (\<not> x) = 0" and "in_flight s (\<not> x) = Map.empty"
  shows "\<exists>s' rq ms sq. calm R s s' \<and> conn_repr (conn (ends s' x)) rq ms sq \<and>
    (\<forall>i. payloads (posted s (\<not> x)) i = taken s x i @ ms i)"
proof -
  obtain s1 v where s1: "calm R s s1" "untouched (\<not> x) s s1" "working s1 x v"
    using get_working [OF session_okD(1) [OF assms(1)] assms(2)] by blast
  have i1: "session_ok s1" by (rule calm_ok [OF s1(1) assms(1)])
  obtain s2 where s2: "calm R s1 s2" "working s2 x v" "all_arrived s2 x"
  proof (cases "all_arrived s1 x")
    case True
    then show thesis using that [of s1] s1(3) by simp
  next
    case False
    then have r: "R x" "lost s1 (\<not> x) = []" using hears_calm [OF s1(1) assms(1,3)] by (simp_all add: hears_def)
    obtain s2 where s2: "calm R s1 s2" "untouched (\<not> x) s1 s2" "working s2 x v" "stream s2 (\<not> x) = []" "lost s2 = lost s1"
      using arrive_all [of s1 x v R, OF i1 s1(3) r(1)] by blast
    then have "all_arrived s2 x"
      using s1(2) assms(4,5) r(2) by (simp add: all_arrived_def untouched_def unsent_def)
    with s2(1,3) show thesis by (rule that)
  qed
  have i2: "session_ok s2" by (rule calm_ok [OF s2(1) i1])
  obtain s3 where s3: "calm R s2 s3" "working s3 x v" "all_arrived s3 x" "backlog s3 x = 0"
    using deliver_all [OF i2 s2(2,3)] by blast
  have c: "calm R s s3" using s1(1) s2(1) s3(1) by (meson rtranclp_trans)
  from all_delivered [OF session_okD(1) [OF calm_ok [OF s3(1) i2]] s3(2-4)] c calmD(1,2) [OF c] show ?thesis
    by metis
qed

text \<open>Both nodes run a task, or the sender has closed: the sender has nothing to send or can get rid of it.\<close>

lemma deliver_to:
  assumes "session_ok s" and "caller (ends s x) t \<in> busy" and "hears R s x"
    and "caller (ends s (\<not> x)) u \<in> busy \<or> state (conn (ends s (\<not> x))) = Closed"
  shows "\<exists>s' rq ms sq. calm R s s' \<and> conn_repr (conn (ends s' x)) rq ms sq \<and>
    (\<forall>i. payloads (posted s (\<not> x)) i = taken s x i @ ms i)"
  using assms(4)
proof
  assume "caller (ends s (\<not> x)) u \<in> busy"
  then obtain s1 v where s1: "calm R s s1" "working s1 (\<not> x) v"
    using get_working [OF session_okD(1) [OF assms(1)]] by blast
  have i1: "session_ok s1" by (rule calm_ok [OF s1(1) assms(1)])
  obtain s2 where s2: "calm R s1 s2" "working s2 (\<not> x) v" "unsent s2 (\<not> x) = 0"
    using flush_all [OF session_okD(1) [OF i1] s1(2)] by blast
  have c: "calm R s s2" using s1(1) s2(1) by (rule rtranclp_trans)
  have t: "caller (ends s2 x) t \<in> busy" using calmD(3) [OF c] assms(2) by simp
  have f: "in_flight s2 (\<not> x) = Map.empty" using s2(2) by (simp add: working_def)
  obtain s3 rq ms sq where s3: "calm R s2 s3" "conn_repr (conn (ends s3 x)) rq ms sq"
    "\<forall>i. payloads (posted s2 (\<not> x)) i = taken s2 x i @ ms i"
    using deliver_rest [OF calm_ok [OF c assms(1)] t hears_calm [OF c assms(1,3)] s2(3) f] by blast
  with calmD(1,2) [OF c] rtranclp_trans [OF c s3(1)] show ?thesis by metis
next
  assume "state (conn (ends s (\<not> x))) = Closed"
  from deliver_rest [OF assms(1-3) closed_okD(1,2) [OF session_okD(2) [OF assms(1)] this]] show ?thesis .
qed

lemma stop_gets_lock:
  assumes "session_ok s" and "locks_ok s" and "caller (ends s x) t = Lock_Waiting" and "hears R s x"
    and "caller (ends s (\<not> x)) u \<in> busy" and "starts s x t \<le> starts s (\<not> x) t"
  shows "\<exists>s'. (going R)\<^sup>*\<^sup>* s s' \<and> caller (ends s' x) t = Stopping \<and>
    caller (ends s' (\<not> x)) = caller (ends s (\<not> x)) \<and> posted s' = posted s \<and> (\<forall>y. hears R s y \<longrightarrow> hears R s' y)"
proof -
  obtain s1 rq ms sq where s1: "calm R s s1" "conn_repr (conn (ends s1 x)) rq ms sq"
    "\<And>i. payloads (posted s (\<not> x)) i = taken s x i @ ms i"
    using deliver_to [OF assms(1) _ assms(4), of t u] assms(3,5) by blast
  have "length (payloads (posted s (\<not> x)) (lock_id t)) = starts s (\<not> x) t"
    using assms(2) payloads_lock [of "posted s (\<not> x)" t] by (simp add: locks_ok_def starts_def)
  moreover have "starts s x t = length (taken s x (lock_id t)) + 1"
    using assms(2,3) by (simp add: locks_ok_def begun_def)
  ultimately have ne: "1 \<le> length (ms (lock_id t))"
    using assms(6) arg_cong [OF s1(3) [of "lock_id t"], of length] by simp
  have "std_find (mapbuffer (conn (ends s1 x))) (lock_id t) \<noteq> None"
    using streams_none [of "mapbuffer (conn (ends s1 x))" ms "lock_id t"] s1(2) ne unfolding conn_repr_def by fastforce
  then obtain n data c where r: "conn_recv (state (conn (ends s1 x))) 0 (conn (ends s1 x)) (lock_id t) 1 (-1) = Inr (n, data, c)"
    using conn_recv_ok [OF s1(2), of "state (conn (ends s1 x))" 0 "-1" 1 "lock_id t"] ne by auto
  have wait: "caller (ends s1 x) t = Lock_Waiting" using calmD(3) [OF s1(1)] assms(3) by simp
  let ?s2 = "s1\<lparr>ends := (ends s1)(x := set_caller t Stopping ((ends s1 x)\<lparr>conn := c, task_mtx := None\<rparr>)),
      taken := (taken s1)(x := (taken s1 x)(lock_id t := taken s1 x (lock_id t) @ data))\<rparr>"
  have "session_step s1 ?s2" by (rule Task_Stop [OF wait r])
  then have "going R s1 ?s2" by (auto simp: going_def wait)
  with calm_going [OF s1(1)] have run: "(going R)\<^sup>*\<^sup>* s ?s2" by (rule rtranclp.rtrancl_into_rtrancl)
  have "hears R ?s2 y = hears R s1 y" for y
    using data_ops_keep_state(1) [OF r] by (simp add: hears_def all_arrived_def unsent_def)
  then have "\<forall>y. hears R s y \<longrightarrow> hears R ?s2 y" using hears_calm [OF s1(1) assms(1)] by simp
  with run calmD(1,3) [OF s1(1)] show ?thesis by (intro exI [of _ ?s2]) simp
qed

text \<open>After its lock message has come a stop runs to its end by steps that exchange no data.\<close>

lemma thread_plain: "thread_step\<^sup>*\<^sup>* m n \<Longrightarrow> plain_step\<^sup>*\<^sup>* m n"
  by (rule mono_rtranclp [rule_format]) (auto simp: thread_step_def plain_step_def)

lemma control_join:
  assumes "sched_inv m" and "caller m t = Joining"
  shows "\<exists>n. plain_step\<^sup>*\<^sup>* m n \<and> caller n = (caller m)(t := Idle)"
proof -
  have fl: "std_find (stop_works (conn m)) t = Some True"
    and w: "worker m t = Queued \<or> running (worker m t) \<or> worker m t = Exited"
    using sched_invD(2) [OF assms(1), of t] assms(2) by (auto simp: task_ok_def)
  then have req: "stop_requested (conn m) t" by (simp add: stop_requested_def)
  have ends: "\<exists>n. plain_step\<^sup>*\<^sup>* m n \<and> caller n = (caller m)(t := Idle)"
    if k: "plain_step\<^sup>*\<^sup>* m k" "caller k = caller m" "worker k t = Exited" for k
  proof -
    let ?n = "set_caller t Idle (set_worker t Absent (k\<lparr>conn := do_stop_erase t (conn k)\<rparr>))"
    have "sched_step k ?n" by (rule Stop_Join) (use k assms(2) in simp_all)
    then have "plain_step k ?n" using k(2) assms(2) by (simp add: plain_step_def control_step_def do_stop_erase_def)
    with k(1) have "plain_step\<^sup>*\<^sup>* m ?n" by (rule rtranclp.rtrancl_into_rtrancl)
    moreover have "caller ?n = (caller m)(t := Idle)" using k(2) by simp
    ultimately show ?thesis by blast
  qed
  have run: "\<exists>k. plain_step\<^sup>*\<^sup>* m' k \<and> caller k = caller m' \<and> worker k t = Exited"
    if "worker m' t = Running a b" "stop_requested (conn m') t" for m' a b
    using control_end [OF that] thread_plain by blast
  from w show ?thesis
  proof (elim disjE)
    assume q: "worker m t = Queued"
    show ?thesis
    proof (cases "work_count m = 0")
      case True
      have "stop_requested (conn (do_start_work t m)) t" "worker (do_start_work t m) t = Running True True"
        "caller (do_start_work t m) = caller m"
        using req by (simp_all add: do_start_work_def)
      then show ?thesis using run [of "do_start_work t m"] thread_plain [OF r_into_rtranclp, OF control_work [OF q True]] ends
        by (metis rtranclp_trans)
    next
      case False
      have "sched_step m (set_worker t Exited m)" by (rule Skip [OF q]) (use False req in \<open>simp add: work_wait_def\<close>)
      then have "plain_step m (set_worker t Exited m)" by (simp add: plain_step_def control_step_def)
      then have "plain_step\<^sup>*\<^sup>* m (set_worker t Exited m)" by (rule r_into_rtranclp)
      then show ?thesis by (rule ends) simp_all
    qed
  next
    assume "running (worker m t)"
    then obtain a b where "worker m t = Running a b" by (cases "worker m t") auto
    with run [OF _ req] ends show ?thesis by blast
  qed (use ends [of m] in simp)
qed

lemma control_stop:
  assumes "sched_inv m" and "caller m t = Stopping"
  shows "\<exists>n. plain_step\<^sup>*\<^sup>* m n \<and> caller n = (caller m)(t := Idle)"
proof -
  have th: "t \<in> threads m" using sched_invD(2) [OF assms(1), of t] assms(2) by (simp add: task_ok_def)
  let ?m1 = "set_caller t Flagged (m\<lparr>conn := do_stop_flag t (conn m)\<rparr>)"
  let ?m2 = "set_caller t Joining (?m1\<lparr>threads := threads ?m1 - {t}\<rparr>)"
  have s1: "sched_step m ?m1" by (rule Stop_Flag [OF assms(2)])
  have s2: "sched_step ?m1 ?m2" by (rule Stop_Take) (use th in \<open>simp_all add: do_stop_take_def\<close>)
  have "plain_step m ?m1" "plain_step ?m1 ?m2"
    using s1 s2 assms(2) by (simp_all add: plain_step_def control_step_def do_stop_flag_def)
  moreover have "sched_inv ?m2" using sched_inv_step [OF s2 sched_inv_step [OF s1 assms(1)]] .
  from control_join [OF this, of t] obtain n where "plain_step\<^sup>*\<^sup>* ?m2 n" "caller n = (caller m)(t := Idle)" by auto
  ultimately show ?thesis by (meson converse_rtranclp_into_rtranclp)
qed

lemma plain_going:
  assumes "plain_step\<^sup>*\<^sup>* (ends s x) n" and "in_flight s x = Map.empty" and "in_hand s x = Map.empty"
  shows "(going R)\<^sup>*\<^sup>* s (s\<lparr>ends := (ends s)(x := n)\<rparr>)"
  using assms(1)
proof (induction rule: rtranclp_induct)
  case (step m n)
  let ?s = "\<lambda>m. s\<lparr>ends := (ends s)(x := m)\<rparr>"
  have mn: "control_step (ends (?s m) x) n" "mid_round_ok (?s m) x n"
    using step(2) assms(2,3) by (simp_all add: mid_round_ok_def plain_step_def)
  have "session_step (?s m) (?s n)" using Control [OF mn] by simp
  moreover have "\<And>u. caller n u = Lock_Waiting \<Longrightarrow> caller m u = Lock_Waiting" "\<And>u. caller m u = Idle \<Longrightarrow> caller n u = Idle"
    using step(2) unfolding plain_step_def control_step_def by blast+
  ultimately have "going R (?s m) (?s n)" by (simp add: going_def)
  with step(3) show ?case by (rule rtranclp.rtrancl_into_rtrancl)
qed simp

lemma stop_ends:
  assumes "session_ok s" and "caller (ends s x) t = Stopping"
  shows "\<exists>s'. (going R)\<^sup>*\<^sup>* s s' \<and> caller (ends s' x) = (caller (ends s x))(t := Idle) \<and>
    caller (ends s' (\<not> x)) = caller (ends s (\<not> x))"
proof -
  obtain s1 where s1: "calm R s s1" "in_flight s1 x = Map.empty" "in_hand s1 x = Map.empty"
    using end_rounds [OF session_okD(1) [OF assms(1)]] by blast
  obtain rq ms sq fl h where at: "\<And>x. session_at s1 rq ms sq fl h x"
    using session_okD(1) [OF calm_ok [OF s1(1) assms(1)]] unfolding session_inv_def by blast
  have "caller (ends s1 x) t = Stopping" using calmD(3) [OF s1(1)] assms(2) by simp
  from control_stop [OF session_atD(1) [OF at [of x]] this] obtain n
    where n: "plain_step\<^sup>*\<^sup>* (ends s1 x) n" "caller n = (caller (ends s1 x))(t := Idle)" by blast
  have "(going R)\<^sup>*\<^sup>* s (s1\<lparr>ends := (ends s1)(x := n)\<rparr>)"
    using calm_going [OF s1(1)] plain_going [OF n(1) s1(2,3)] by (rule rtranclp_trans)
  with n(2) calmD(3) [OF s1(1)] show ?thesis by (intro exI [of _ "s1\<lparr>ends := (ends s1)(x := n)\<rparr>"]) simp
qed

lemma going_locks_ok:
  assumes "(going R)\<^sup>*\<^sup>* s s'" and "session_inv s" and "locks_ok s"
  shows "locks_ok s'"
proof -
  have "session_step\<^sup>*\<^sup>* s s'" using assms(1) by (rule mono_rtranclp [rule_format, rotated]) (simp add: going_def)
  from session_steps [OF this assms(2,3)] show ?thesis by simp
qed

text \<open>Both nodes stop a task that both have started: both stops can get to their ends.\<close>

lemma both_stop:
  assumes "session_ok s" and "locks_ok s" and "caller (ends s x) t = Lock_Waiting"
    and "caller (ends s (\<not> x)) t = Lock_Waiting" and "starts s x t = starts s (\<not> x) t"
    and "hears R s x" and "hears R s (\<not> x)"
  shows "\<exists>s'. (going R)\<^sup>*\<^sup>* s s' \<and> caller (ends s' x) t = Idle \<and> caller (ends s' (\<not> x)) t = Idle"
proof -
  obtain s1 where s1: "(going R)\<^sup>*\<^sup>* s s1" "posted s1 = posted s" "caller (ends s1 x) t = Stopping"
    "caller (ends s1 (\<not> x)) t = Lock_Waiting" "hears R s1 (\<not> x)"
    using stop_gets_lock [OF assms(1-3,6), of t] assms(4,5,7) by auto
  have i1: "session_ok s1" "locks_ok s1"
    using going_ok [OF s1(1) assms(1)] going_locks_ok [OF s1(1) session_okD(1) [OF assms(1)] assms(2)] by simp_all
  have eq: "starts s1 (\<not> x) t \<le> starts s1 (\<not> \<not> x) t" using s1(2) assms(5) by (simp add: starts_def)
  obtain s2 where s2: "(going R)\<^sup>*\<^sup>* s1 s2" "caller (ends s2 (\<not> x)) t = Stopping" "caller (ends s2 x) t = Stopping"
    using stop_gets_lock [OF i1 s1(4,5) _ eq, of t] s1(3) by auto
  have i2: "session_ok s2" by (rule going_ok [OF s2(1) i1(1)])
  obtain s3 where s3: "(going R)\<^sup>*\<^sup>* s2 s3" "caller (ends s3 x) t = Idle" "caller (ends s3 (\<not> x)) t = Stopping"
    using stop_ends [OF i2 s2(3), of R] s2(2) by auto
  obtain s4 where "(going R)\<^sup>*\<^sup>* s3 s4" "caller (ends s4 (\<not> x)) t = Idle" "caller (ends s4 x) t = Idle"
    using stop_ends [OF going_ok [OF s3(1) i2] s3(3), of R] s3(2) by auto
  with s1(1) s2(1) s3(1) show ?thesis by (meson rtranclp_trans)
qed

lemma sent_arrives:
  assumes "session_ok s" and "caller (ends s x) t \<in> busy" and "hears R s x"
    and "caller (ends s (\<not> x)) u \<in> busy \<or> state (conn (ends s (\<not> x))) = Closed" and "\<not> is_lock_id i"
  shows "\<exists>s'. (going R)\<^sup>*\<^sup>* s s' \<and> posted s' = posted s \<and> taken s' x i = payloads (posted s (\<not> x)) i"
proof -
  obtain s1 rq ms sq where s1: "calm R s s1" "conn_repr (conn (ends s1 x)) rq ms sq"
    "\<And>i. payloads (posted s (\<not> x)) i = taken s x i @ ms i"
    using deliver_to [OF assms(1-4)] by blast
  note run = calm_going [OF s1(1)] and same = calmD(1,2) [OF s1(1)]
  show ?thesis
  proof (cases "ms i = []")
    case True
    with run same s1(3) show ?thesis by (metis append_Nil2)
  next
    case False
    obtain rq' ms' sq' fl' h' where at: "\<And>x. session_at s1 rq' ms' sq' fl' h' x"
      using session_okD(1) [OF calm_ok [OF s1(1) assms(1)]] unfolding session_inv_def by blast
    have "length (payloads (posted s (\<not> x)) i) \<le> cb_limit"
      using payloads_le_frames [of "posted s (\<not> x)" i] flow_limits(2) [OF flow_in [OF at, of x]] same(1)
      by simp
    then have "length (ms i) \<le> cb_limit" using s1(3) [of i] by simp
    from conn_recv_all [OF s1(2) this False] obtain len n c
      where r: "conn_recv (state (conn (ends s1 x))) 0 (conn (ends s1 x)) i len (-1) = Inr (n, ms i, c)" "0 \<le> n"
      by blast
    let ?s = "(with_conn x c s1)\<lparr>taken := (taken s1)(x := (taken s1 x)(i := taken s1 x i @ ms i))\<rparr>"
    have "session_step s1 ?s" by (rule Fetch [OF assms(5) r])
    then have "going R s1 ?s" by (simp add: going_def)
    with run have "(going R)\<^sup>*\<^sup>* s ?s" by (rule rtranclp.rtrancl_into_rtrancl)
    then show ?thesis using same s1(3) [of i] by (intro exI [of _ ?s]) simp
  qed
qed

section \<open>A session with a message\<close>

lemma send_succeeds:
  assumes "session_inv s" and "msg_ok (i, d)" and "length (frames (posted s x @ [(i, d)])) \<le> cb_limit"
  shows "\<exists>n c. send_msg (conn (ends s x)) i d = Inr (n, c)"
proof -
  obtain rq ms sq fl h where at: "\<And>x. session_at s rq ms sq fl h x"
    using assms(1) unfolding session_inv_def by blast
  note a = session_atD [OF at [of x]]
  have "length (sq x) + (9 + length i + length d) \<le> cb_limit" using flow_limits(1) [OF a(5)] assms(3) by simp
  from send_msg_ok [OF a(2) this] show ?thesis by blast
qed

lemma posted_conn0:
  obtains s where "session_step\<^sup>*\<^sup>* (new_session (\<lambda>_. new_connection 3 0 False ''peer'')) s"
    "caller (ends s True) ''t'' = Lock_Waiting" "caller (ends s False) ''t'' = Lock_Waiting"
    "posted s False = [(lock_id ''t'', ''1''), (''k'', ''v'')]"
proof -
  let ?c = "\<lambda>_ :: bool. new_connection 3 0 False ''peer''"
  have "length (lock_id ''t'') \<le> 254" by (simp add: lock_id_def)
  from reach_crossing [OF this this, of ?c, OF new_connections_ok] obtain s
    where s: "session_step\<^sup>*\<^sup>* (new_session ?c) s"
      "caller (ends s True) ''t'' = Lock_Waiting" "caller (ends s False) ''t'' = Lock_Waiting"
      and p: "posted s False = [(lock_id ''t'', ''1'')]" by blast
  have ok: "msg_ok (''k'', ''v'')" "\<not> is_lock_id ''k''" "length (frames (posted s False @ [(''k'', ''v'')])) \<le> cb_limit"
    by (simp_all add: msg_ok_def is_lock_id_def p lock_id_def cb_limit_def)
  have open_end: "state (conn (ends s False)) \<noteq> Closed"
    using closed_okD(3) [OF closed_ok_reach [OF s(1) new_connections_ok(3,1,2)], of False "''t''"] s(3) by auto
  obtain n c where c: "send_msg (conn (ends s False)) ''k'' ''v'' = Inr (n, c)"
    using send_succeeds [OF session_reach(1) [OF s(1) new_connections_ok(1,2)] ok(1,3)] by blast
  let ?s = "(with_conn False c s)\<lparr>posted := (posted s)(False := posted s False @ [(''k'', ''v'')])\<rparr>"
  have "session_step s ?s" by (rule Post [OF ok c open_end])
  with s(1) have "session_step\<^sup>*\<^sup>* (new_session ?c) ?s" by (rule rtranclp.rtrancl_into_rtrancl)
  then show thesis by (rule that [of ?s]) (use s(2,3) p in simp_all)
qed

section \<open>What is lost\<close>

text \<open>A closed end sends nothing more, and what is lost stays lost.\<close>

lemma closed_stays:
  assumes "session_step s s'" and "state (conn (ends s x)) = Closed"
  shows "state (conn (ends s' x)) = Closed \<and> posted s' x = posted s x \<and> (lost s x \<noteq> [] \<longrightarrow> lost s' x \<noteq> [])"
  using assms(1)
proof cases
  case (Control y n)
  then show ?thesis using assms(2) by (auto simp: control_step_def)
next
  case (Task_Start y t c)
  then show ?thesis using assms(2) by (cases "y = x") auto
next
  case (Task_Stop y t n data c)
  then show ?thesis using assms(2) data_ops_keep_state(1) [OF Task_Stop(3)] by auto
next
  case (Post i d y n c)
  then show ?thesis using assms(2) by (cases "y = x") auto
next
  case (Fetch i ts el y len timeout n data c)
  then show ?thesis using assms(2) data_ops_keep_state(1) [OF Fetch(3)] by auto
next
  case (Take y t data c)
  then show ?thesis using assms(2) data_ops_keep_state(5) [OF Take(4)] by auto
next
  case (Put y t data out rest)
  then show ?thesis using assms(2) by (cases "y = x") (auto simp: transmit_def)
next
  case (Arrive y data rest c)
  then show ?thesis using assms(2) data_ops_keep_state(2) [OF Arrive(3)] by (cases "y = x") auto
next
  case (Unpack y t i d c)
  then show ?thesis using assms(2) data_ops_keep_state(3) [OF Unpack(4)] by auto
next
  case (Store y t i d c)
  then show ?thesis using assms(2) data_ops_keep_state(4) [OF Store(3)] by auto
next
  case (Close y data c out rest k)
  have "y \<noteq> x" by (rule notI) (use Close(3) assms(2) in \<open>simp add: close_connection_def\<close>)
  then show ?thesis using Close(1) assms(2) by (cases x) simp_all
next
  case (Reset y k)
  then show ?thesis using assms(2) by (cases "y = x") (auto simp: discard_def)
qed

lemma closed_stays_run:
  assumes "session_step\<^sup>*\<^sup>* s s'" and "state (conn (ends s x)) = Closed" and "lost s x \<noteq> []"
  shows "posted s' x = posted s x \<and> lost s' x \<noteq> []"
proof -
  have "state (conn (ends s' x)) = Closed \<and> posted s' x = posted s x \<and> lost s' x \<noteq> []"
    using assms(1)
  proof (induction rule: rtranclp_induct)
    case (step s1 s2)
    then show ?case using closed_stays [OF step(2), of x] by simp
  qed (use assms(2,3) in simp)
  then show ?thesis by simp
qed

text \<open>With a byte lost the last message that was sent has not been received.\<close>

lemma lost_last:
  assumes "session_inv s" and "lost s x \<noteq> []" and "posted s x = ps @ [(i, d)]" and "d \<noteq> []"
  shows "length (taken s (\<not> x) i) < length (payloads (posted s x) i)"
proof -
  obtain rq ms sq fl h where at: "\<And>x. session_at s rq ms sq fl h x"
    using assms(1) unfolding session_inv_def by blast
  obtain arrived todo where f: "posted s x = arrived @ h (\<not> x) @ todo"
    "frames todo = rq (\<not> x) @ written s x @ concat (fl x) @ sq x"
    "\<And>i. payloads arrived i = taken s (\<not> x) i @ ms (\<not> x) i"
    using session_atD(5) [OF at [of x]] by (auto simp: flow_def)
  have "todo \<noteq> []" using f(2) assms(2) by (cases todo) auto
  then obtain todo' where "todo = todo' @ [(i, d)]" using f(1) assms(3)
    by (metis append_butlast_last_id append_is_Nil_conv last_appendR last_snoc)
  with f(1,3) assms(4) show ?thesis by simp
qed

text \<open>Closing an end on which all tasks have been stopped, with data still unread by the peer.\<close>

lemma close_discards:
  assumes "session_inv s" and "\<And>t. caller (ends s x) t = Idle" and "state (conn (ends s x)) \<noteq> Closed"
    and "0 < unsent s x \<or> written s x \<noteq> []"
  obtains s' where "session_step s s'" "state (conn (ends s' x)) = Closed" "posted s' = posted s" "lost s' x \<noteq> []"
proof -
  obtain rq ms sq fl h where at: "\<And>x. session_at s rq ms sq fl h x"
    using assms(1) unfolding session_inv_def by blast
  note a = session_atD [OF at [of x]]
  have "conn_repr ((conn (ends s x))\<lparr>state := Closing\<rparr>) (rq x) (ms x) (sq x)" using a(2) by (simp add: conn_repr_def)
  then obtain c where "close_connection (conn (ends s x)) = Inr (sq x, True, c)" "state c = Closed"
    using flush_send_buffer_ok assms(3) by (fastforce simp: close_connection_def)
  note c = this
  let ?s = "discard x 0 (transmit x (sq x) [] (with_conn x c s))"
  have "session_step s ?s" by (rule Close [OF assms(2) c(1) write_whole])
  moreover have "sq x \<noteq> [] \<or> written s x \<noteq> []" using assms(4) sizes_repr(1) [OF at [of x]] by auto
  then have "lost ?s x \<noteq> []" by (auto simp: discard_def transmit_def)
  ultimately show thesis using c(2) by (intro that [of ?s]) simp_all
qed

section \<open>Properties\<close>

text \<open>C13: an orderly close can lose messages for good: when all tasks of an end have been stopped and something sent before
  has not reached the peer's process, \<open>Connection::close\<close> can reset the connection, because \<open>SO_LINGER\<close> is
  set to zero seconds, and in every later state the peer's \<open>recv\<close> has returned less than was sent under the id of the last
  message.\<close>

theorem close_can_lose_messages:
  assumes "session_step\<^sup>*\<^sup>* (new_session (\<lambda>x. new_connection (f x) (ev x) (srv x) (p x))) s"
    and "\<And>t. caller (ends s x) t = Idle" and "state (conn (ends s x)) \<noteq> Closed"
    and "0 < unsent s x \<or> written s x \<noteq> []" and "posted s x = ps @ [(i, d)]" and "d \<noteq> []"
  shows "\<exists>s'. session_step s s' \<and> state (conn (ends s' x)) = Closed \<and> posted s' = posted s \<and>
    (\<forall>s''. session_step\<^sup>*\<^sup>* s' s'' \<longrightarrow> length (taken s'' (\<not> x) i) < length (payloads (posted s x) i))"
proof -
  note inv = session_reach [OF assms(1) new_connections_ok(1,2)]
  obtain s' where s': "session_step s s'" "state (conn (ends s' x)) = Closed" "posted s' = posted s" "lost s' x \<noteq> []"
    using close_discards [OF inv(1) assms(2-4)] by blast
  have "length (taken s'' (\<not> x) i) < length (payloads (posted s x) i)" if "session_step\<^sup>*\<^sup>* s' s''" for s''
  proof -
    have run: "session_step\<^sup>*\<^sup>* s s''" using s'(1) that by (rule converse_rtranclp_into_rtranclp)
    have "session_inv s''" using session_steps [OF run inv] by simp
    moreover have "posted s'' x = posted s x" "lost s'' x \<noteq> []" using closed_stays_run [OF that s'(2,4)] s'(3) by simp_all
    ultimately show ?thesis using lost_last [of s'' x ps i d] assms(5,6) by simp
  qed
  with s'(1-3) show ?thesis by blast
qed

theorem close_can_lose_messages_witness:
  "\<exists>s. session_step\<^sup>*\<^sup>* (new_session (\<lambda>_. new_connection 3 0 False ''peer'')) s \<and> posted s True = [(''k'', ''v'')] \<and>
     state (conn (ends s True)) = Closed \<and> (\<forall>s''. session_step\<^sup>*\<^sup>* s s'' \<longrightarrow> taken s'' False ''k'' = [])"
proof -
  let ?new = "new_session (\<lambda>_ :: bool. new_connection 3 0 False ''peer'')"
  have r0: "session_step\<^sup>*\<^sup>* ?new ?new" by simp
  have ok: "msg_ok (''k'', ''v'')" "\<not> is_lock_id ''k''" "length (frames (posted ?new True @ [(''k'', ''v'')])) \<le> cb_limit"
    "state (conn (ends ?new True)) \<noteq> Closed"
    by (simp_all add: msg_ok_def is_lock_id_def cb_limit_def new_session_def new_sched_def new_connection_def)
  note inv0 = session_reach(1) [OF r0 new_connections_ok(1,2)]
  obtain n c where c: "send_msg (conn (ends ?new True)) ''k'' ''v'' = Inr (n, c)"
    using send_succeeds [OF inv0 ok(1,3)] by blast
  let ?s = "(with_conn True c ?new)\<lparr>posted := (posted ?new)(True := posted ?new True @ [(''k'', ''v'')])\<rparr>"
  have "session_step ?new ?s" by (rule Post [OF ok(1-3) c ok(4)])
  then have r: "session_step\<^sup>*\<^sup>* ?new ?s" by (rule r_into_rtranclp [of session_step])
  have "conn_repr (conn (ends ?new True)) [] (\<lambda>_. []) []" by (simp add: new_session_def new_sched_def new_connections_ok)
  from send_msg_ok [OF this, of "''k''" "''v''"] c have "conn_repr c [] (\<lambda>_. []) (pack ''k'' ''v'')"
    by (simp add: cb_limit_def)
  then have un: "0 < unsent ?s True \<or> written ?s True \<noteq> []"
    using cb.count_ok [of "send_buffer c" "pack ''k'' ''v''"] by (simp add: unsent_def conn_repr_def)
  have idle: "caller (ends ?s True) t = Idle" for t by (simp add: new_session_def new_sched_def)
  have opn: "state (conn (ends ?s True)) \<noteq> Closed" using data_ops_keep_state(6) [OF c] ok(4) by simp
  have p: "posted ?s True = [] @ [(''k'', ''v'')]" by (simp add: new_session_def)
  obtain s' where s': "session_step ?s s'" "state (conn (ends s' True)) = Closed" "posted s' = posted ?s"
    "\<forall>s''. session_step\<^sup>*\<^sup>* s' s'' \<longrightarrow> length (taken s'' (\<not> True) ''k'') < length (payloads (posted ?s True) ''k'')"
    using close_can_lose_messages [OF r idle opn un p] by blast
  have "payloads (posted ?s True) ''k'' = ''v''" by (simp add: new_session_def)
  with s'(4) have "\<forall>s''. session_step\<^sup>*\<^sup>* s' s'' \<longrightarrow> taken s'' False ''k'' = []" by simp
  moreover have "session_step\<^sup>*\<^sup>* ?new s'" using r s'(1) by (rule rtranclp.rtrancl_into_rtrancl)
  moreover have "posted s' True = [(''k'', ''v'')]" using s'(3) p by simp
  ultimately show ?thesis using s'(2) by blast
qed

end
