(* ===== verification/Duty.thy ===== *)
theory Duty
  imports Server Refinement
begin

text \<open>
  The epoll threads of \<open>TCPServer::loop_main\<close> take turns: one handles the events of all tasks and hands over when its
  own task stops. \<open>duty_step\<close> is that protocol alone, on the map from the tasks to how far their threads are; the
  servers of \<open>Server\<close> implement it. With \<open>listen_cv_\<close> notified under \<open>listen_mutex_\<close> after every change of
  what \<open>loop_main\<close> waits for, a wait is a guard of the step behind it.
\<close>

section \<open>The protocol of the threads\<close>

type_synonym 'k duty = "'k \<Rightarrow> loop_thread option"

inductive duty_step :: "'k duty \<Rightarrow> 'k duty \<Rightarrow> bool" where
  Appear: "d k = None \<Longrightarrow> t = No_Thread \<or> t = Loop_Waiting \<Longrightarrow> duty_step d (d(k \<mapsto> t))"
| Take_Duty: "d k = Some Loop_Waiting \<Longrightarrow> (\<forall>j. d j \<noteq> Some Looping) \<Longrightarrow> duty_step d (d(k \<mapsto> Looping))"
| Decline: "d k = Some Loop_Waiting \<Longrightarrow> duty_step d (d(k \<mapsto> Loop_Done))"
| Hand_Over: "d k = Some Looping \<Longrightarrow> duty_step d (d(k \<mapsto> Loop_Done))"
| Join: "d k = Some Loop_Done \<Longrightarrow> duty_step d (d(k \<mapsto> Joined))"
| Leave: "d k = Some Joined \<Longrightarrow> duty_step d (d(k := None))"

inductive_cases duty_stepE: "duty_step d d'"

definition duties :: "server_system \<Rightarrow> nat duty" where
  "duties s = (\<lambda>k. map_option loop_thread (servers s k))"

lemma duties_new [simp]: "duties new_system = Map.empty"
  by (simp add: duties_def new_system_def)

lemma duties_upd [simp]:
  "duties (s\<lparr>static := st, servers := (servers s)(k \<mapsto> srv)\<rparr>) = (duties s)(k \<mapsto> loop_thread srv)"
  "duties (s\<lparr>servers := (servers s)(k \<mapsto> srv)\<rparr>) = (duties s)(k \<mapsto> loop_thread srv)"
  "duties (s\<lparr>static := st, servers := (servers s)(k := None)\<rparr>) = (duties s)(k := None)"
  "duties (s\<lparr>static := st\<rparr>) = duties s"
  by (auto simp: duties_def)

text \<open>A step that leaves the thread where it is.\<close>

lemma duties_same:
  assumes "servers s k = Some srv" and "loop_thread srv' = loop_thread srv"
  shows "duty_step\<^sup>*\<^sup>* (duties s) (duties (s\<lparr>static := st, servers := (servers s)(k \<mapsto> srv')\<rparr>))"
    and "duty_step\<^sup>*\<^sup>* (duties s) (duties (s\<lparr>servers := (servers s)(k \<mapsto> srv')\<rparr>))"
proof -
  have "(duties s)(k \<mapsto> loop_thread srv') = duties s" using assms by (auto simp: duties_def)
  then show "duty_step\<^sup>*\<^sup>* (duties s) (duties (s\<lparr>static := st, servers := (servers s)(k \<mapsto> srv')\<rparr>))"
    "duty_step\<^sup>*\<^sup>* (duties s) (duties (s\<lparr>servers := (servers s)(k \<mapsto> srv')\<rparr>))"
    by (simp_all only: duties_upd rtranclp.rtrancl_refl)
qed

lemma duties_at: "duties s k = Some t \<longleftrightarrow> (\<exists>srv. servers s k = Some srv \<and> loop_thread srv = t)"
  by (auto simp: duties_def)

lemma nobody_looping:
  assumes "servers_ok s" and "listen_count (static s) = 0"
  shows "duties s j \<noteq> Some Looping"
proof -
  have "finite (looping s)"
    using assms(1) finite_subset [OF looping_subset [of s]] by (simp add: servers_ok_def)
  then have "looping s = {}" using assms by (simp add: servers_ok_def)
  then show ?thesis by (auto simp: duties_at looping_def)
qed

lemma server_step_duty:
  assumes "server_step s s'" and "servers_ok s"
  shows "duty_step\<^sup>*\<^sup>* (duties s) (duties s')"
  using assms
proof (induction rule: server_step.induct)
  case (Server_Start s k task ssl_ok init_ok cids r srv st)
  then have "loop_thread srv = No_Thread \<or> loop_thread srv = Loop_Waiting"
    by (auto simp: server_start_def new_tcp_server_def Let_def split: if_splits)
  moreover have "duties s k = None" using Server_Start(1) by (simp add: duties_def)
  ultimately have "duty_step (duties s) ((duties s)(k \<mapsto> loop_thread srv))" by (blast intro: Appear)
  then show ?case by (simp only: duties_upd r_into_rtranclp)
next
  case (Loop_Enter s k srv srv' st)
  have k: "duties s k = Some Loop_Waiting" using Loop_Enter(1,2) by (simp add: duties_at)
  show ?case
  proof (cases "stop_flag srv")
    case True
    then have "loop_thread srv' = Loop_Done" using Loop_Enter(3) by (auto simp: loop_enter_def)
    with Decline [of "duties s" k] k show ?thesis by (simp only: duties_upd r_into_rtranclp)
  next
    case False
    then have go: "loop_thread srv' = Looping" "listen_count (static s) = 0"
      using Loop_Enter(3) by (auto simp: loop_enter_def split: if_splits)
    have "duty_step (duties s) ((duties s)(k \<mapsto> Looping))"
      by (rule Take_Duty) (use k nobody_looping [OF Loop_Enter(4)] go(2) in blast)+
    with go(1) show ?thesis by (simp only: duties_upd r_into_rtranclp)
  qed
next
  case (Loop_Exit s k srv time_up srv' st)
  then have "duties s k = Some Looping" "loop_thread srv' = Loop_Done" by (auto simp: duties_at loop_exit_def)
  with Hand_Over [of "duties s" k] show ?case by (simp only: duties_upd r_into_rtranclp)
next
  case (Put_Connection s k srv node ok srv' st)
  then show ?case using put_connection_same [OF Put_Connection(4)] by (intro duties_same) auto
next
  case (Stop_Begin s k srv)
  then show ?case by (intro duties_same) auto
next
  case (Stop_Thread s k srv srv')
  then have "duties s k = Some Loop_Done" "loop_thread srv' = Joined"
    by (auto simp: duties_at stop_join_def split: loop_thread.splits)
  with Join [of "duties s" k] show ?case by (simp only: duties_upd r_into_rtranclp)
next
  case (Stop_Connection s k srv srv' st)
  then show ?case using stop_connection_same [OF Stop_Connection(4)] by (intro duties_same) auto
next
  case (Stop_End s k srv st)
  then have "duties s k = Some Joined" by (simp add: duties_at)
  with Leave [of "duties s" k] show ?case by (simp only: duties_upd r_into_rtranclp)
qed simp_all

interpretation turns: simulation server_step servers_ok duty_step duties
  by unfold_locales (auto intro: servers_ok_step server_step_duty)

text \<open>What the protocol alone shows: at most one thread has the duty, whatever else the servers do.\<close>

lemma duty_exclusive:
  "duty_step d d' \<Longrightarrow> (\<forall>i j. d i = Some Looping \<and> d j = Some Looping \<longrightarrow> i = j) \<Longrightarrow>
   \<forall>i j. d' i = Some Looping \<and> d' j = Some Looping \<longrightarrow> i = j"
  by (erule duty_stepE) auto

lemma turns_exclusive:
  assumes "server_step\<^sup>*\<^sup>* new_system s" and "duties s i = Some Looping" and "duties s j = Some Looping"
  shows "i = j"
proof -
  have "\<forall>i j. duties s i = Some Looping \<and> duties s j = Some Looping \<longrightarrow> i = j"
    by (rule turns.run_stable [OF duty_exclusive assms(1) servers_ok_new]) simp_all
  with assms(2,3) show ?thesis by blast
qed

section \<open>Who can take the duty\<close>

lemma hand_over_step:
  assumes "servers s j = Some srv" and "loop_thread srv = Looping" and "stop_flag srv"
  shows "server_step s (set_server j (srv\<lparr>loop_thread := Loop_Done\<rparr>)
    ((static s)\<lparr>listen_count := listen_count (static s) - 1\<rparr>) s)"
  by (rule Loop_Exit [of _ _ srv True]) (use assms in \<open>simp_all add: loop_leaves_def loop_exit_def\<close>)

lemma take_duty_step:
  assumes "servers s k = Some srv" and "loop_thread srv = Loop_Waiting" and "\<not> stop_flag srv"
    and "listen_count (static s) = 0"
  shows "server_step s (set_server k (srv\<lparr>loop_thread := Looping\<rparr>) ((static s)\<lparr>listen_count := 1\<rparr>) s)"
  by (rule Loop_Enter [of _ _ srv]) (use assms in \<open>simp_all add: loop_enter_def\<close>)

lemma count_zero: "servers_ok s \<Longrightarrow> (\<forall>j. duties s j \<noteq> Some Looping) \<Longrightarrow> listen_count (static s) = 0"
proof -
  assume ok: "servers_ok s" and none: "\<forall>j. duties s j \<noteq> Some Looping"
  have "looping s = {}" using none by (auto simp: looping_def duties_at)
  with ok show ?thesis by (simp add: servers_ok_def)
qed

lemma one_looping:
  assumes "servers_ok s" and "servers s j = Some srv" and "loop_thread srv = Looping"
  shows "listen_count (static s) = 1"
proof -
  have "finite (looping s)"
    using assms(1) finite_subset [OF looping_subset [of s]] by (simp add: servers_ok_def)
  moreover have "j \<in> looping s" using assms(2,3) by (simp add: looping_def)
  ultimately have "0 < card (looping s)" by (auto simp: card_gt_0_iff)
  then show ?thesis using assms(1) by (auto simp: servers_ok_def)
qed

section \<open>Properties\<close>

text \<open>C16: the epoll threads take turns: every run of the servers of all tasks, with their starts, events and stops, is
  a run of the protocol \<open>duty_step\<close>, in which a thread takes the duty only while nobody has it.\<close>

theorem servers_take_turns:
  assumes "server_step\<^sup>*\<^sup>* new_system s"
  shows "duty_step\<^sup>*\<^sup>* Map.empty (duties s)"
  using turns.run_sim [OF assms servers_ok_new] by simp

theorem servers_take_turns_witness:
  "\<exists>s. duty_step\<^sup>*\<^sup>* Map.empty (duties s) \<and> duties s 1 = Some Looping"
proof (rule reach_looping)
  fix s srv
  assume s: "server_step\<^sup>*\<^sup>* new_system s" "servers s 1 = Some srv" "loop_thread srv = Looping"
  from servers_take_turns [OF s(1)] s(2,3) show ?thesis by (auto simp: duties_at)
qed

text \<open>C17: the duty never lapses: in every reachable state with a server whose thread waits for its turn and whose task
  is not being stopped, the threads can go on, at most by a thread of a stopped task that returns and one that enters,
  to a state in which the thread of a task that is not being stopped handles the events.\<close>

theorem duty_never_lapses:
  assumes "server_step\<^sup>*\<^sup>* new_system s" and "servers s k = Some srv" and "loop_thread srv = Loop_Waiting"
    and "\<not> stop_flag srv"
  shows "\<exists>n s' j srv'. n \<le> 2 \<and> (server_step ^^ n) s s' \<and>
    servers s' j = Some srv' \<and> loop_thread srv' = Looping \<and> \<not> stop_flag srv'"
proof -
  have ok: "servers_ok s" by (rule servers_ok_reach [OF assms(1)])
  let ?srv' = "srv\<lparr>loop_thread := Looping\<rparr>"
  show ?thesis
  proof (cases "\<exists>j. duties s j = Some Looping")
    case False
    then have "server_step s (set_server k ?srv' ((static s)\<lparr>listen_count := 1\<rparr>) s)"
      using take_duty_step [OF assms(2-4)] count_zero [OF ok] by blast
    then show ?thesis using assms(4) by (intro exI [of _ 1] exI [of _ "set_server k _ _ s"] exI [of _ k] exI [of _ ?srv']) auto
  next
    case True
    then obtain j sj where j: "servers s j = Some sj" "loop_thread sj = Looping" by (auto simp: duties_at)
    show ?thesis
    proof (cases "stop_flag sj")
      case False
      with j show ?thesis by (intro exI [of _ 0] exI [of _ s] exI [of _ j] exI [of _ sj]) auto
    next
      case stop: True
      let ?st = "(static s)\<lparr>listen_count := listen_count (static s) - 1\<rparr>"
      let ?s1 = "set_server j (sj\<lparr>loop_thread := Loop_Done\<rparr>) ?st s"
      have count: "listen_count (static s) = 1"
        using one_looping [OF ok j] .
      have k: "servers ?s1 k = Some srv" using assms(2,3) j by auto
      have s1: "server_step s ?s1" by (rule hand_over_step [OF j stop])
      have s2: "server_step ?s1 (set_server k ?srv' ((static ?s1)\<lparr>listen_count := 1\<rparr>) ?s1)"
        using take_duty_step [OF k assms(3,4)] count by simp
      have "(server_step ^^ 2) s (set_server k ?srv' ((static ?s1)\<lparr>listen_count := 1\<rparr>) ?s1)"
        using s1 s2 by (auto simp: numeral_2_eq_2)
      then show ?thesis using assms(4)
        by (intro exI [of _ 2] exI [of _ "set_server k ?srv' ((static ?s1)\<lparr>listen_count := 1\<rparr>) ?s1"] exI [of _ k] exI [of _ ?srv']) simp
    qed
  qed
qed

theorem duty_never_lapses_witness:
  "\<exists>s j srv. server_step\<^sup>*\<^sup>* new_system s \<and> servers s j = Some srv \<and> loop_thread srv = Looping \<and> \<not> stop_flag srv"
proof -
  let ?srv = "(new_tcp_server [''c''])\<lparr>srv_task := ''t'', loop_thread := Loop_Waiting\<rparr>"
  let ?st = "new_server_static\<lparr>server_task_count := 1, stoped_flag := False, is_inited := True, listen_open := True\<rparr>"
  let ?s = "set_server 1 ?srv ?st new_system"
  have s: "server_step new_system ?s"
    by (rule Server_Start [of _ _ "''t''" True True "[''c'']" True])
      (simp_all add: new_system_def server_start_def new_server_static_def)
  then have r: "server_step\<^sup>*\<^sup>* new_system ?s" by blast
  have "servers ?s 1 = Some ?srv" "loop_thread ?srv = Loop_Waiting" "\<not> stop_flag ?srv" by (simp_all add: new_tcp_server_def)
  from duty_never_lapses [OF r this] r show ?thesis
    using relpowp_imp_rtranclp [of _ server_step] rtranclp_trans [of server_step] by meson
qed

end
