(* ===== verification/Network.thy ===== *)
theory Network
  imports Session_Progress Duty
begin

text \<open>
  A session together with the epoll threads and the epoll sets of its two nodes: bytes arrive at a node only while the
  connection is in its epoll set and the thread of some task has the duty there (\<open>Duty\<close>), and \<open>BasicIO\<close> orders what happens to a task: \<open>init\<close> starts the server before the
  connection; \<open>close\<close> stops the connections the node dialled before the server, while \<open>TCPServer::stop\<close> joins
  its epoll thread first and stops the connections the node accepted after that.

  Node \<open>True\<close> is the one that dialled the connection, node \<open>False\<close> the one that accepted it.
\<close>

section \<open>Steps\<close>

text \<open>Whether the connection is in the epoll set of the servers of a node. The node that accepted it has added it in
  \<open>handle_accept\<close>; on the node that dialled it the thread of \<open>BasicIO::init\<close> that made the connection adds it after the
  first task has started on it. The stop of the last task's server closes the epoll instance, and nothing adds a
  connection a second time.\<close>

datatype membership = Not_Added | Watched | Dropped

record network =
  sess :: session
  duty :: "bool \<Rightarrow> bytes duty"
  epoll :: "bool \<Rightarrow> membership"

definition new_network :: "(bool \<Rightarrow> connection) \<Rightarrow> network" where
  "new_network c = \<lparr>sess = new_session c, duty = (\<lambda>_. Map.empty), epoll = (\<lambda>x. if x then Not_Added else Watched)\<rparr>"

definition on_duty :: "bytes duty \<Rightarrow> bool" where
  "on_duty d \<longleftrightarrow> (\<exists>t. d t = Some Looping)"

definition serving :: "loop_thread option \<Rightarrow> bool" where
  "serving w \<longleftrightarrow> w = Some Loop_Waiting \<or> w = Some Looping \<or> w = Some Loop_Done"

text \<open>What a step of the session needs of the epoll threads: the bytes that arrive are read by one, a task is
  started on the connection after its server, and its stop begins before the thread is joined (dialled) or
  after that (accepted).\<close>

definition session_allowed :: "network \<Rightarrow> session \<Rightarrow> bool" where
  "session_allowed n s' \<longleftrightarrow>
    (\<forall>x. length (written s' (\<not> x)) < length (written (sess n) (\<not> x)) \<longrightarrow> on_duty (duty n x) \<and> epoll n x = Watched) \<and>
    (\<forall>x t. caller (ends (sess n) x) t = Idle \<and> caller (ends s' x) t \<noteq> Idle \<longrightarrow> serving (duty n x t)) \<and>
    (\<forall>x t. caller (ends (sess n) x) t \<noteq> Lock_Waiting \<and> caller (ends s' x) t = Lock_Waiting \<longrightarrow>
       (if x then serving (duty n x t) else duty n x t = Some Joined))"

text \<open>What a step of the epoll threads needs of the session: the thread of a task is joined when the task's dialled
  connections have been stopped and the accepted ones not yet; the server is gone after that.\<close>

definition duty_allowed :: "network \<Rightarrow> bool \<Rightarrow> bytes duty \<Rightarrow> bool" where
  "duty_allowed n x d' \<longleftrightarrow>
    (\<forall>t. duty n x t \<noteq> Some Joined \<and> d' t = Some Joined \<longrightarrow>
       caller (ends (sess n) x) t = Idle \<or> \<not> x \<and> caller (ends (sess n) x) t = Started) \<and>
    (\<forall>t. duty n x t \<noteq> None \<and> d' t = None \<longrightarrow> caller (ends (sess n) x) t = Idle)"

text \<open>The first task on the dialled connection has started, and its server has an epoll instance.\<close>

definition watch_allowed :: "network \<Rightarrow> bool" where
  "watch_allowed n \<longleftrightarrow> epoll n True = Not_Added \<and>
    (\<exists>t. caller (ends (sess n) True) t = Started \<and> serving (duty n True t))"

text \<open>The last server of a node stops: all stops on its connections have returned, no other task has a server, and the
  accepted connections are closed before the epoll instance. A connection that neither node has used yet has not been
  made.\<close>

definition drop_allowed :: "network \<Rightarrow> bool \<Rightarrow> bool" where
  "drop_allowed n x \<longleftrightarrow> (\<forall>t. caller (ends (sess n) x) t = Idle) \<and> (\<forall>t. \<not> serving (duty n x t)) \<and>
    (x \<or> state (conn (ends (sess n) x)) = Closed \<or> posted (sess n) = (\<lambda>_. []))"

definition drop_watch :: "network \<Rightarrow> bool \<Rightarrow> membership" where
  "drop_watch n x = (if epoll n x = Watched \<and> (x \<or> state (conn (ends (sess n) x)) = Closed) then Dropped else epoll n x)"

inductive net_step :: "network \<Rightarrow> network \<Rightarrow> bool" where
  Session_Part: "session_step (sess n) s' \<Longrightarrow> session_allowed n s' \<Longrightarrow> net_step n (n\<lparr>sess := s'\<rparr>)"
| Duty_Part: "duty_step (duty n x) d' \<Longrightarrow> duty_allowed n x d' \<Longrightarrow> net_step n (n\<lparr>duty := (duty n)(x := d')\<rparr>)"
| Watch_Part: "watch_allowed n \<Longrightarrow> net_step n (n\<lparr>epoll := (epoll n)(True := Watched)\<rparr>)"
| Drop_Part: "drop_allowed n x \<Longrightarrow> net_step n (n\<lparr>epoll := (epoll n)(x := drop_watch n x)\<rparr>)"

inductive_cases net_stepE: "net_step n n'"

text \<open>A run in which no new task starts its server at node \<open>x\<close>.\<close>

definition quiet_step :: "bool \<Rightarrow> network \<Rightarrow> network \<Rightarrow> bool" where
  "quiet_step x n n' \<longleftrightarrow> net_step n n' \<and> (\<forall>t. duty n x t = None \<longrightarrow> duty n' x t = None)"

section \<open>What a network shares with its parts\<close>

lemma net_step_session: "net_step n n' \<Longrightarrow> session_step\<^sup>*\<^sup>* (sess n) (sess n')"
  by (erule net_stepE) auto

lemma net_step_duty: "net_step n n' \<Longrightarrow> duty_step\<^sup>*\<^sup>* (duty n x) (duty n' x)"
  by (erule net_stepE) auto

lemma net_reach_session:
  "net_step\<^sup>*\<^sup>* (new_network c) n \<Longrightarrow> session_step\<^sup>*\<^sup>* (new_session c) (sess n)"
proof (induction rule: rtranclp_induct)
  case (step y z)
  then show ?case using net_step_session rtranclp_trans by metis
qed (simp add: new_network_def)

lemma net_reach_inv:
  assumes "net_step\<^sup>*\<^sup>* (new_network (\<lambda>x. new_connection (f x) (ev x) (srv x) (p x))) n"
  shows "session_inv (sess n)"
  by (rule session_reach(1) [OF net_reach_session [OF assms] new_connections_ok(1,2)])

section \<open>A node without an epoll thread\<close>

text \<open>Nothing of the lock message of \<open>t\<close> has reached node \<open>x\<close>, and nobody there can read it: the tasks' threads have
  returned.\<close>

definition unread :: "connection \<Rightarrow> bytes \<Rightarrow> bool" where
  "unread c i \<longleftrightarrow> cb_repr (buffer c) [] \<and> (\<exists>ms. streams (mapbuffer c) ms \<and> ms i = [])"

definition deaf :: "network \<Rightarrow> bool \<Rightarrow> bytes \<Rightarrow> bool" where
  "deaf n x t \<longleftrightarrow> caller (ends (sess n) x) t = Lock_Waiting \<and> unread (conn (ends (sess n) x)) (lock_id t) \<and>
     in_hand (sess n) x = Map.empty \<and> (\<forall>u. duty n x u \<notin> {Some Loop_Waiting, Some Looping})"

lemma unread_same:
  "unread c i \<Longrightarrow> buffer c' = buffer c \<Longrightarrow> mapbuffer c' = mapbuffer c \<Longrightarrow> unread c' i"
  by (simp add: unread_def)

lemma sending_leaves_receipts:
  "send_msg c j d = Inr (k, c') \<Longrightarrow> buffer c' = buffer c \<and> mapbuffer c' = mapbuffer c"
  "start_lock t c = Inr c' \<Longrightarrow> buffer c' = buffer c \<and> mapbuffer c' = mapbuffer c"
  "send_step t c = Inr (Stepped (d, c')) \<Longrightarrow> buffer c' = buffer c \<and> mapbuffer c' = mapbuffer c"
  by (auto simp: start_lock_def send_msg_def put_into_send_buffer_def send_step_def bindE_eq_Inr Let_def
      split: if_splits)

lemma streams_unique: "streams mb ms \<Longrightarrow> streams mb ms' \<Longrightarrow> ms i = ms' i"
  by (cases "std_find mb i") (auto simp: streams_none dest: streams_at [of mb ms i] streams_at [of mb ms' i] cb_repr_unique)

lemma unread_repr:
  assumes "conn_repr c rq ms sq"
  shows "unread c i \<longleftrightarrow> rq = [] \<and> ms i = []"
proof -
  have r: "cb_repr (buffer c) rq" "streams (mapbuffer c) ms" using assms by (simp_all add: conn_repr_def)
  have "ms i = []" if "streams (mapbuffer c) ms'" "ms' i = []" for ms'
    using streams_unique [OF r(2) that(1), of i] that(2) by simp
  moreover have "rq = []" if "cb_repr (buffer c) []" by (rule cb_repr_unique [OF r(1) that])
  ultimately show ?thesis using r unfolding unread_def by blast
qed

text \<open>What node \<open>x\<close> can do while it is deaf.\<close>

lemma deaf_step:
  assumes "quiet_step x n n'" and "session_inv (sess n)" and "deaf n x t"
  shows "deaf n' x t"
proof -
  obtain rq ms sq fl h where at: "\<And>z. session_at (sess n) rq ms sq fl h z"
    using assms(2) unfolding session_inv_def by blast
  note repr = session_atD(2) [OF at [of x]]
  have waits: "caller (ends (sess n) x) t = Lock_Waiting" and un: "unread (conn (ends (sess n) x)) (lock_id t)"
    and hand: "in_hand (sess n) x = Map.empty" and off: "\<And>u. duty n x u \<notin> {Some Loop_Waiting, Some Looping}"
    using assms(3) by (auto simp: deaf_def)
  have rq: "rq x = []" "ms x (lock_id t) = []" using un unread_repr [OF repr] by simp_all
  have mtx: "task_mtx (ends (sess n) x) = Some t" using sched_invD(5) [OF session_atD(1) [OF at [of x]]] waits by simp
  have step: "net_step n n'" using assms(1) by (simp add: quiet_step_def)
  then show ?thesis
  proof cases
    case (Duty_Part y d')
    have "d' u \<notin> {Some Loop_Waiting, Some Looping}" if "y = x" for u
      using Duty_Part(2) off [of u] assms(1) that Duty_Part(1)
      by (cases rule: duty_step.cases) (auto simp: quiet_step_def fun_upd_apply split: if_splits)
    then show ?thesis using assms(3) Duty_Part(1) by (auto simp: deaf_def)
  next
    case (Session_Part s')
    have still: "length (written s' (\<not> x)) \<ge> length (written (sess n) (\<not> x))"
      using Session_Part(3) off by (force simp: session_allowed_def on_duty_def)
    have "caller (ends s' x) t = Lock_Waiting \<and> unread (conn (ends s' x)) (lock_id t) \<and> in_hand s' x = Map.empty"
      using Session_Part(2)
    proof cases
      case (Control y m)
      then show ?thesis using waits un hand by (auto simp: control_step_def intro: unread_same)
    next
      case (Task_Start y v c)
      have "y \<noteq> x" by (rule notI) (use Task_Start(3) mtx in simp)
      then show ?thesis using Task_Start(1) waits un hand by simp
    next
      case (Task_Stop y v k data c)
      have "y \<noteq> x"
      proof
        assume y: "y = x"
        then have "v = t" using sched_invD(5) [OF session_atD(1) [OF at [of x]]] mtx Task_Stop(2) by simp
        with conn_recv_takes [OF repr] lock_recv(1) [OF repr] Task_Stop(3) y rq show False by fastforce
      qed
      then show ?thesis using Task_Stop waits un hand by simp
    next
      case (Post i d y k c)
      then show ?thesis using waits un hand sending_leaves_receipts(1) [OF Post(5)]
        by (auto intro: unread_same)
    next
      case (Fetch i tmp el y len tmo k data c)
      have "unread c (lock_id t)" if "y = x"
        using conn_recv_takes [OF repr, of tmp el i len tmo k data c] Fetch(3,4) rq unread_repr that by auto
      then show ?thesis using Fetch(1) waits un hand by auto
    next
      case (Take y v data c)
      then show ?thesis using waits un hand sending_leaves_receipts(3) [OF Take(4)]
        by (auto intro: unread_same)
    next
      case (Arrive y data rest c)
      have "unread c (lock_id t)" if "y = x"
      proof -
        have "data = []" using still Arrive(1,2) that by simp
        with conn_write_ok [OF repr, of "[]"] Arrive(3) rq that unread_repr show ?thesis by (auto simp: cb_limit_def)
      qed
      then show ?thesis using Arrive(1) waits un hand by auto
    next
      case (Unpack y v i d c)
      have "y \<noteq> x"
        by (rule notI) (use unpack_message_ok [OF repr, of v i d c] Unpack(4) rq in \<open>simp add: frame_ready_def\<close>)
      then show ?thesis using Unpack(1) waits un hand by simp
    next
      case (Store y v i d c)
      have "y \<noteq> x" by (rule notI) (use Store(2) hand in simp)
      then show ?thesis using Store(1) waits un hand by simp
    next
      case (Close y data c out rest k)
      have "y \<noteq> x" by (rule notI) (use Close(2) [of t] waits in simp)
      then show ?thesis using Close(1) waits un hand by simp
    qed (use waits un hand in auto)
    then show ?thesis using Session_Part(1) off by (simp add: deaf_def)
  qed (use assms(3) in \<open>simp_all add: deaf_def\<close>)
qed

lemma deaf_steps:
  assumes "(quiet_step x)\<^sup>*\<^sup>* n n'" and "session_inv (sess n)" and "deaf n x t"
  shows "deaf n' x t \<and> session_inv (sess n')"
  using assms(1)
proof (induction rule: rtranclp_induct)
  case (step y z)
  then have "session_step\<^sup>*\<^sup>* (sess y) (sess z)" using net_step_session by (simp add: quiet_step_def)
  then have "session_inv (sess z)" using step(3)
    by (induction rule: rtranclp_induct) (auto intro: session_inv_step)
  with deaf_step [OF step(2)] step(3) show ?case by simp
qed (use assms(2,3) in simp)

section \<open>A node with an epoll thread\<close>

lemma take_duty_allowed: "duty_allowed n x ((duty n x)(t \<mapsto> Looping))"
  by (auto simp: duty_allowed_def split: if_splits)

text \<open>The node can get to read what arrives on the connection.\<close>

definition can_read :: "network \<Rightarrow> bool \<Rightarrow> bool" where
  "can_read n x \<longleftrightarrow> epoll n x = Watched \<and> (\<exists>t. duty n x t = Some Loop_Waiting \<or> duty n x t = Some Looping)"

lemma take_duty_at:
  obtains n' where "net_step\<^sup>*\<^sup>* n n'" "sess n' = sess n" "epoll n' = epoll n" "duty n' (\<not> x) = duty n (\<not> x)"
    "can_read n x \<Longrightarrow> on_duty (duty n' x)"
proof (cases "can_read n x \<and> \<not> on_duty (duty n x)")
  case True
  then obtain t where t: "duty n x t = Some Loop_Waiting" "\<forall>j. duty n x j \<noteq> Some Looping"
    by (auto simp: can_read_def on_duty_def)
  let ?n = "n\<lparr>duty := (duty n)(x := (duty n x)(t \<mapsto> Looping))\<rparr>"
  have "net_step n ?n" using Take_Duty [OF t] take_duty_allowed by (rule Duty_Part)
  then have "net_step\<^sup>*\<^sup>* n ?n" by (rule r_into_rtranclp [of net_step])
  then show thesis by (rule that) (auto simp: on_duty_def)
qed (use that [of n] in auto)

lemma take_duties:
  obtains n' where "net_step\<^sup>*\<^sup>* n n'" "sess n' = sess n" "epoll n' = epoll n" "\<And>x. can_read n x \<Longrightarrow> on_duty (duty n' x)"
proof -
  obtain m where m: "net_step\<^sup>*\<^sup>* n m" "sess m = sess n" "epoll m = epoll n" "duty m False = duty n False"
    "can_read n True \<Longrightarrow> on_duty (duty m True)"
    using take_duty_at [of n True] by auto
  obtain k where k: "net_step\<^sup>*\<^sup>* m k" "sess k = sess m" "epoll k = epoll m" "duty k True = duty m True"
    "can_read m False \<Longrightarrow> on_duty (duty k False)"
    using take_duty_at [of m False] by auto
  have "on_duty (duty k x)" if "can_read n x" for x
    using that m(3-5) k(4,5) by (cases x) (auto simp: can_read_def)
  moreover have "net_step\<^sup>*\<^sup>* n k" using m(1) k(1) by (rule rtranclp_trans)
  ultimately show thesis by (intro that [of k]) (use m(2,3) k(2,3) in simp_all)
qed

text \<open>A run of the threads of a session is one of the network when every end that reads has a thread on duty.\<close>

lemma going_network:
  assumes "(going R)\<^sup>*\<^sup>* (sess n) s'" and "\<And>x. R x \<Longrightarrow> on_duty (duty n x) \<and> epoll n x = Watched"
  shows "net_step\<^sup>*\<^sup>* n (n\<lparr>sess := s'\<rparr>)"
  using assms(1)
proof (induction rule: rtranclp_induct)
  case (step y z)
  let ?n = "n\<lparr>sess := y\<rparr>"
  have g: "session_step y z" "\<And>x. R x \<or> length (written y (\<not> x)) \<le> length (written z (\<not> x))"
    "\<And>x t. caller (ends y x) t = Idle \<Longrightarrow> caller (ends z x) t = Idle"
    "\<And>x t. caller (ends z x) t = Lock_Waiting \<Longrightarrow> caller (ends y x) t = Lock_Waiting"
    using step(2) unfolding going_def by blast+
  have "R x" if "length (written z (\<not> x)) < length (written y (\<not> x))" for x
    using g(2) [of x] that by auto
  with assms(2) g(3,4) have "session_allowed ?n z" unfolding session_allowed_def by (auto split: if_splits)
  with g(1) have "net_step ?n (?n\<lparr>sess := z\<rparr>)" by (intro Session_Part) simp_all
  then have "net_step ?n (n\<lparr>sess := z\<rparr>)" by simp
  with step(3) show ?case by (rule rtranclp.rtrancl_into_rtrancl)
qed simp

lemma readers_run:
  obtains n' where "net_step\<^sup>*\<^sup>* n n'" "sess n' = sess n"
    "\<And>s'. (going (can_read n))\<^sup>*\<^sup>* (sess n) s' \<Longrightarrow> net_step\<^sup>*\<^sup>* n (n'\<lparr>sess := s'\<rparr>)"
proof -
  obtain n' where n': "net_step\<^sup>*\<^sup>* n n'" "sess n' = sess n" "epoll n' = epoll n" "\<And>x. can_read n x \<Longrightarrow> on_duty (duty n' x)"
    using take_duties by blast
  have "net_step\<^sup>*\<^sup>* n (n'\<lparr>sess := s'\<rparr>)" if "(going (can_read n))\<^sup>*\<^sup>* (sess n) s'" for s'
    using rtranclp_trans [OF n'(1) going_network [of "can_read n" n' s']] that n'(2-4) by (simp add: can_read_def)
  with n'(1,2) show thesis by (rule that)
qed

text \<open>On the node that dialled, the thread of a task outlives the task's use of the connection.\<close>

definition dialled_served :: "network \<Rightarrow> bool" where
  "dialled_served n \<longleftrightarrow> (\<forall>t. caller (ends (sess n) True) t \<noteq> Idle \<longrightarrow> serving (duty n True t))"

lemma serving_step:
  assumes "duty_step d d'" and "serving (d t)"
  shows "serving (d' t) \<or> d t \<noteq> Some Joined \<and> d' t = Some Joined"
  using assms by (cases rule: duty_step.cases) (auto simp: serving_def)

lemma dialled_served_step:
  assumes "net_step n n'" and "dialled_served n"
  shows "dialled_served n'"
  using assms(1)
proof cases
  case (Session_Part s')
  then show ?thesis using assms(2) unfolding dialled_served_def session_allowed_def by simp metis
next
  case (Duty_Part x d')
  have "serving (d' t)" if "x" "caller (ends (sess n) True) t \<noteq> Idle" for t
  proof -
    have "serving (duty n True t)" using assms(2) that(2) by (simp add: dialled_served_def)
    moreover have "d' t \<noteq> Some Joined \<or> duty n True t = Some Joined"
      using Duty_Part(3) that by (auto simp: duty_allowed_def)
    ultimately show ?thesis using serving_step [OF Duty_Part(2), of t] that(1) by auto
  qed
  then show ?thesis using Duty_Part(1) assms(2) by (cases x) (auto simp: dialled_served_def)
qed (use assms(2) in \<open>simp_all add: dialled_served_def\<close>)

lemma dialled_served_reach: "net_step\<^sup>*\<^sup>* (new_network c) n \<Longrightarrow> dialled_served n"
proof (induction rule: rtranclp_induct)
  case base
  show ?case by (simp add: dialled_served_def new_network_def new_session_def new_sched_def)
qed (rule dialled_served_step)

section \<open>A task at one node\<close>

lemma plain_steps:
  assumes "plain_step\<^sup>*\<^sup>* (ends (sess n) x) m" and "in_flight (sess n) x = Map.empty" and "in_hand (sess n) x = Map.empty"
  shows "net_step\<^sup>*\<^sup>* n (n\<lparr>sess := (sess n)\<lparr>ends := (ends (sess n))(x := m)\<rparr>\<rparr>)"
  using assms(1)
proof (induction rule: rtranclp_induct)
  case (step a b)
  let ?n = "n\<lparr>sess := (sess n)\<lparr>ends := (ends (sess n))(x := a)\<rparr>\<rparr>"
  let ?s = "(sess ?n)\<lparr>ends := (ends (sess ?n))(x := b)\<rparr>"
  have ab: "control_step a b" "\<And>u. caller b u = Lock_Waiting \<Longrightarrow> caller a u = Lock_Waiting"
    "\<And>u. caller a u = Idle \<Longrightarrow> caller b u = Idle"
    using step(2) unfolding plain_step_def control_step_def by blast+
  have "control_step (ends (sess ?n) x) b" "mid_round_ok (sess ?n) x b"
    using ab(1) assms(2,3) by (simp_all add: mid_round_ok_def)
  then have "session_step (sess ?n) ?s" by (rule Control)
  moreover have "session_allowed ?n ?s" using ab(2,3) by (auto simp: session_allowed_def)
  ultimately have "net_step ?n (?n\<lparr>sess := ?s\<rparr>)" by (rule Session_Part)
  then have "net_step ?n (n\<lparr>sess := (sess n)\<lparr>ends := (ends (sess n))(x := b)\<rparr>\<rparr>)" by simp
  with step(3) show ?case by (rule rtranclp.rtrancl_into_rtrancl)
qed simp

text \<open>The server of a task starts and takes the duty.\<close>

lemma reach_duty:
  obtains n where "net_step\<^sup>*\<^sup>* (new_network c) n" "sess n = new_session c" "duty n x = [t \<mapsto> Looping]"
proof -
  let ?n0 = "new_network c" and ?d1 = "[t \<mapsto> Loop_Waiting]"
  let ?n1 = "?n0\<lparr>duty := (duty ?n0)(x := ?d1)\<rparr>"
  let ?n2 = "?n1\<lparr>duty := (duty ?n1)(x := [t \<mapsto> Looping])\<rparr>"
  have "duty_step (duty ?n0 x) ((duty ?n0 x)(t \<mapsto> Loop_Waiting))" by (rule Appear) (simp_all add: new_network_def)
  then have "net_step ?n0 ?n1" by (intro Duty_Part) (auto simp: duty_allowed_def new_network_def)
  moreover have "duty_step (duty ?n1 x) ((duty ?n1 x)(t \<mapsto> Looping))" by (rule Take_Duty) simp_all
  then have "net_step ?n1 ?n2" by (intro Duty_Part) (auto simp: duty_allowed_def)
  ultimately have "net_step\<^sup>*\<^sup>* ?n0 ?n2" by auto
  then show thesis by (rule that) (simp_all add: new_network_def)
qed

text \<open>A task starts on an end whose connection is fresh, whatever the other end has done.\<close>

lemma net_start:
  assumes "ends (sess n) x = new_sched c" and "posted (sess n) x = []" and "in_flight (sess n) x = Map.empty"
    and "in_hand (sess n) x = Map.empty" and "serving (duty n x t)" and "length (lock_id t) \<le> 254"
    and "stop_works c = []" and "conn_repr c [] (\<lambda>_. []) []" and "state c \<noteq> Closed"
  obtains k where "net_step\<^sup>*\<^sup>* n (n\<lparr>sess := (sess n)\<lparr>posted := (posted (sess n))(x := [(lock_id t, ''1'')]),
      ends := (ends (sess n))(x := k)\<rparr>\<rparr>)"
    "caller k t = Started" "task_mtx k = None" "unread (conn k) i"
proof -
  obtain m where m: "session_step (sess n) ((sess n)\<lparr>ends := (ends (sess n))(x := m),
      posted := (posted (sess n))(x := [(lock_id t, ''1'')])\<rparr>)"
    "caller m = (\<lambda>_. Idle)(t := Starting)" "worker m t = Absent" "task_mtx m = None" "stop_works (conn m) = []"
    "conn_repr (conn m) [] (\<lambda>_. []) (pack (lock_id t) ''1'')"
    using fresh_start [OF assms(1,2,8,7,6,9)] by blast
  let ?p = "(sess n)\<lparr>ends := (ends (sess n))(x := m), posted := (posted (sess n))(x := [(lock_id t, ''1'')])\<rparr>"
  let ?n = "n\<lparr>sess := ?p\<rparr>"
  have "session_allowed n ?p" using assms(1,5) m(2) by (auto simp: session_allowed_def new_sched_def)
  with m(1) have run1: "net_step n ?n" by (rule Session_Part)
  have start: "caller m t = Starting" using m(2) by simp
  obtain k where k: "plain_step\<^sup>*\<^sup>* m k" "caller k t = Started" "task_mtx k = None" "buffer (conn k) = buffer (conn m)"
      "mapbuffer (conn k) = mapbuffer (conn m)"
    using started_task_runs [OF start m(3-5)] by blast
  have "plain_step\<^sup>*\<^sup>* (ends (sess ?n) x) k" "in_flight (sess ?n) x = Map.empty" "in_hand (sess ?n) x = Map.empty"
    using k(1) assms(3,4) by simp_all
  from plain_steps [OF this] run1 have "net_step\<^sup>*\<^sup>* n (?n\<lparr>sess := (sess ?n)\<lparr>ends := (ends (sess ?n))(x := k)\<rparr>\<rparr>)"
    by (meson converse_rtranclp_into_rtranclp)
  moreover have "unread (conn k) i" by (rule unread_same [of "conn m"]) (use unread_repr [OF m(6)] k(4,5) in simp_all)
  ultimately show thesis using k(2,3) by (intro that [of k]) simp_all
qed

text \<open>The stop of a started task begins.\<close>

lemma net_stop:
  assumes "caller (ends (sess n) x) t = Started" and "task_mtx (ends (sess n) x) = None"
    and "in_flight (sess n) x = Map.empty" and "in_hand (sess n) x = Map.empty"
    and "if x then serving (duty n x t) else duty n x t = Some Joined"
  obtains k where "net_step n (n\<lparr>sess := (sess n)\<lparr>ends := (ends (sess n))(x := k)\<rparr>\<rparr>)" "caller k t = Lock_Waiting"
    "\<And>i. unread (conn (ends (sess n) x)) i \<Longrightarrow> unread (conn k) i"
proof -
  let ?m = "ends (sess n) x"
  let ?e = "set_caller t Lock_Waiting (?m\<lparr>conn := stop_count (conn ?m), task_mtx := Some t\<rparr>)"
  let ?p = "(sess n)\<lparr>ends := (ends (sess n))(x := ?e)\<rparr>"
  have "mid_round_ok (sess n) x ?e" using assms(3,4) by (simp add: mid_round_ok_def)
  with stop_begins [OF assms(1,2)] have "session_step (sess n) ?p" by (rule Control)
  moreover have "session_allowed n ?p" using assms(1,5) by (auto simp: session_allowed_def split: if_splits)
  ultimately have "net_step n (n\<lparr>sess := ?p\<rparr>)" by (rule Session_Part)
  moreover have "unread (conn ?e) i" if "unread (conn ?m) i" for i
    by (rule unread_same [OF that]) (simp_all add: stop_count_def)
  ultimately show thesis by (intro that [of ?e]) simp_all
qed

lemma reach_started:
  assumes "\<And>x. stop_works (c x) = []" and "\<And>x. conn_repr (c x) [] (\<lambda>_. []) []" and "\<And>x. state (c x) \<noteq> Closed"
    and "length (lock_id t) \<le> 254"
  obtains n where "net_step\<^sup>*\<^sup>* (new_network c) n" "duty n x = [t \<mapsto> Looping]" "caller (ends (sess n) x) t = Started"
    "task_mtx (ends (sess n) x) = None" "unread (conn (ends (sess n) x)) i"
    "in_flight (sess n) x = Map.empty" "in_hand (sess n) x = Map.empty"
proof -
  obtain n where n: "net_step\<^sup>*\<^sup>* (new_network c) n" "sess n = new_session c" "duty n x = [t \<mapsto> Looping]"
    using reach_duty by blast
  have s: "ends (sess n) x = new_sched (c x)" "posted (sess n) x = []" "in_flight (sess n) x = Map.empty"
    "in_hand (sess n) x = Map.empty" "serving (duty n x t)" using n(2,3) by (simp_all add: new_session_def serving_def)
  obtain k where k: "net_step\<^sup>*\<^sup>* n (n\<lparr>sess := (sess n)\<lparr>posted := (posted (sess n))(x := [(lock_id t, ''1'')]),
      ends := (ends (sess n))(x := k)\<rparr>\<rparr>)"
    "caller k t = Started" "task_mtx k = None" "unread (conn k) i"
    by (rule net_start [OF s assms(4,1-3)])
  show thesis by (rule that [OF rtranclp_trans [OF n(1) k(1)]]) (use k n(3) s(3,4) in simp_all)
qed

text \<open>On the node that accepted, \<open>stop\<close> joins the thread of the task and only then waits for the lock message.\<close>

lemma reach_deaf:
  assumes "\<And>x. stop_works (c x) = []" and "\<And>x. conn_repr (c x) [] (\<lambda>_. []) []" and "\<And>x. state (c x) \<noteq> Closed"
    and "length (lock_id t) \<le> 254"
  obtains n where "net_step\<^sup>*\<^sup>* (new_network c) n" "deaf n False t"
proof -
  obtain n where n: "net_step\<^sup>*\<^sup>* (new_network c) n" "duty n False = [t \<mapsto> Looping]"
    "caller (ends (sess n) False) t = Started" "task_mtx (ends (sess n) False) = None"
    "unread (conn (ends (sess n) False)) (lock_id t)"
    "in_flight (sess n) False = Map.empty" "in_hand (sess n) False = Map.empty"
    using reach_started [of c t False "lock_id t"] assms by blast
  let ?n1 = "n\<lparr>duty := (duty n)(False := [t \<mapsto> Loop_Done])\<rparr>"
  let ?n2 = "?n1\<lparr>duty := (duty ?n1)(False := [t \<mapsto> Joined])\<rparr>"
  have "duty_step (duty n False) ((duty n False)(t \<mapsto> Loop_Done))" by (rule Hand_Over) (simp add: n(2))
  then have d1: "net_step n ?n1" by (intro Duty_Part) (auto simp: n(2) duty_allowed_def)
  have "duty_step (duty ?n1 False) ((duty ?n1 False)(t \<mapsto> Joined))" by (rule Join) simp
  then have d2: "net_step ?n1 ?n2" by (intro Duty_Part) (auto simp: n(3) duty_allowed_def)
  obtain k where k: "net_step ?n2 (?n2\<lparr>sess := (sess ?n2)\<lparr>ends := (ends (sess ?n2))(False := k)\<rparr>\<rparr>)"
    "caller k t = Lock_Waiting" "unread (conn k) (lock_id t)"
    by (rule net_stop [of ?n2 False t]) (use n in simp_all)
  from n(1) d1 d2 k(1) have
    "net_step\<^sup>*\<^sup>* (new_network c) (?n2\<lparr>sess := (sess ?n2)\<lparr>ends := (ends (sess ?n2))(False := k)\<rparr>\<rparr>)"
    by (meson rtranclp.rtrancl_into_rtrancl)
  then show thesis by (rule that) (use k(2,3) n(7) in \<open>simp add: deaf_def\<close>)
qed

text \<open>Both ends stop a task, one of them has sent a message, and a thread of another task can read for the node that
  accepted.\<close>

lemma server_appears:
  "duty n x t = None \<Longrightarrow> net_step n (n\<lparr>duty := (duty n)(x := (duty n x)(t \<mapsto> Loop_Waiting))\<rparr>)"
  by (rule Duty_Part [OF Appear]) (auto simp: duty_allowed_def split: if_splits)

lemma thread_leaves:
  assumes "duty n False t = Some Loop_Waiting" and "caller (ends (sess n) False) t = Started"
  shows "net_step\<^sup>*\<^sup>* n (n\<lparr>duty := (duty n)(False := (duty n False)(t \<mapsto> Joined))\<rparr>)"
proof -
  let ?n = "n\<lparr>duty := (duty n)(False := (duty n False)(t \<mapsto> Loop_Done))\<rparr>"
  have "net_step n ?n"
    by (rule Duty_Part [OF Decline]) (use assms(1) in \<open>auto simp: duty_allowed_def split: if_splits\<close>)
  moreover have "duty_step (duty ?n False) ((duty ?n False)(t \<mapsto> Joined))" by (rule Join) simp
  then have "net_step ?n (?n\<lparr>duty := (duty ?n)(False := (duty ?n False)(t \<mapsto> Joined))\<rparr>)"
    by (rule Duty_Part) (use assms(2) in \<open>auto simp: duty_allowed_def split: if_splits\<close>)
  ultimately show ?thesis by (simp add: converse_rtranclp_into_rtranclp r_into_rtranclp)
qed

lemma net_post:
  assumes "session_inv (sess n)" and "msg_ok (i, d)" and "\<not> is_lock_id i"
    and "length (frames (posted (sess n) x @ [(i, d)])) \<le> cb_limit" and "state (conn (ends (sess n) x)) \<noteq> Closed"
  obtains c where "net_step n (n\<lparr>sess := (with_conn x c (sess n))\<lparr>posted := (posted (sess n))(x := posted (sess n) x @ [(i, d)])\<rparr>\<rparr>)"
proof -
  obtain k c where "send_msg (conn (ends (sess n) x)) i d = Inr (k, c)"
    using send_succeeds [OF assms(1,2,4)] by blast
  from Post [OF assms(2-4) this assms(5)] have
    "session_step (sess n) ((with_conn x c (sess n))\<lparr>posted := (posted (sess n))(x := posted (sess n) x @ [(i, d)])\<rparr>)" .
  then show thesis by (intro that [of c] Session_Part) (auto simp: session_allowed_def)
qed

lemma net_then: "net_step\<^sup>*\<^sup>* n n1 \<Longrightarrow> net_step n1 n2 \<Longrightarrow> net_step\<^sup>*\<^sup>* n n2"
  by (rule rtranclp.rtrancl_into_rtrancl)

lemma reach_both_started:
  assumes "\<And>x. stop_works (c x) = []" and "\<And>x. conn_repr (c x) [] (\<lambda>_. []) []" and "\<And>x. state (c x) \<noteq> Closed"
    and "length (lock_id t) \<le> 254"
  obtains n where "net_step\<^sup>*\<^sup>* (new_network c) n" "\<And>x. caller (ends (sess n) x) t = Started"
    "\<And>x. task_mtx (ends (sess n) x) = None" "posted (sess n) = (\<lambda>_. [(lock_id t, ''1'')])"
    "\<And>x. in_flight (sess n) x = Map.empty" "\<And>x. in_hand (sess n) x = Map.empty" "lost (sess n) = (\<lambda>_. [])"
    "\<And>x. duty n x = [t \<mapsto> Loop_Waiting]" "epoll n = (\<lambda>x. if x then Not_Added else Watched)"
proof -
  let ?n0 = "new_network c"
  let ?n1 = "?n0\<lparr>duty := (duty ?n0)(True := [t \<mapsto> Loop_Waiting])\<rparr>"
  let ?n2 = "?n1\<lparr>duty := (duty ?n1)(False := [t \<mapsto> Loop_Waiting])\<rparr>"
  have "net_step ?n0 ?n1" "net_step ?n1 ?n2"
    using server_appears [of ?n0 True t] server_appears [of ?n1 False t] by (simp_all add: new_network_def)
  then have r2: "net_step\<^sup>*\<^sup>* ?n0 ?n2" by (meson converse_rtranclp_into_rtranclp r_into_rtranclp)
  have f2: "ends (sess ?n2) x = new_sched (c x)" "posted (sess ?n2) x = []" "in_flight (sess ?n2) x = Map.empty"
    "in_hand (sess ?n2) x = Map.empty" "lost (sess ?n2) = (\<lambda>_. [])" "duty ?n2 x = [t \<mapsto> Loop_Waiting]"
    "epoll ?n2 = (\<lambda>x. if x then Not_Added else Watched)" for x
    by (simp_all add: new_network_def new_session_def)
  obtain n2 where n2: "net_step\<^sup>*\<^sup>* ?n0 n2" "\<And>x. ends (sess n2) x = new_sched (c x)" "\<And>x. posted (sess n2) x = []"
    "\<And>x. in_flight (sess n2) x = Map.empty" "\<And>x. in_hand (sess n2) x = Map.empty" "lost (sess n2) = (\<lambda>_. [])"
    "\<And>x. duty n2 x = [t \<mapsto> Loop_Waiting]" "epoll n2 = (\<lambda>x. if x then Not_Added else Watched)"
    by (rule that [of ?n2, OF r2 f2])
  have srv: "serving (duty n2 x t)" for x using n2(7) by (simp add: serving_def)
  obtain k where k: "net_step\<^sup>*\<^sup>* n2 (n2\<lparr>sess := (sess n2)\<lparr>posted := (posted (sess n2))(True := [(lock_id t, ''1'')]),
      ends := (ends (sess n2))(True := k)\<rparr>\<rparr>)" "caller k t = Started" "task_mtx k = None"
    by (rule net_start [OF n2(2-5) srv assms(4,1-3)])
  let ?n3 = "n2\<lparr>sess := (sess n2)\<lparr>posted := (posted (sess n2))(True := [(lock_id t, ''1'')]), ends := (ends (sess n2))(True := k)\<rparr>\<rparr>"
  obtain j where j: "net_step\<^sup>*\<^sup>* ?n3 (?n3\<lparr>sess := (sess ?n3)\<lparr>posted := (posted (sess ?n3))(False := [(lock_id t, ''1'')]),
      ends := (ends (sess ?n3))(False := j)\<rparr>\<rparr>)" "caller j t = Started" "task_mtx j = None"
    by (rule net_start [of ?n3 False "c False" t]) (use n2 srv assms in simp_all)
  let ?n4 = "?n3\<lparr>sess := (sess ?n3)\<lparr>posted := (posted (sess ?n3))(False := [(lock_id t, ''1'')]), ends := (ends (sess ?n3))(False := j)\<rparr>\<rparr>"
  have r4: "net_step\<^sup>*\<^sup>* ?n0 ?n4" using n2(1) k(1) j(1) by (meson rtranclp_trans)
  show thesis by (rule that [of ?n4, OF r4]) (use n2 k(2,3) j(2,3) in \<open>auto simp: fun_eq_iff\<close>)
qed

lemma reach_agreed:
  assumes "\<And>x. stop_works (c x) = []" and "\<And>x. conn_repr (c x) [] (\<lambda>_. []) []" and "\<And>x. state (c x) \<noteq> Closed"
    and "length (lock_id t) \<le> 254" and "t \<noteq> u" and "msg_ok m" and "\<not> is_lock_id (fst m)"
    and "length (frames [(lock_id t, ''1''), m]) \<le> cb_limit"
  obtains n where "net_step\<^sup>*\<^sup>* (new_network c) n" "\<And>x. caller (ends (sess n) x) t = Lock_Waiting"
    "posted (sess n) True = [(lock_id t, ''1'')]" "posted (sess n) False = [(lock_id t, ''1''), m]"
    "lost (sess n) = (\<lambda>_. [])" "\<And>x. can_read n x"
proof -
  let ?new = "new_network c"
  obtain n4 where n4: "net_step\<^sup>*\<^sup>* ?new n4" "\<And>x. caller (ends (sess n4) x) t = Started" "\<And>x. task_mtx (ends (sess n4) x) = None"
    "posted (sess n4) = (\<lambda>_. [(lock_id t, ''1'')])" "\<And>x. in_flight (sess n4) x = Map.empty"
    "\<And>x. in_hand (sess n4) x = Map.empty" "lost (sess n4) = (\<lambda>_. [])" "\<And>x. duty n4 x = [t \<mapsto> Loop_Waiting]"
    "epoll n4 = (\<lambda>x. if x then Not_Added else Watched)"
    by (rule reach_both_started [of c, OF assms(1-4)]) (rule that)
  let ?n5 = "n4\<lparr>epoll := (epoll n4)(True := Watched)\<rparr>"
  have "watch_allowed n4" using n4(2,8,9) by (auto simp: watch_allowed_def serving_def)
  then have s5: "net_step n4 ?n5" by (rule Watch_Part)
  let ?n6 = "?n5\<lparr>duty := (duty ?n5)(False := (duty ?n5 False)(t \<mapsto> Joined))\<rparr>"
  have s6: "net_step\<^sup>*\<^sup>* ?n5 ?n6" by (rule thread_leaves) (use n4(2,8) in simp_all)
  let ?n7 = "?n6\<lparr>duty := (duty ?n6)(False := (duty ?n6 False)(u \<mapsto> Loop_Waiting))\<rparr>"
  have s7: "net_step ?n6 ?n7" by (rule server_appears) (use n4(8) assms(5) in simp)
  have r7: "net_step\<^sup>*\<^sup>* ?new ?n7" using n4(1) s5 s6 s7 by (meson rtranclp.rtrancl_into_rtrancl rtranclp_trans)
  have inv: "session_ok (sess ?n7)"
    using net_reach_session [OF r7] session_reach(1) closed_ok_reach assms(1-3) by (simp only: session_ok_def) blast
  obtain n7 where n7: "net_step\<^sup>*\<^sup>* ?new n7" "\<And>x. caller (ends (sess n7) x) t = Started" "\<And>x. task_mtx (ends (sess n7) x) = None"
    "posted (sess n7) = (\<lambda>_. [(lock_id t, ''1'')])" "\<And>x. in_flight (sess n7) x = Map.empty"
    "\<And>x. in_hand (sess n7) x = Map.empty" "lost (sess n7) = (\<lambda>_. [])" "duty n7 True t = Some Loop_Waiting"
    "duty n7 False t = Some Joined" "duty n7 False u = Some Loop_Waiting" "\<And>x. epoll n7 x = Watched" "session_ok (sess n7)"
    by (rule that [of ?n7, OF r7]) (use n4 inv assms(5) in simp_all)
  have "state (conn (ends (sess n7) False)) \<noteq> Closed"
    using closed_okD(3) [OF session_okD(2) [OF n7(12)], of False t] n7(2) by auto
  then obtain e where e: "net_step n7 (n7\<lparr>sess := (with_conn False e (sess n7))\<lparr>posted := (posted (sess n7))(False := posted (sess n7) False @ [m])\<rparr>\<rparr>)"
    using net_post [OF session_okD(1) [OF n7(12)], of "fst m" "snd m" False] assms(6-8) n7(4) by auto
  let ?n8 = "n7\<lparr>sess := (with_conn False e (sess n7))\<lparr>posted := (posted (sess n7))(False := posted (sess n7) False @ [m])\<rparr>\<rparr>"
  obtain a where a: "net_step ?n8 (?n8\<lparr>sess := (sess ?n8)\<lparr>ends := (ends (sess ?n8))(True := a)\<rparr>\<rparr>)" "caller a t = Lock_Waiting"
    by (rule net_stop [of ?n8 True t]) (use n7 in \<open>simp_all add: serving_def\<close>)
  let ?n9 = "?n8\<lparr>sess := (sess ?n8)\<lparr>ends := (ends (sess ?n8))(True := a)\<rparr>\<rparr>"
  obtain b where b: "net_step ?n9 (?n9\<lparr>sess := (sess ?n9)\<lparr>ends := (ends (sess ?n9))(False := b)\<rparr>\<rparr>)" "caller b t = Lock_Waiting"
    by (rule net_stop [of ?n9 False t]) (use n7 in simp_all)
  let ?n = "?n9\<lparr>sess := (sess ?n9)\<lparr>ends := (ends (sess ?n9))(False := b)\<rparr>\<rparr>"
  have run: "net_step\<^sup>*\<^sup>* ?new ?n" by (rule net_then [OF net_then [OF net_then [OF n7(1) e] a(1)] b(1)])
  have reads: "can_read ?n x" for x using n7(8,10,11) by (cases x) (auto simp: can_read_def)
  have waits: "caller (ends (sess ?n) x) t = Lock_Waiting" for x using a(2) b(2) by (cases x) simp_all
  show thesis by (rule that [OF run waits _ _ _ reads]) (use n7(4,7) in simp_all)
qed

section \<open>Properties\<close>





text \<open>Stopping a server can hang for good: on the node that accepted the connection \<open>TCPServer::stop\<close> joins the
  epoll thread first. When the lock message of the peer has not been read by then and no other task's thread is left,
  the stop of the task waits in every later state, whatever the peer does, unless a new task starts its server.\<close>

theorem server_stop_hangs:
  assumes "net_step\<^sup>*\<^sup>* (new_network (\<lambda>x. new_connection (f x) (ev x) (srv x) (p x))) n" and "deaf n False t"
    and "(quiet_step False)\<^sup>*\<^sup>* n n'"
  shows "caller (ends (sess n') False) t = Lock_Waiting"
  using deaf_steps [OF assms(3) net_reach_inv [OF assms(1)] assms(2)] by (simp add: deaf_def)

theorem server_stop_hangs_witness:
  "\<exists>n. net_step\<^sup>*\<^sup>* (new_network (\<lambda>_. new_connection 3 0 False ''peer'')) n \<and>
     (\<forall>n'. (quiet_step False)\<^sup>*\<^sup>* n n' \<longrightarrow> caller (ends (sess n') False) ''t'' = Lock_Waiting)"
proof (rule reach_deaf [of "\<lambda>_. new_connection 3 0 False ''peer''" "''t''", OF new_connections_ok])
  fix n
  assume n: "net_step\<^sup>*\<^sup>* (new_network (\<lambda>_. new_connection 3 0 False ''peer'')) n" "deaf n False ''t''"
  from server_stop_hangs [OF n] n(1) show ?thesis by blast
qed (simp add: lock_id_def)

end
