(* ===== verification/Many_Nodes.thy ===== *)
theory Many_Nodes
  imports Network
begin

text \<open>
  Any number of nodes. Every pair of nodes has a connection of its own, but the connections of a node share the epoll
  threads of its servers: \<open>BasicIO::init\<close> adds the connections it dialled to the epoll of the server
  (\<open>add_connection_to_epoll\<close>), and \<open>TCPServer::loop_main\<close> handles the events of all of them. \<open>BasicIO::close\<close> waits for
  the threads that stop the dialled connections, then stops the server, and \<open>TCPServer::stop\<close> joins the epoll thread and
  goes through \<open>server_connections_\<close>, a \<open>std::map\<close> by node id, stopping one connection after the other.

  The connections a node dialled enter its epoll set one by one; the stop of its last server closes the epoll instance
  with all of them (\<open>Epoll_Watch\<close> shows that they never come back).

  A connection is the pair of the node that dialled it and the node that accepted it. \<open>link_net\<close> is the view of one
  connection, a state of \<open>Network\<close>.
\<close>

section \<open>Steps\<close>

type_synonym node_pair = "bytes \<times> bytes"

record nodes =
  link_sess :: "node_pair \<Rightarrow> session"
  node_duty :: "bytes \<Rightarrow> bytes duty"
  link_epoll :: "node_pair \<Rightarrow> bool \<Rightarrow> membership"

definition new_nodes :: "(node_pair \<Rightarrow> bool \<Rightarrow> connection) \<Rightarrow> nodes" where
  "new_nodes c = \<lparr>link_sess = (\<lambda>l. new_session (c l)), node_duty = (\<lambda>_. Map.empty),
     link_epoll = (\<lambda>_ x. if x then Not_Added else Watched)\<rparr>"

fun end_node :: "node_pair \<Rightarrow> bool \<Rightarrow> bytes" where
  "end_node (a, b) x = (if x then a else b)"

abbreviation proper :: "node_pair \<Rightarrow> bool" where
  "proper l \<equiv> fst l \<noteq> snd l"

definition link_net :: "nodes \<Rightarrow> node_pair \<Rightarrow> network" where
  "link_net w l = \<lparr>sess = link_sess w l, duty = (\<lambda>x. node_duty w (end_node l x)), epoll = link_epoll w l\<rparr>"

abbreviation caller_at :: "nodes \<Rightarrow> node_pair \<Rightarrow> bool \<Rightarrow> bytes \<Rightarrow> caller" where
  "caller_at w l x \<equiv> caller (ends (link_sess w l) x)"

text \<open>The loop of \<open>TCPServer::stop\<close> begins with a connection when those of the nodes before have been stopped.\<close>

definition stop_in_turn :: "nodes \<Rightarrow> node_pair \<Rightarrow> session \<Rightarrow> bool" where
  "stop_in_turn w l s' \<longleftrightarrow> (\<forall>t. caller_at w l False t \<noteq> Lock_Waiting \<and> caller (ends s' False) t = Lock_Waiting \<longrightarrow>
     (\<forall>p < fst l. caller_at w (p, snd l) False t = Idle))"

text \<open>The thread of a task at a node is joined when the task's stops have returned on every connection the node
  dialled and have not begun on any it accepted.\<close>

inductive nodes_step :: "nodes \<Rightarrow> nodes \<Rightarrow> bool" where
  Link_Part: "proper l \<Longrightarrow> session_step (link_sess w l) s' \<Longrightarrow> session_allowed (link_net w l) s' \<Longrightarrow>
    stop_in_turn w l s' \<Longrightarrow> nodes_step w (w\<lparr>link_sess := (link_sess w)(l := s')\<rparr>)"
| Node_Part: "duty_step (node_duty w a) d' \<Longrightarrow>
    (\<And>l x. proper l \<Longrightarrow> end_node l x = a \<Longrightarrow> duty_allowed (link_net w l) x d') \<Longrightarrow>
    nodes_step w (w\<lparr>node_duty := (node_duty w)(a := d')\<rparr>)"
| Link_Watched: "proper l \<Longrightarrow> watch_allowed (link_net w l) \<Longrightarrow>
    nodes_step w (w\<lparr>link_epoll := (link_epoll w)(l := (link_epoll w l)(True := Watched))\<rparr>)"
| Last_Stop: "(\<And>l x. proper l \<Longrightarrow> end_node l x = a \<Longrightarrow> drop_allowed (link_net w l) x) \<Longrightarrow>
    nodes_step w (w\<lparr>link_epoll := (\<lambda>l x. if proper l \<and> end_node l x = a then drop_watch (link_net w l) x
      else link_epoll w l x)\<rparr>)"

inductive_cases nodes_stepE: "nodes_step w w'"

text \<open>A run in which no new task starts its server at node \<open>a\<close>.\<close>

definition quiet_nodes :: "bytes \<Rightarrow> nodes \<Rightarrow> nodes \<Rightarrow> bool" where
  "quiet_nodes a w w' \<longleftrightarrow> nodes_step w w' \<and> (\<forall>t. node_duty w a t = None \<longrightarrow> node_duty w' a t = None)"

section \<open>Every connection is a network\<close>

lemma link_net_sess [simp]:
  "sess (link_net w l) = link_sess w l" "duty (link_net w l) x = node_duty w (end_node l x)"
  "epoll (link_net w l) = link_epoll w l"
  by (simp_all add: link_net_def)

lemma link_net_new [simp]: "link_net (new_nodes c) l = new_network (c l)"
  by (simp add: link_net_def new_nodes_def new_network_def)

lemma link_net_link:
  "link_net (w\<lparr>link_sess := (link_sess w)(l := s)\<rparr>) k = (if k = l then (link_net w l)\<lparr>sess := s\<rparr> else link_net w k)"
  by (simp add: link_net_def)

lemma link_net_node:
  assumes "proper k"
  shows "end_node k x = a \<Longrightarrow>
      link_net (w\<lparr>node_duty := (node_duty w)(a := d)\<rparr>) k = (link_net w k)\<lparr>duty := (duty (link_net w k))(x := d)\<rparr>"
    and "(\<And>x. end_node k x \<noteq> a) \<Longrightarrow> link_net (w\<lparr>node_duty := (node_duty w)(a := d)\<rparr>) k = link_net w k"
  using assms by (cases k; auto simp: link_net_def fun_eq_iff)+

lemma link_net_epoll:
  "link_net (w\<lparr>link_epoll := f\<rparr>) k = (link_net w k)\<lparr>epoll := f k\<rparr>"
  by (simp add: link_net_def)

lemma proper_end: "proper k \<Longrightarrow> end_node k x = a \<Longrightarrow> end_node k y = a \<longleftrightarrow> y = x"
  by (cases k; cases x; cases y) auto

lemma nodes_step_net:
  assumes "nodes_step w w'" and "proper k"
  shows "net_step (link_net w k) (link_net w' k) \<or> link_net w' k = link_net w k"
  using assms(1)
proof cases
  case (Link_Part l s')
  then show ?thesis using net_step.Session_Part [of "link_net w l" s'] by (auto simp: link_net_link)
next
  case (Node_Part a d')
  show ?thesis
  proof (cases "\<exists>x. end_node k x = a")
    case True
    then obtain x where x: "end_node k x = a" ..
    have "duty_step (duty (link_net w k) x) d'" "duty_allowed (link_net w k) x d'"
      using Node_Part(2,3) x assms(2) by simp_all
    then have "net_step (link_net w k) ((link_net w k)\<lparr>duty := (duty (link_net w k))(x := d')\<rparr>)" by (rule Duty_Part)
    then show ?thesis using link_net_node(1) [OF assms(2) x] Node_Part(1) by simp
  next
    case False
    then show ?thesis using link_net_node(2) [OF assms(2)] Node_Part(1) by simp
  qed
next
  case (Link_Watched l)
  have "net_step (link_net w l) ((link_net w l)\<lparr>epoll := (link_epoll w l)(True := Watched)\<rparr>)"
    using Watch_Part [OF Link_Watched(3)] by simp
  then show ?thesis using Link_Watched(1) by (cases "k = l") (simp add: link_net_epoll, simp add: link_net_def)
next
  case (Last_Stop a)
  show ?thesis
  proof (cases "\<exists>x. end_node k x = a")
    case True
    then obtain x where x: "end_node k x = a" ..
    have "(\<lambda>y. if proper k \<and> end_node k y = a then drop_watch (link_net w k) y else link_epoll w k y) =
        (link_epoll w k)(x := drop_watch (link_net w k) x)"
      using proper_end [OF assms(2) x] assms(2) by (simp add: fun_eq_iff)
    with Drop_Part [OF Last_Stop(2) [OF assms(2) x]] show ?thesis using Last_Stop(1) by (simp add: link_net_epoll)
  next
    case False
    then show ?thesis using Last_Stop(1) by (simp add: link_net_def)
  qed
qed

lemma nodes_step_nets: "nodes_step w w' \<Longrightarrow> proper k \<Longrightarrow> net_step\<^sup>*\<^sup>* (link_net w k) (link_net w' k)"
  by (metis nodes_step_net r_into_rtranclp rtranclp.rtrancl_refl)

interpretation on_link: simulation nodes_step "\<lambda>_. proper l" net_step "\<lambda>w. link_net w l" for l
  by unfold_locales (assumption, rule nodes_step_nets)

lemma quiet_nodes_net:
  assumes "quiet_nodes (end_node k x) w w'" and "proper k"
  shows "(quiet_step x)\<^sup>*\<^sup>* (link_net w k) (link_net w' k)"
proof -
  have "quiet_step x (link_net w k) (link_net w' k) \<or> link_net w' k = link_net w k"
    using assms nodes_step_net [of w w' k] by (auto simp: quiet_nodes_def quiet_step_def)
  then show ?thesis by (metis r_into_rtranclp rtranclp.rtrancl_refl)
qed

interpretation quiet_link: simulation "quiet_nodes (end_node l x)" "\<lambda>_. proper l" "quiet_step x" "\<lambda>w. link_net w l" for l x
  by unfold_locales (assumption, rule quiet_nodes_net)

section \<open>All that has been written to a node\<close>

lemma link_inv:
  assumes "nodes_step\<^sup>*\<^sup>* (new_nodes (\<lambda>l x. new_connection (f l x) (ev l x) (srv l x) (p l x))) w" and "proper l"
  shows "session_inv (link_sess w l)"
  using net_reach_inv [of "f l" "ev l" "srv l" "p l" "link_net w l"] on_link.run_sim [OF assms] by simp

text \<open>With a thread on duty at a node, the bytes written to it on any one connection arrive in one step, which leaves the
  other connections alone.\<close>

lemma arrive_on:
  assumes "session_inv (link_sess w l)" and "proper l" and "on_duty (node_duty w (end_node l x))"
    and "link_epoll w l x = Watched" and "state (conn (ends (link_sess w l) x)) \<noteq> Closed"
  obtains s' where "nodes_step w (w\<lparr>link_sess := (link_sess w)(l := s')\<rparr>)" "session_inv s'" "stream s' (\<not> x) = []"
    "stream s' x = stream (link_sess w l) x" "\<And>y. caller (ends s' y) = caller (ends (link_sess w l) y)"
    "\<And>y. state (conn (ends s' y)) = state (conn (ends (link_sess w l) y))"
proof -
  let ?s = "link_sess w l"
  obtain c where c: "session_step ?s ((with_conn x c ?s)\<lparr>stream := (stream ?s)(\<not> x := [])\<rparr>)"
    "state c = state (conn (ends ?s x))"
    using arrive_rest [OF assms(1,5)] by blast
  let ?s' = "(with_conn x c ?s)\<lparr>stream := (stream ?s)(\<not> x := [])\<rparr>"
  have same: "caller (ends ?s' y) t = caller (ends ?s y) t" for y t by simp
  have "y = x" if "length (written ?s' (\<not> y)) < length (written ?s (\<not> y))" for y
    by (rule ccontr) (use that in simp)
  with assms(3,4) have "session_allowed (link_net w l) ?s'" unfolding session_allowed_def link_net_sess same by blast
  moreover have "stop_in_turn w l ?s'" unfolding stop_in_turn_def same by blast
  ultimately have "nodes_step w (w\<lparr>link_sess := (link_sess w)(l := ?s')\<rparr>)" by (rule Link_Part [OF assms(2) c(1)])
  then show thesis by (rule that) (use session_inv_step [OF c(1) assms(1)] c(2) in auto)
qed

text \<open>What such an arrival leaves as it is.\<close>

definition same_tasks :: "nodes \<Rightarrow> nodes \<Rightarrow> bool" where
  "same_tasks w w' \<longleftrightarrow> node_duty w' = node_duty w \<and> link_epoll w' = link_epoll w \<and>
     (\<forall>l x. caller_at w' l x = caller_at w l x \<and>
       state (conn (ends (link_sess w' l) x)) = state (conn (ends (link_sess w l) x)))"

lemma arrive_on_all:
  assumes "finite P" and "on_duty (node_duty w a)" and "\<And>l. proper l \<Longrightarrow> session_inv (link_sess w l)"
    and "\<And>l x. (l, x) \<in> P \<Longrightarrow> proper l \<and> end_node l x = a \<and> link_epoll w l x = Watched \<and>
      state (conn (ends (link_sess w l) x)) \<noteq> Closed"
  shows "\<exists>w'. (nodes_step ^^ card P) w w' \<and> (\<forall>(l, x) \<in> P. stream (link_sess w' l) (\<not> x) = []) \<and>
    same_tasks w w' \<and> (\<forall>l. proper l \<longrightarrow> session_inv (link_sess w' l))"
  using assms
proof (induction P rule: finite_induct)
  case empty
  then show ?case by (intro exI [of _ w]) (simp add: same_tasks_def)
next
  case (insert q P)
  obtain l x where q: "q = (l, x)" by (cases q)
  obtain w' where w': "(nodes_step ^^ card P) w w'" "\<forall>(l, x) \<in> P. stream (link_sess w' l) (\<not> x) = []"
    "same_tasks w w'" "\<And>l. proper l \<Longrightarrow> session_inv (link_sess w' l)"
    using insert.IH [OF insert.prems(1,2)] insert.prems(3) by blast
  have l: "proper l" "end_node l x = a" "link_epoll w' l x = Watched" "state (conn (ends (link_sess w' l) x)) \<noteq> Closed"
    "on_duty (node_duty w' (end_node l x))"
    using insert.prems(1) insert.prems(3) [of l x] q w'(3) by (auto simp: same_tasks_def simp del: split_paired_All)
  obtain s' where s': "nodes_step w' (w'\<lparr>link_sess := (link_sess w')(l := s')\<rparr>)" "session_inv s'" "stream s' (\<not> x) = []"
    "stream s' x = stream (link_sess w' l) x" "\<And>y. caller (ends s' y) = caller (ends (link_sess w' l) y)"
    "\<And>y. state (conn (ends s' y)) = state (conn (ends (link_sess w' l) y))"
    using arrive_on [OF w'(4) [OF l(1)] l(1,5,3,4)] by metis
  let ?w = "w'\<lparr>link_sess := (link_sess w')(l := s')\<rparr>"
  have "stream s' (\<not> y) = []" if "(l, y) \<in> P" for y
    using that w'(2) s'(3,4) by (cases "y = x") auto
  then have "\<forall>(k, y) \<in> insert q P. stream (link_sess ?w k) (\<not> y) = []" using w'(2) s'(3) q by auto
  moreover have "(nodes_step ^^ card (insert q P)) w ?w" using w'(1) s'(1) insert.hyps by auto
  moreover have "same_tasks w ?w" using w'(3) s'(5,6) by (simp add: same_tasks_def del: split_paired_All)
  ultimately show ?case using w'(4) s'(2) by (intro exI [of _ ?w]) auto
qed

section \<open>A stop that others wait behind\<close>

lemma started_only_stops:
  assumes "session_step s s'" and "caller (ends s x) t = Started"
  shows "caller (ends s' x) t = Started \<or> caller (ends s' x) t = Lock_Waiting"
  using assms(1)
proof cases
  case (Control y n)
  have "sched_step (ends s y) n" using Control(2) by (simp add: control_step_def)
  then have "caller n t = Started \<or> caller n t = Lock_Waiting" if "caller (ends s y) t = Started"
    using that by cases (auto simp: spawn_thread_def do_start_work_def do_start_end_def do_stop_take_def
        bindE_eq_Inr split: if_splits option.splits)
  then show ?thesis using Control(1) assms(2) by (cases "y = x") auto
qed (use assms(2) in \<open>cases x; force split: if_splits\<close>)+

definition held_up :: "node_pair \<Rightarrow> bytes \<Rightarrow> bytes \<Rightarrow> nodes \<Rightarrow> bool" where
  "held_up l t q w \<longleftrightarrow> deaf (link_net w l) False t \<and> session_inv (link_sess w l) \<and>
     caller_at w (q, snd l) False t = Started"

lemma held_up_step:
  assumes "quiet_nodes (snd l) w w'" and "proper l" and "fst l < q" and "held_up l t q w"
  shows "held_up l t q w'"
proof -
  have "end_node l False = snd l" by (cases l) simp
  then have "(quiet_step False)\<^sup>*\<^sup>* (link_net w l) (link_net w' l)" using quiet_nodes_net [of l False] assms(1,2) by simp
  from deaf_steps [OF this, of t] assms(4) have deaf: "deaf (link_net w' l) False t" "session_inv (link_sess w' l)"
    by (simp_all add: held_up_def)
  have waits: "caller_at w (fst l, snd l) False t = Lock_Waiting" and started: "caller_at w (q, snd l) False t = Started"
    using assms(4) by (simp_all add: held_up_def deaf_def)
  have "nodes_step w w'" using assms(1) by (simp add: quiet_nodes_def)
  then have "caller_at w' (q, snd l) False t = Started"
  proof cases
    case (Link_Part k s')
    show ?thesis
    proof (cases "k = (q, snd l)")
      case True
      have "\<forall>p < q. caller_at w (p, snd l) False t = Idle" if "caller (ends s' False) t = Lock_Waiting"
        using Link_Part(5) started that by (simp add: stop_in_turn_def True)
      then have "caller (ends s' False) t \<noteq> Lock_Waiting" using waits assms(3) by force
      with started_only_stops [OF Link_Part(3), of False t] started True Link_Part(1) show ?thesis by auto
    qed (use started Link_Part(1) in simp)
  qed (use started in simp_all)
  with deaf show ?thesis by (simp add: held_up_def)
qed

lemma held_up_steps:
  "(quiet_nodes (snd l))\<^sup>*\<^sup>* w w' \<Longrightarrow> proper l \<Longrightarrow> fst l < q \<Longrightarrow> held_up l t q w \<Longrightarrow> held_up l t q w'"
  by (induction rule: rtranclp_induct) (auto intro: held_up_step)

section \<open>Reaching a task at a node\<close>

text \<open>The server of the first task of a node starts and takes the duty.\<close>

lemma nodes_reach_duty:
  obtains w where "nodes_step\<^sup>*\<^sup>* (new_nodes c) w" "link_sess w = link_sess (new_nodes c)"
    "node_duty w = (\<lambda>_. Map.empty)(a := [t \<mapsto> Looping])" "link_epoll w = link_epoll (new_nodes c)"
proof -
  let ?w0 = "new_nodes c"
  let ?w1 = "?w0\<lparr>node_duty := (node_duty ?w0)(a := [t \<mapsto> Loop_Waiting])\<rparr>"
  let ?w2 = "?w1\<lparr>node_duty := (node_duty ?w1)(a := [t \<mapsto> Looping])\<rparr>"
  have "duty_step (node_duty ?w0 a) ((node_duty ?w0 a)(t \<mapsto> Loop_Waiting))" by (rule Appear) (simp_all add: new_nodes_def)
  then have s1: "nodes_step ?w0 ?w1" by (intro Node_Part) (auto simp: duty_allowed_def new_nodes_def)
  have "duty_step (node_duty ?w1 a) ((node_duty ?w1 a)(t \<mapsto> Looping))" by (rule Take_Duty) simp_all
  then have s2: "nodes_step ?w1 ?w2" by (intro Node_Part) (auto simp: duty_allowed_def)
  from s1 s2 have "nodes_step\<^sup>*\<^sup>* ?w0 ?w2" by auto
  then show thesis by (rule that) (simp_all add: new_nodes_def)
qed

lemma nodes_plain_steps:
  assumes "plain_step\<^sup>*\<^sup>* (ends (link_sess w l) x) m" and "in_flight (link_sess w l) x = Map.empty"
    and "in_hand (link_sess w l) x = Map.empty" and "proper l"
  shows "nodes_step\<^sup>*\<^sup>* w (w\<lparr>link_sess := (link_sess w)(l := (link_sess w l)\<lparr>ends := (ends (link_sess w l))(x := m)\<rparr>)\<rparr>)"
  using assms(1)
proof (induction rule: rtranclp_induct)
  case (step a b)
  let ?s = "\<lambda>m. (link_sess w l)\<lparr>ends := (ends (link_sess w l))(x := m)\<rparr>"
  let ?w = "\<lambda>m. w\<lparr>link_sess := (link_sess w)(l := ?s m)\<rparr>"
  have ab: "control_step a b" "\<And>u. caller b u = Lock_Waiting \<Longrightarrow> caller a u = Lock_Waiting"
    "\<And>u. caller a u = Idle \<Longrightarrow> caller b u = Idle"
    using step(2) unfolding plain_step_def control_step_def by blast+
  have "control_step (ends (?s a) x) b" "mid_round_ok (?s a) x b"
    using ab(1) assms(2,3) by (simp_all add: mid_round_ok_def)
  then have "session_step (?s a) ((?s a)\<lparr>ends := (ends (?s a))(x := b)\<rparr>)" by (rule Control)
  then have "session_step (link_sess (?w a) l) (?s b)" by simp
  moreover have "session_allowed (link_net (?w a) l) (?s b)" using ab(2,3) by (auto simp: session_allowed_def)
  moreover have "stop_in_turn (?w a) l (?s b)" using ab(2) by (auto simp: stop_in_turn_def)
  ultimately have "nodes_step (?w a) ((?w a)\<lparr>link_sess := (link_sess (?w a))(l := ?s b)\<rparr>)" by (rule Link_Part [OF assms(4)])
  then have "nodes_step (?w a) (?w b)" by simp
  with step(3) show ?case by (rule rtranclp.rtrancl_into_rtrancl)
qed simp

text \<open>A task is started on a fresh connection of its node.\<close>

lemma nodes_start:
  assumes "link_sess w l = new_session c" and "proper l" and "serving (node_duty w (end_node l x) t)"
    and "stop_works (c x) = []" and "conn_repr (c x) [] (\<lambda>_. []) []" and "state (c x) \<noteq> Closed"
    and "length (lock_id t) \<le> 254"
  obtains s where "nodes_step\<^sup>*\<^sup>* w (w\<lparr>link_sess := (link_sess w)(l := s)\<rparr>)" "caller (ends s x) t = Started"
    "task_mtx (ends s x) = None" "unread (conn (ends s x)) (lock_id t)"
    "in_flight s x = Map.empty" "in_hand s x = Map.empty"
proof -
  have s0: "ends (link_sess w l) x = new_sched (c x)" "posted (link_sess w l) x = []"
    "in_flight (link_sess w l) x = Map.empty" "in_hand (link_sess w l) x = Map.empty"
    using assms(1) by (simp_all add: new_session_def)
  obtain m where m: "session_step (link_sess w l) ((link_sess w l)\<lparr>ends := (ends (link_sess w l))(x := m),
      posted := (posted (link_sess w l))(x := [(lock_id t, ''1'')])\<rparr>)"
    "caller m = (\<lambda>_. Idle)(t := Starting)" "worker m t = Absent" "task_mtx m = None" "stop_works (conn m) = []"
    "conn_repr (conn m) [] (\<lambda>_. []) (pack (lock_id t) ''1'')"
    using fresh_start [OF s0(1,2) assms(5,4,7,6)] by blast
  let ?s = "(link_sess w l)\<lparr>ends := (ends (link_sess w l))(x := m), posted := (posted (link_sess w l))(x := [(lock_id t, ''1'')])\<rparr>"
  let ?w = "w\<lparr>link_sess := (link_sess w)(l := ?s)\<rparr>"
  have "session_allowed (link_net w l) ?s" using s0(1) m(2) assms(3) by (auto simp: session_allowed_def new_sched_def)
  moreover have "stop_in_turn w l ?s" using m(2) by (auto simp: stop_in_turn_def)
  ultimately have run1: "nodes_step w ?w" by (rule Link_Part [OF assms(2) m(1)])
  have "caller m t = Starting" using m(2) by simp
  then obtain k where k: "plain_step\<^sup>*\<^sup>* m k" "caller k t = Started" "task_mtx k = None" "buffer (conn k) = buffer (conn m)"
      "mapbuffer (conn k) = mapbuffer (conn m)"
    using started_task_runs m(3-5) by blast
  have "plain_step\<^sup>*\<^sup>* (ends (link_sess ?w l) x) k" "in_flight (link_sess ?w l) x = Map.empty" "in_hand (link_sess ?w l) x = Map.empty"
    using k(1) s0(3,4) by simp_all
  from nodes_plain_steps [OF this assms(2)] have "nodes_step\<^sup>*\<^sup>* ?w (w\<lparr>link_sess := (link_sess w)(l := ?s\<lparr>ends := (ends ?s)(x := k)\<rparr>)\<rparr>)"
    by simp
  with run1 have "nodes_step\<^sup>*\<^sup>* w (w\<lparr>link_sess := (link_sess w)(l := ?s\<lparr>ends := (ends ?s)(x := k)\<rparr>)\<rparr>)"
    by (rule converse_rtranclp_into_rtranclp)
  moreover have "unread (conn k) (lock_id t)" by (rule unread_same [of "conn m"]) (use unread_repr [OF m(6)] k(4,5) in simp_all)
  ultimately show thesis using k(2,3) s0(3,4) by (intro that [of "?s\<lparr>ends := (ends ?s)(x := k)\<rparr>"]) simp_all
qed

text \<open>A node that accepted connections starts a task on two of them and stops it before the peers have started it.\<close>

lemma nodes_reach_held_up:
  assumes "l = (p, a)" and "p < q" and "p \<noteq> a" and "q \<noteq> a"
    and "\<And>l x. stop_works (c l x) = []" and "\<And>l x. conn_repr (c l x) [] (\<lambda>_. []) []" and "\<And>l x. state (c l x) \<noteq> Closed"
    and "length (lock_id t) \<le> 254"
  obtains w where "nodes_step\<^sup>*\<^sup>* (new_nodes c) w" "deaf (link_net w l) False t" "caller_at w (q, a) False t = Started"
proof -
  let ?k = "(q, a)"
  have lk: "l \<noteq> ?k" "proper l" "proper ?k" "end_node l False = a" "end_node ?k False = a" using assms(1-4) by auto
  obtain w0 where w0: "nodes_step\<^sup>*\<^sup>* (new_nodes c) w0" "link_sess w0 = link_sess (new_nodes c)"
    "node_duty w0 = (\<lambda>_. Map.empty)(a := [t \<mapsto> Looping])" by (rule nodes_reach_duty)
  have srv: "serving (node_duty w0 a t)" using w0(3) by (simp add: serving_def)
  have fresh: "link_sess w0 l = new_session (c l)" "link_sess w0 ?k = new_session (c ?k)"
    using w0(2) by (simp_all add: new_nodes_def)
  obtain sk where sk: "nodes_step\<^sup>*\<^sup>* w0 (w0\<lparr>link_sess := (link_sess w0)(?k := sk)\<rparr>)" "caller (ends sk False) t = Started"
    using nodes_start [OF fresh(2) lk(3), of False t] srv lk(5) assms(5-8) by metis
  let ?w1 = "w0\<lparr>link_sess := (link_sess w0)(?k := sk)\<rparr>"
  have "link_sess ?w1 l = new_session (c l)" "serving (node_duty ?w1 (end_node l False) t)"
    using fresh(1) lk(1,4) srv by simp_all
  then obtain s where s: "nodes_step\<^sup>*\<^sup>* ?w1 (?w1\<lparr>link_sess := (link_sess ?w1)(l := s)\<rparr>)" "caller (ends s False) t = Started"
    "task_mtx (ends s False) = None" "unread (conn (ends s False)) (lock_id t)"
    "in_flight s False = Map.empty" "in_hand s False = Map.empty"
    using nodes_start [OF _ lk(2), of ?w1 "c l" False t] assms(5-8) by metis
  let ?w2 = "?w1\<lparr>link_sess := (link_sess ?w1)(l := s)\<rparr>"
  let ?w3 = "?w2\<lparr>node_duty := (node_duty ?w2)(a := [t \<mapsto> Loop_Done])\<rparr>"
  let ?w4 = "?w3\<lparr>node_duty := (node_duty ?w3)(a := [t \<mapsto> Joined])\<rparr>"
  have d2: "node_duty ?w2 a = [t \<mapsto> Looping]" using w0(3) by simp
  have others: "m \<noteq> l \<Longrightarrow> m \<noteq> ?k \<Longrightarrow> caller_at ?w2 m x u = Idle" for m x u
    using w0(2) by (simp add: new_nodes_def new_session_def new_sched_def)
  have ends: "caller_at ?w2 l False t = Started" "caller_at ?w2 ?k False t = Started" using s(2) sk(2) lk(1) by simp_all
  have "duty_step (node_duty ?w2 a) ((node_duty ?w2 a)(t \<mapsto> Loop_Done))" by (rule Hand_Over) (simp add: w0(3))
  then have n3: "nodes_step ?w2 ?w3" by (intro Node_Part) (auto simp: w0(3) duty_allowed_def split: if_splits)
  have allowed: "duty_allowed (link_net ?w3 m) x [t \<mapsto> Joined]" if "proper m" "end_node m x = a" for m x
  proof -
    have "caller_at ?w2 m x t = Idle \<or> \<not> x \<and> caller_at ?w2 m x t = Started"
    proof (cases "m = l \<or> m = ?k")
      case True
      then have "\<not> x" using that assms(1,3,4) by (cases m) (auto split: if_splits)
      then show ?thesis using True ends by auto
    qed (use others in blast)
    with that(2) show ?thesis by (auto simp: duty_allowed_def split: if_splits)
  qed
  have "duty_step (node_duty ?w3 a) ((node_duty ?w3 a)(t \<mapsto> Joined))" by (rule Join) simp
  then have n4: "nodes_step ?w3 ?w4" by (intro Node_Part) (use allowed in auto)
  let ?m = "ends s False"
  let ?e = "set_caller t Lock_Waiting (?m\<lparr>conn := stop_count (conn ?m), task_mtx := Some t\<rparr>)"
  let ?s = "s\<lparr>ends := (ends s)(False := ?e)\<rparr>"
  let ?w5 = "?w4\<lparr>link_sess := (link_sess ?w4)(l := ?s)\<rparr>"
  have "mid_round_ok s False ?e" using s(5,6) by (simp add: mid_round_ok_def)
  with stop_begins [OF s(2,3)] have "session_step s ?s" by (rule Control)
  then have ss: "session_step (link_sess ?w4 l) ?s" by simp
  have at: "duty (link_net ?w4 l) False t = Some Joined" using lk(4) by simp
  have "session_allowed (link_net ?w4 l) ?s" using at s(2) by (auto simp: session_allowed_def)
  moreover have "stop_in_turn ?w4 l ?s"
  proof -
    have "caller_at ?w2 (r, a) False u = Idle" if "r < p" for r u
      by (rule others) (use that assms(1,2) in auto)
    then show ?thesis using assms(1) by (simp add: stop_in_turn_def)
  qed
  ultimately have n5: "nodes_step ?w4 ?w5" by (rule Link_Part [OF lk(2) ss])
  have "nodes_step\<^sup>*\<^sup>* (new_nodes c) ?w2" using w0(1) sk(1) s(1) by (meson rtranclp_trans)
  then have "nodes_step\<^sup>*\<^sup>* (new_nodes c) ?w5" using n3 n4 n5 by (meson rtranclp.rtrancl_into_rtrancl)
  moreover have "unread (conn ?e) (lock_id t)" by (rule unread_same [OF s(4)]) (simp_all add: stop_count_def)
  then have "deaf (link_net ?w5 l) False t" using s(6) lk(4) by (simp add: deaf_def)
  moreover have "caller_at ?w5 ?k False t = Started" using sk(2) lk(1) by simp
  ultimately show thesis by (rule that)
qed

section \<open>Properties\<close>



text \<open>C14: a stop that hangs leaves the task running for every peer behind it: when the stop of a task at a node that
  accepted a connection waits for a lock message that no thread of the node will read (\<open>deaf\<close>), then in
  every later state, unless a new task starts its server there, the stop still waits and the task is still started on
  the accepted connections of all nodes with greater ids.\<close>

theorem hung_stop_holds_up_later_peers:
  assumes "nodes_step\<^sup>*\<^sup>* (new_nodes (\<lambda>l x. new_connection (f l x) (ev l x) (srv l x) (p l x))) w"
    and "proper l" and "deaf (link_net w l) False t" and "fst l < q" and "caller_at w (q, snd l) False t = Started"
    and "(quiet_nodes (snd l))\<^sup>*\<^sup>* w w'"
  shows "caller_at w' l False t = Lock_Waiting \<and> caller_at w' (q, snd l) False t = Started"
proof -
  have "held_up l t q w" using assms(3,5) link_inv [OF assms(1,2)] by (simp add: held_up_def)
  from held_up_steps [OF assms(6,2,4) this] show ?thesis by (simp add: held_up_def deaf_def)
qed

theorem hung_stop_holds_up_later_peers_witness:
  "\<exists>w. nodes_step\<^sup>*\<^sup>* (new_nodes (\<lambda>l x. new_connection 3 0 False ''peer'')) w \<and>
     (\<forall>w'. (quiet_nodes ''C'')\<^sup>*\<^sup>* w w' \<longrightarrow>
        caller_at w' (''A'', ''C'') False ''t'' = Lock_Waiting \<and> caller_at w' (''B'', ''C'') False ''t'' = Started)"
proof (rule nodes_reach_held_up [of "(''A'', ''C'')" "''A''" "''C''" "''B''" "\<lambda>l x. new_connection 3 0 False ''peer''" "''t''"])
  fix w
  assume w: "nodes_step\<^sup>*\<^sup>* (new_nodes (\<lambda>l x. new_connection 3 0 False ''peer'')) w"
    "deaf (link_net w (''A'', ''C'')) False ''t''" "caller_at w (''B'', ''C'') False ''t'' = Started"
  have "proper (''A'', ''C'')" "fst (''A'', ''C'') < ''B''" by simp_all
  from hung_stop_holds_up_later_peers [OF w(1) this(1) w(2) this(2)] w(1,3) show ?thesis by (intro exI [of _ w]) simp
qed (simp_all add: new_connections_ok lock_id_def)

end
