(* ===== verification/Session_Safety.thy ===== *)
theory Session_Safety
  imports Session_Progress
begin

text \<open>
  Nothing goes wrong in a session: in every reachable state the buffers and maps of both connections are well formed
  and no operation of a thread or a client has a fault. This is the part of the behaviour that needs no progress of any
  thread.
\<close>

section \<open>Well-formed connections\<close>

definition conn_wf :: "connection \<Rightarrow> bool" where
  "conn_wf c \<longleftrightarrow> cb_wf (buffer c) \<and> cb_wf (send_buffer c) \<and> sorted_map (stop_works c) \<and>
     sorted_map (mapbuffer c) \<and> (\<forall>i b. std_find (mapbuffer c) i = Some b \<longrightarrow> cb_wf b)"

lemma conn_wf_repr: "conn_repr c rq ms sq \<Longrightarrow> sorted_map (stop_works c) \<Longrightarrow> conn_wf c"
  by (auto simp: conn_wf_def conn_repr_def streams_sorted intro: cb_repr_wf dest: streams_at)

lemma session_wf: "session_inv s \<Longrightarrow> conn_wf (conn (ends s x))"
  unfolding session_inv_def session_at_def using conn_wf_repr sched_invD(1) by blast

section \<open>No faults\<close>

lemma unpack_total:
  assumes "conn_repr c rq ms sq" and "flow ps rq st fl q [] ms' tk"
  shows "\<exists>r. unpack_message t c = Inr r"
proof (cases "stop_requested c t")
  case False
  have b: "cb_repr (buffer c) rq" using assms(1) by (simp add: conn_repr_def)
  show ?thesis
  proof (cases "frame_ready rq")
    case True
    obtain arrived todo where f: "ps = arrived @ todo" "frames todo = rq @ st @ concat fl @ q" "list_all msg_ok ps"
      using assms(2) by (auto simp: flow_def)
    have "rq \<noteq> []" using True by (auto simp: frame_ready_def)
    then obtain i d todo' where todo: "todo = (i, d) # todo'" using f(2) by (cases todo) auto
    then have ok: "msg_ok (i, d)" using f(1,3) by simp
    have "rq @ st @ concat fl @ q = pack i d @ frames todo'" using f(2) todo by simp
    from incomplete_frame [OF ok this True] obtain rest where "rq = pack i d @ rest" by blast
    with unpack_message_frame [of c i d rest ms sq t] assms(1) False ok show ?thesis by blast
  next
    case no: False
    with False cb_can_read_ok [OF b] show ?thesis by (simp add: unpack_message_def)
  qed
qed (simp add: unpack_message_def)

lemma recv_blocks_only:
  assumes "conn_repr c rq ms sq" and "conn_recv tmpstate elapsed c i len timeout = Inl e"
  shows "e = Would_Block"
proof -
  have pre: "\<not> (tmpstate = Connected \<and> state c \<noteq> Connected)"
    "elapsed \<le> (if timeout < 0 then 1000 * 1000000 else timeout)"
    using assms(2) by (auto simp: conn_recv_def Let_def split: if_splits)
  from conn_recv_ok [OF assms(1) pre, of len i] assms(2) show ?thesis by (auto split: if_splits)
qed

lemma send_step_total: "conn_repr c rq ms sq \<Longrightarrow> \<exists>r. send_step t c = Inr r"
  using send_step_ok [of c rq ms sq t] by (cases "stop_requested c t") (auto simp: send_step_def)

text \<open>A thread at the beginning of a round finds nothing in hand.\<close>

lemma receiving_free:
  assumes "session_at s rq ms sq fl h x" and "receives (worker (ends s x) t)" and "in_hand s x t = None"
  shows "h x = []"
  using sole_free [OF session_atD(4) [OF assms(1)] assms(3)] only_runner [OF session_atD(1) [OF assms(1)]]
    assms(2) sends_running(2) by metis

lemma session_safe:
  assumes "session_inv s"
  shows "\<exists>r. send_step t (conn (ends s x)) = Inr r"
    and "receives (worker (ends s x) t) \<Longrightarrow> in_hand s x t = None \<Longrightarrow> \<exists>r. unpack_message t (conn (ends s x)) = Inr r"
    and "in_hand s x t = Some (i, d) \<Longrightarrow> \<exists>c. store_message (conn (ends s x)) i d = Inr c"
    and "stream s (\<not> x) = data @ rest \<Longrightarrow> \<exists>c. conn_write (conn (ends s x)) data = Inr c"
    and "conn_recv tmpstate elapsed (conn (ends s x)) i len timeout = Inl e \<Longrightarrow> e = Would_Block"
proof -
  obtain rq ms sq fl h where at: "\<And>x. session_at s rq ms sq fl h x"
    using assms unfolding session_inv_def by blast
  note repr = session_atD(2) [OF at [of x]] and f = flow_in [OF at, of x]
  show "\<exists>r. send_step t (conn (ends s x)) = Inr r" by (rule send_step_total [OF repr])
  show "\<exists>r. unpack_message t (conn (ends s x)) = Inr r"
    if "receives (worker (ends s x) t)" "in_hand s x t = None"
    using unpack_total [OF repr] f receiving_free [OF at that] by metis
  show "\<exists>c. store_message (conn (ends s x)) i d = Inr c" if "in_hand s x t = Some (i, d)"
    using store_succeeds [OF assms that] by blast
  show "\<exists>c. conn_write (conn (ends s x)) data = Inr c" if w: "stream s (\<not> x) = data @ rest"
  proof -
    have "length (rq x) + length data \<le> cb_limit" using flow_limits(1,2) [OF f] w by simp
    from conn_write_ok [OF repr this] show ?thesis by blast
  qed
  show "e = Would_Block" if "conn_recv tmpstate elapsed (conn (ends s x)) i len timeout = Inl e"
    by (rule recv_blocks_only [OF repr that])
qed

section \<open>Properties\<close>

text \<open>C6: sessions are well formed and have no faults: in every reachable state the ring buffers of both connections have
  their positions in range, the maps are sorted, and whatever a thread may do next (take the send buffer, unpack a
  message, store it, add bytes that arrived) succeeds, while \<open>recv\<close> succeeds or waits.\<close>

theorem sessions_are_well_formed:
  assumes "session_step\<^sup>*\<^sup>* (new_session (\<lambda>x. new_connection (f x) (ev x) (srv x) (p x))) s"
  shows "conn_wf (conn (ends s x)) \<and> (\<exists>r. send_step t (conn (ends s x)) = Inr r) \<and>
    (receives (worker (ends s x) t) \<and> in_hand s x t = None \<longrightarrow> (\<exists>r. unpack_message t (conn (ends s x)) = Inr r)) \<and>
    (\<forall>i d. in_hand s x t = Some (i, d) \<longrightarrow> (\<exists>c. store_message (conn (ends s x)) i d = Inr c)) \<and>
    (\<forall>data rest. stream s (\<not> x) = data @ rest \<longrightarrow> (\<exists>c. conn_write (conn (ends s x)) data = Inr c)) \<and>
    (\<forall>st el i len tmo e. conn_recv st el (conn (ends s x)) i len tmo = Inl e \<longrightarrow> e = Would_Block)"
proof -
  have inv: "session_inv s" by (rule session_reach(1) [OF assms new_connections_ok(1,2)])
  note safe = session_safe [OF inv]
  show ?thesis
    by (intro conjI allI impI session_wf [OF inv] safe(1)) 
      (erule conjE, rule safe(2), assumption+, erule safe(3), erule safe(4), erule safe(5))
qed

theorem sessions_are_well_formed_witness:
  "\<exists>(s :: session) r. posted s False = [(lock_id ''t'', ''1''), (''k'', ''v'')] \<and> conn_wf (conn (ends s False)) \<and>
     send_step ''t'' (conn (ends s False)) = Inr r"
proof (rule posted_conn0)
  fix s
  assume s: "session_step\<^sup>*\<^sup>* (new_session (\<lambda>_. new_connection 3 0 False ''peer'')) s"
    "posted s False = [(lock_id ''t'', ''1''), (''k'', ''v'')]"
  note w = sessions_are_well_formed [OF s(1), of False "''t''"]
  obtain r where r: "send_step ''t'' (conn (ends s False)) = Inr r"
    using w [THEN conjunct2, THEN conjunct1] by (elim exE) (rule that)
  show ?thesis by (intro exI conjI) (rule s(2), rule w [THEN conjunct1], rule r)
qed

end
