(* ===== verification/Stop_Refinement.thy ===== *)
theory Stop_Refinement
  imports Client
begin

text \<open>
  The server and the client start and stop their tasks on connections that other tasks share. \<open>Server\<close> and \<open>Client\<close>
  describe \<open>Connection::start\<close> and \<open>Connection::stop\<close> by what they do to the connection object; here these are shown to be
  runs of \<open>Task_Scheduling\<close>, in which the threads of all tasks take part.
\<close>

section \<open>A start\<close>

lemma start_runs:
  assumes "sched_inv s" and "caller s t = Idle" and "task_mtx s = None" and "start_lock t (conn s) = Inr c"
  shows "\<exists>s1 s'. sched_step s s1 \<and> conn s1 = c \<and> sched_step\<^sup>*\<^sup>* s1 s' \<and> caller s' t = Started \<and>
    conn s' = do_start_insert t c \<and> worker s' t = Queued"
proof -
  let ?s1 = "set_caller t Starting (s\<lparr>conn := c\<rparr>)"
  let ?s2 = "set_caller t Awaiting (spawn_thread t ?s1)"
  let ?s3 = "set_worker t Queued (?s2\<lparr>conn := do_start_insert t (conn ?s2)\<rparr>)"
  let ?s4 = "set_caller t Started ?s3"
  have inv: "sched_inv ?s1" by (rule sched_inv_start [OF assms(1,2,4)])
  have s1: "sched_step s ?s1" by (rule Start [OF assms(2-4)])
  have s2: "sched_step ?s1 ?s2" by (rule Spawn) simp
  have s3: "sched_step ?s2 ?s3" by (rule Queue) (simp add: spawn_thread_def)
  have "std_find (stop_works c) t = None"
    using sched_invD(2) [OF assms(1), of t] assms(2) keep_flags(6) [OF assms(4)] lock_keeps_flags(1) [OF assms(4)]
    by (simp add: task_ok_def)
  moreover have "sorted_map (stop_works c)" using sched_invD(1) [OF inv] by simp
  ultimately have "start_done t (conn ?s3)"
    by (simp add: start_done_def do_start_insert_def spawn_thread_def std.find_insert)
  then have s4: "sched_step ?s3 ?s4" by (intro Start_Return) (simp_all add: spawn_thread_def)
  from s2 s3 s4 have "sched_step\<^sup>*\<^sup>* ?s1 ?s4" by (meson step_then rtranclp.rtrancl_refl)
  with s1 show ?thesis by (intro exI [of _ ?s1] exI [of _ ?s4]) (simp add: spawn_thread_def)
qed

section \<open>A stop\<close>

text \<open>\<open>Connection::stop\<close> as its callers see it.\<close>

definition connection_stop :: "bytes \<Rightarrow> connection \<Rightarrow> connection res" where
  "connection_stop t c =
    bindE (stop_lock t (stop_count c)) (\<lambda>c'. Inr (do_stop_erase t (do_stop_flag t c')))"

lemma connection_stop_runs:
  assumes "sched_inv s" and "caller s t = Started" and "task_mtx s = None" and "connection_stop t (conn s) = Inr c"
  shows "\<exists>s'. sched_step\<^sup>*\<^sup>* s s' \<and> conn s' = c \<and> caller s' t = Idle \<and>
    (\<forall>u. u \<noteq> t \<longrightarrow> caller s' u = caller s u \<and> worker s' u = worker s u)"
proof -
  obtain c1 where c1: "stop_lock t (stop_count (conn s)) = Inr c1" "c = do_stop_erase t (do_stop_flag t c1)"
    using assms(4) by (auto simp: connection_stop_def bindE_eq_Inr)
  let ?s1 = "set_caller t Lock_Waiting (s\<lparr>conn := stop_count (conn s), task_mtx := Some t\<rparr>)"
  let ?s2 = "set_caller t Stopping (?s1\<lparr>conn := c1, task_mtx := None\<rparr>)"
  let ?s3 = "set_caller t Flagged (?s2\<lparr>conn := do_stop_flag t c1\<rparr>)"
  let ?s4 = "set_caller t Joining (?s3\<lparr>threads := threads s - {t}\<rparr>)"
  have s1: "sched_step s ?s1" by (rule Stop [OF assms(2,3)])
  have s2: "sched_step ?s1 ?s2" by (rule Stop_Lock) (use c1(1) in simp_all)
  have s3: "sched_step ?s2 ?s3" using Stop_Flag [of ?s2 t] by simp
  have "t \<in> threads s" using sched_invD(2) [OF assms(1), of t] assms(2) by (simp add: task_ok_def)
  then have s4: "sched_step ?s3 ?s4" by (intro Stop_Take) (simp_all add: do_stop_take_def)
  from s1 s2 s3 s4 have run: "sched_step\<^sup>*\<^sup>* s ?s4" by (meson step_then rtranclp.rtrancl_refl)
  have inv: "sched_inv ?s4" by (rule sched_inv_steps [OF run assms(1)])
  have "stop_requested (conn ?s4) t" "worker ?s4 t = Queued \<or> running (worker ?s4 t) \<or> worker ?s4 t = Exited"
    using sched_invD(2) [OF inv, of t] by (simp_all add: task_ok_def stop_requested_def)
  from end_thread [OF inv this] obtain s5 where
    s5: "sched_step\<^sup>*\<^sup>* ?s4 s5" "worker s5 t = Exited" "same_but_worker t ?s4 s5" by blast
  let ?s6 = "set_caller t Idle (set_worker t Absent (s5\<lparr>conn := do_stop_erase t (conn s5)\<rparr>))"
  have s6: "sched_step s5 ?s6" by (rule Stop_Join) (use s5 in \<open>simp_all add: same_but_worker_def\<close>)
  have "sched_step\<^sup>*\<^sup>* s ?s6" using run s5(1) s6 by (meson rtranclp_trans rtranclp.rtrancl_into_rtrancl)
  moreover have "conn ?s6 = c" "\<forall>u. u \<noteq> t \<longrightarrow> caller ?s6 u = caller s u \<and> worker ?s6 u = worker s u"
    using s5(3) c1(2) by (simp_all add: same_but_worker_def)
  ultimately show ?thesis by (intro exI [of _ ?s6]) simp
qed

lemma stop_connection_stop:
  assumes "stop_connection srv st = Inr (srv', st')" and "server_connections srv = (node, ptr) # cs"
    and "objs st ptr = Some c"
  shows "\<exists>c'. connection_stop (srv_task srv) c = Inr c' \<and> st' = st\<lparr>objs := (objs st)(ptr \<mapsto> c')\<rparr> \<and>
    srv' = srv\<lparr>server_connections := cs\<rparr>"
  using assms by (auto simp: stop_connection_def connection_stop_def get_obj_def bindE_eq_Inr)

lemma client_stop_stop:
  assumes "client_stop cl st = Inr (cl', st')" and "cl_conn cl = Some ptr" and "c_objs st ptr = Some c"
  shows "\<exists>c'. connection_stop (cl_task cl) c = Inr c' \<and> st' = st\<lparr>c_objs := (c_objs st)(ptr \<mapsto> c')\<rparr>"
  using assms by (auto simp: client_stop_def connection_stop_def get_c_obj_def bindE_eq_Inr)

section \<open>Properties\<close>

text \<open>C19: the stop of a server is a run of the scheduling of the shared connection: when \<open>TCPServer::stop\<close> takes a
  connection on which its task has been started, the threads of the connection can run, without a step of another
  task's, from the state before to one in which the task is gone, every other task is as it was, and the connection is
  the object the server is left with.\<close>

theorem server_stop_refines_scheduling:
  assumes "sched_step\<^sup>*\<^sup>* (new_sched (new_connection f ev srv p)) s" and "objs st ptr = Some (conn s)"
    and "caller s (srv_task sv) = Started" and "task_mtx s = None" and "server_connections sv = (node, ptr) # cs"
    and "stop_connection sv st = Inr (sv', st')"
  shows "\<exists>s'. sched_step\<^sup>*\<^sup>* s s' \<and> objs st' ptr = Some (conn s') \<and> caller s' (srv_task sv) = Idle \<and>
    (\<forall>u. u \<noteq> srv_task sv \<longrightarrow> caller s' u = caller s u \<and> worker s' u = worker s u)"
proof -
  obtain c where c: "connection_stop (srv_task sv) (conn s) = Inr c" "st' = st\<lparr>objs := (objs st)(ptr \<mapsto> c)\<rparr>"
    using stop_connection_stop [OF assms(6,5,2)] by blast
  with connection_stop_runs [OF sched_inv_reach [OF assms(1)] assms(3,4) c(1)] show ?thesis by auto
qed

theorem server_stop_refines_scheduling_witness:
  "\<exists>s s' st st' sv sv'. sched_step\<^sup>*\<^sup>* (new_sched (new_connection 3 0 False ''peer'')) s \<and> caller s ''a'' = Started \<and>
     stop_connection sv st = Inr (sv', st') \<and> sched_step\<^sup>*\<^sup>* s s' \<and> caller s' ''a'' = Idle \<and> objs st' 3 = Some (conn s')"
proof (rule reach_stoppable)
  fix s c
  assume s: "sched_step\<^sup>*\<^sup>* (new_sched (new_connection 3 0 False ''peer'')) s" "caller s ''a'' = Started"
    "task_mtx s = None" "stop_lock ''a'' (stop_count (conn s)) = Inr c"
  let ?sv = "(new_tcp_server [''B''])\<lparr>srv_task := ''a'', server_connections := [(''B'', 3)]\<rparr>"
  let ?st = "new_server_static\<lparr>objs := [3 \<mapsto> conn s]\<rparr>"
  obtain sv' st' where stop: "stop_connection ?sv ?st = Inr (sv', st')"
    using s(4) by (simp add: stop_connection_def get_obj_def)
  have pre: "objs ?st 3 = Some (conn s)" "caller s (srv_task ?sv) = Started" "server_connections ?sv = (''B'', 3) # []"
    using s(2) by simp_all
  from server_stop_refines_scheduling [OF s(1) pre(1,2) s(3) pre(3) stop] obtain s' where
    "sched_step\<^sup>*\<^sup>* s s'" "objs st' 3 = Some (conn s')" "caller s' ''a'' = Idle" by auto
  with s(1,2) stop show ?thesis by blast
qed

text \<open>The stop of a client is one in the same way.\<close>

lemma client_stop_runs:
  assumes "sched_inv s" and "c_objs st ptr = Some (conn s)" and "cl_conn cl = Some ptr"
    and "caller s (cl_task cl) = Started" and "task_mtx s = None" and "client_stop cl st = Inr (cl', st')"
  shows "\<exists>s'. sched_step\<^sup>*\<^sup>* s s' \<and> c_objs st' ptr = Some (conn s') \<and> caller s' (cl_task cl) = Idle"
proof -
  obtain c where c: "connection_stop (cl_task cl) (conn s) = Inr c" "st' = st\<lparr>c_objs := (c_objs st)(ptr \<mapsto> c)\<rparr>"
    using client_stop_stop [OF assms(6,3,2)] by blast
  with connection_stop_runs [OF assms(1,4,5) c(1)] show ?thesis by auto
qed

text \<open>What \<open>find_connection\<close> leaves is the connection after the lock message of a start that can run to its end.\<close>

lemma find_connection_runs:
  assumes "sched_inv s" and "objs st ptr = Some (conn s)" and "std_find (connections st) cid = Some ptr"
    and "caller s (srv_task sv) = Idle" and "task_mtx s = None" and "find_connection sv cid st = Inr (Some ptr, st')"
  shows "\<exists>s1 s'. sched_step s s1 \<and> objs st' ptr = Some (conn s1) \<and> sched_step\<^sup>*\<^sup>* s1 s' \<and>
    caller s' (srv_task sv) = Started \<and> conn s' = do_start_insert (srv_task sv) (conn s1)"
proof -
  obtain c where c: "start_lock (srv_task sv) (conn s) = Inr c" "objs st' ptr = Some c"
    using assms(2,3,6) by (auto simp: find_connection_def get_obj_def bindE_eq_Inr split: if_splits)
  from start_runs [OF assms(1,4,5) c(1)] c(2) show ?thesis by auto
qed

end
