(* ===== verification/Started_Twice.thy ===== *)
theory Started_Twice
  imports Stop_Refinement Net_IO
begin

text \<open>
  A node that a configuration lists twice. \<open>DATA_NODES\<close> and \<open>RESULT_NODES\<close> are arrays and nothing removes a second
  entry, so a computing node finds the peer twice among those it waits for (or dials). \<open>BasicIO::init\<close> then
  runs two threads for it, each of which starts the task on the same connection, while \<open>TCPServer\<close> keeps one entry
  and stops the task once; the peer lists the node once and starts and stops once.

  The theory follows what the second \<open>Connection::start\<close> leaves behind: its thread is a second \<open>do_start\<close>
  of the task, beside those of \<open>Task_Scheduling\<close>.
\<close>

section \<open>Where the second start comes from\<close>

definition twice_doc :: json where
  "twice_doc = JObject
     [(''NODE_INFO'', JArray
        [JObject [(''NODE_ID'', JString ''d''), (''PORT'', JInt 1)],
         JObject [(''NODE_ID'', JString ''p''), (''PORT'', JInt 2)]]),
      (''DATA_NODES'', JArray [JString ''d'', JString ''d'']),
      (''COMPUTATION_NODES'', JObject [(''p'', JInt 0)])]"

lemma twice_peers:
  "case parse_doc twice_doc new_config of Inl e \<Rightarrow> False
   | Inr (ok, cfg) \<Rightarrow>
       (case channel_peers cfg ''p'' of Inl e \<Rightarrow> False | Inr (_, cl, sv) \<Rightarrow> map nid cl = [''d'', ''d''] \<and> sv = []) \<and>
       (case channel_peers cfg ''d'' of Inl e \<Rightarrow> False | Inr (_, cl, sv) \<Rightarrow> cl = [] \<and> map nid sv = [''p''])"
  by code_simp

lemma listed_twice:
  "\<exists>cfg ip clp id svd as. parse_doc twice_doc new_config = Inr (True, cfg) \<and>
     channel_peers cfg ''p'' = Inr (ip, clp, []) \<and> channel_peers cfg ''d'' = Inr (id, [], svd) \<and> map nid svd = [''p''] \<and>
     conn_actions (new_basic_io task ip clp []) (expected_ids (new_basic_io task ip clp [])) 0 =
       Inr [Await_Client ''d'', Await_Client ''d'']"
proof -
  obtain ok cfg where c: "parse_doc twice_doc new_config = Inr (ok, cfg)"
    using twice_peers by (cases "parse_doc twice_doc new_config") auto
  note q = twice_peers [unfolded c, simplified]
  obtain ip clp where p: "channel_peers cfg ''p'' = Inr (ip, clp, [])" "map nid clp = [''d'', ''d'']"
    using q by (cases "channel_peers cfg ''p''") auto
  obtain id svd where d: "channel_peers cfg ''d'' = Inr (id, [], svd)" "map nid svd = [''p'']"
    using q by (cases "channel_peers cfg ''d''") auto
  have "ok" using parse_doc_parsed [OF c] by blast
  with c p d show ?thesis
    by (intro exI [of _ cfg] exI [of _ ip] exI [of _ clp] exI [of _ id] exI [of _ svd]
          exI [of _ "[Await_Client ''d'', Await_Client ''d'']"])
       (simp add: new_basic_io_def expected_ids_def init_sids_def init_cids_def conn_action_def)
qed

text \<open>The threads of \<open>init\<close> that wait for a peer both find its connection and start the task on it; the server has
  one entry to stop.\<close>

lemma put_twice:
  assumes "put_connection node srv st = Inr (True, srv1, st1)" and "put_connection node srv1 st1 = Inr (True, srv2, st2)"
  shows "server_connections srv2 = server_connections srv1"
    and "\<exists>ptr c c1 c2. std_find (connections st) node = Some ptr \<and> objs st ptr = Some c \<and>
      start_lock (srv_task srv) c = Inr c1 \<and> start_lock (srv_task srv) c1 = Inr c2 \<and> objs st2 ptr = Some c2"
  using assms
  by (auto simp: put_connection_def find_connection_def get_obj_def bindE_eq_Inr std_insert_again
      split: option.splits if_splits)

text \<open>The peer gets two lock messages and its stop takes one: the other stays unread, and a client with unread data never
  closes its connections.\<close>

lemma second_lock_stays:
  assumes "conn_repr c rq ms sq" and "ms (lock_id t) = ''11''" and "stop_lock t (stop_count c) = Inr c'"
  shows "conn_repr c' rq (ms(lock_id t := ''1'')) sq"
proof -
  let ?c = "stop_count c"
  have r: "conn_repr ?c rq ms sq" using assms(1) by (simp add: conn_repr_def stop_count_def)
  obtain n d where "conn_recv (state ?c) 0 ?c (lock_id t) 1 (-1) = Inr (n, d, c')"
    using assms(3) by (auto simp: stop_lock_def bindE_eq_Inr)
  with conn_recv_ok [OF r, of "state ?c" 0 "-1" 1 "lock_id t"] assms(2) show ?thesis by (auto split: if_splits)
qed

section \<open>Steps\<close>

record twice =
  base :: sched
  spare :: worker             \<comment> \<open>the thread of the second \<open>start\<close>\<close>

text \<open>The second \<open>start\<close>: the thread is not entered into \<open>threads_\<close>, where the first one is, and the wait
  for the stop flag ends at once.\<close>

definition start_again :: "bytes \<Rightarrow> twice \<Rightarrow> twice res" where
  "start_again t s = bindE (start_lock t (conn (base s))) (\<lambda>c. Inr \<lparr>base = (base s)\<lparr>conn := c\<rparr>, spare = Spawned\<rparr>)"

definition again_work :: "bytes \<Rightarrow> twice \<Rightarrow> twice" where
  "again_work t s = \<lparr>base = (base s)\<lparr>work_count := work_count (base s) + 1, work_task_id := t\<rparr>, spare = Running True True\<rparr>"

definition again_end :: "twice \<Rightarrow> twice" where
  "again_end s = \<lparr>base = (base s)\<lparr>work_count := work_count (base s) - 1\<rparr>, spare = Exited\<rparr>"

inductive twice_step :: "bytes \<Rightarrow> twice \<Rightarrow> twice \<Rightarrow> bool" for t where
  Base: "sched_step (base s) b \<Longrightarrow> twice_step t s (s\<lparr>base := b\<rparr>)"
| Start_Again: "caller (base s) t = Started \<Longrightarrow> task_mtx (base s) = None \<Longrightarrow> spare s = Absent \<Longrightarrow>
    start_again t s = Inr s' \<Longrightarrow> twice_step t s s'"
| Again_Queue: "spare s = Spawned \<Longrightarrow>
    twice_step t s \<lparr>base = (base s)\<lparr>conn := do_start_insert t (conn (base s))\<rparr>, spare = Queued\<rparr>"
| Again_Work: "spare s = Queued \<Longrightarrow> work_wait t (base s) = Some False \<Longrightarrow> twice_step t s (again_work t s)"
| Again_Skip: "spare s = Queued \<Longrightarrow> work_wait t (base s) = Some True \<Longrightarrow> twice_step t s (s\<lparr>spare := Exited\<rparr>)"
| Again_Recv_End: "spare s = Running True b \<Longrightarrow> recv_step t (conn (base s)) = Inr Stopped \<Longrightarrow>
    twice_step t s (s\<lparr>spare := Running False b\<rparr>)"
| Again_Send_End: "spare s = Running b True \<Longrightarrow> send_step t (conn (base s)) = Inr Stopped \<Longrightarrow>
    twice_step t s (s\<lparr>spare := Running b False\<rparr>)"
| Again_Work_End: "spare s = Running False False \<Longrightarrow> twice_step t s (again_end s)"
| Again_Recv_Round: "spare s = Running True b \<Longrightarrow> recv_step t (conn (base s)) = Inr (Stepped c) \<Longrightarrow>
    twice_step t s (s\<lparr>base := (base s)\<lparr>conn := c\<rparr>\<rparr>)"
| Again_Send_Round: "spare s = Running b True \<Longrightarrow> send_step t (conn (base s)) = Inr (Stepped (data, c)) \<Longrightarrow>
    twice_step t s (s\<lparr>base := (base s)\<lparr>conn := c\<rparr>\<rparr>)"

inductive_cases twice_stepE: "twice_step t s s'"

text \<open>Steps in which nobody starts the task a third time.\<close>

definition later :: "bytes \<Rightarrow> twice \<Rightarrow> twice \<Rightarrow> bool" where
  "later t s s' \<longleftrightarrow> twice_step t s s' \<and> caller (base s') t = Idle"

section \<open>Who works\<close>

text \<open>\<open>None\<close> is the second thread of the task.\<close>

definition works :: "twice \<Rightarrow> bytes option \<Rightarrow> bool" where
  "works s x \<longleftrightarrow> running (case x of None \<Rightarrow> spare s | Some u \<Rightarrow> worker (base s) u)"

text \<open>The second thread has seen no stop flag: it has neither skipped its work nor left one of its loops.\<close>

definition unseen :: "worker \<Rightarrow> bool" where
  "unseen w \<longleftrightarrow> w = Spawned \<or> w = Queued \<or> w = Running True True"

definition twice_ok :: "bytes \<Rightarrow> twice \<Rightarrow> bool" where
  "twice_ok t s \<longleftrightarrow> sorted_map (stop_works (conn (base s))) \<and>
     (std_find (stop_works (conn (base s))) t = Some True \<longrightarrow> caller (base s) t = Flagged \<or> caller (base s) t = Joining) \<and>
     (\<forall>u. caller (base s) u = Idle \<or> caller (base s) u = Starting \<longrightarrow> worker (base s) u = Absent) \<and>
     (work_count (base s) = 0 \<or> work_count (base s) = 1) \<and> (\<forall>x. works s x \<longrightarrow> work_count (base s) = 1) \<and>
     (\<forall>x y. works s x \<longrightarrow> works s y \<longrightarrow> x = y)"

lemma twice_okD:
  assumes "twice_ok t s"
  shows "sorted_map (stop_works (conn (base s)))"
    and "std_find (stop_works (conn (base s))) t = Some True \<Longrightarrow> caller (base s) t = Flagged \<or> caller (base s) t = Joining"
    and "caller (base s) u = Idle \<or> caller (base s) u = Starting \<Longrightarrow> worker (base s) u = Absent"
    and "work_count (base s) = 0 \<or> work_count (base s) = 1"
    and "works s x \<Longrightarrow> work_count (base s) = 1"
    and "works s x \<Longrightarrow> works s y \<Longrightarrow> x = y"
  using assms unfolding twice_ok_def by blast+

text \<open>A step that leaves alone who works, one that begins to work and one that ends it.\<close>

lemma twice_ok_same:
  assumes "twice_ok t s" and "sorted_map (stop_works (conn (base s')))"
    and "std_find (stop_works (conn (base s'))) t = Some True \<Longrightarrow> caller (base s') t = Flagged \<or> caller (base s') t = Joining"
    and "\<And>u. caller (base s') u = Idle \<or> caller (base s') u = Starting \<Longrightarrow> worker (base s') u = Absent"
    and "work_count (base s') = work_count (base s)" and "\<And>x. works s' x = works s x"
  shows "twice_ok t s'"
  using assms(2-4) twice_okD(4-6) [OF assms(1)] unfolding twice_ok_def assms(5,6) by blast

lemma twice_ok_begin:
  assumes "twice_ok t s" and "work_count (base s) = 0" and "work_count (base s') = 1" and "conn (base s') = conn (base s)"
    and "caller (base s') = caller (base s)" and "\<And>y. works s' y \<longleftrightarrow> y = x \<or> works s y"
    and "\<And>u. worker (base s) u = Absent \<Longrightarrow> worker (base s') u = Absent"
  shows "twice_ok t s'"
proof -
  have none: "\<not> works s y" for y using twice_okD(5) [OF assms(1), of y] assms(2) by auto
  show ?thesis using twice_okD(1-3) [OF assms(1)] assms(3,7) unfolding twice_ok_def assms(4-6) by (simp add: none)
qed

lemma twice_ok_end:
  assumes "twice_ok t s" and "works s x" and "work_count (base s') = work_count (base s) - 1"
    and "conn (base s') = conn (base s)" and "caller (base s') = caller (base s)"
    and "\<And>y. works s' y \<longleftrightarrow> y \<noteq> x \<and> works s y" and "\<And>u. worker (base s) u = Absent \<Longrightarrow> worker (base s') u = Absent"
  shows "twice_ok t s'"
proof -
  have none: "\<not> works s' y" for y using twice_okD(6) [OF assms(1,2), of y] assms(6) by auto
  show ?thesis using twice_okD(1-3) [OF assms(1)] twice_okD(5) [OF assms(1,2)] assms(3,7) none
    unfolding twice_ok_def assms(4,5) by simp
qed

lemma works_simps [simp]:
  "works \<lparr>base = b, spare = w\<rparr> x = running (case x of None \<Rightarrow> w | Some u \<Rightarrow> worker b u)"
  "works (s\<lparr>base := b\<rparr>) x = running (case x of None \<Rightarrow> spare s | Some u \<Rightarrow> worker b u)"
  "works (s\<lparr>spare := w\<rparr>) x = running (case x of None \<Rightarrow> w | Some u \<Rightarrow> worker (base s) u)"
  by (cases x; simp add: works_def)+

lemma work_wait_eq:
  "work_wait t s = Some False \<longleftrightarrow> work_count s = 0"
  "work_wait t s = Some True \<longleftrightarrow> work_count s \<noteq> 0 \<and> stop_requested (conn s) t"
  by (simp_all add: work_wait_def)

lemma twice_ok_base:
  assumes "sched_step (base s) b" and "twice_ok t s"
  shows "twice_ok t (s\<lparr>base := b\<rparr>)"
  using assms(1)
proof (cases rule: sched_step.cases)
  case (Work u)
  then show ?thesis
    by (intro twice_ok_begin [OF assms(2), where x = "Some u"])
      (auto simp: do_start_work_def work_wait_eq works_def split: option.splits)
next
  case (Work_End u)
  then show ?thesis
    by (intro twice_ok_end [OF assms(2), where x = "Some u"])
      (auto simp: do_start_end_def works_def split: option.splits)
next
  case (Stop_Flag u)
  then show ?thesis using twice_okD(1-3) [OF assms(2)]
    by (intro twice_ok_same [OF assms(2)])
      (auto simp: do_stop_flag_def works_def std.valid_assign std.find_assign split: option.splits if_splits)
next
  case (Stop_Join u)
  then show ?thesis using twice_okD(1-3) [OF assms(2)]
    by (intro twice_ok_same [OF assms(2)])
      (auto simp: do_stop_erase_def works_def std.valid_erase std.find_erase split: option.splits if_splits)
next
  case (Queue u)
  then show ?thesis using twice_okD(1-3) [OF assms(2)]
    by (intro twice_ok_same [OF assms(2)])
      (auto simp: do_start_insert_def works_def std.valid_insert std.find_insert split: option.splits if_splits)
next
  case (Spawn u)
  then have "worker (base s) u = Absent" using twice_okD(3) [OF assms(2)] by blast
  with Spawn show ?thesis using twice_okD(1-3) [OF assms(2)]
    by (intro twice_ok_same [OF assms(2)]) (auto simp: spawn_thread_def works_def split: option.splits if_splits)
qed (use twice_okD(1-3) [OF assms(2)] in \<open>intro twice_ok_same [OF assms(2)];
    auto simp: works_def keep_flags do_stop_take_def split: option.splits if_splits\<close>)+

lemma twice_ok_step:
  assumes "twice_step t s s'" and "twice_ok t s"
  shows "twice_ok t s'"
  using assms(1)
proof (cases rule: twice_step.cases)
  case (Base b)
  with twice_ok_base assms(2) show ?thesis by simp
next
  case Again_Work
  then show ?thesis
    by (intro twice_ok_begin [OF assms(2), where x = None])
      (auto simp: again_work_def work_wait_eq works_def split: option.splits)
next
  case Again_Work_End
  then show ?thesis
    by (intro twice_ok_end [OF assms(2), where x = None]) (auto simp: again_end_def works_def split: option.splits)
next
  case Again_Queue
  then show ?thesis using twice_okD(1-3) [OF assms(2)]
    by (intro twice_ok_same [OF assms(2)])
      (auto simp: do_start_insert_def works_def std.valid_insert std.find_insert split: option.splits if_splits)
qed (use twice_okD(1-3) [OF assms(2)] in \<open>intro twice_ok_same [OF assms(2)];
    auto simp: works_def start_again_def bindE_eq_Inr keep_flags split: option.splits if_splits\<close>)+

lemma twice_ok_steps: "(twice_step t)\<^sup>*\<^sup>* s s' \<Longrightarrow> twice_ok t s \<Longrightarrow> twice_ok t s'"
  by (induction rule: rtranclp_induct) (auto intro: twice_ok_step)

text \<open>Before the second start.\<close>

lemma twice_ok_sched:
  assumes "sched_inv b"
  shows "twice_ok t \<lparr>base = b, spare = Absent\<rparr>"
proof -
  note inv = sched_invD [OF assms]
  have "caller b t = Flagged \<or> caller b t = Joining" if "std_find (stop_works (conn b)) t = Some True"
    using inv(2) [of t] that by (auto simp: task_ok_def split: caller.splits)
  moreover have "worker b u = Absent" if "caller b u = Idle \<or> caller b u = Starting" for u
    using inv(2) [of u] that by (auto simp: task_ok_def)
  moreover have "x = y" if "works \<lparr>base = b, spare = Absent\<rparr> x" "works \<lparr>base = b, spare = Absent\<rparr> y" for x y
    using that inv(3) by (auto split: option.splits)
  moreover have "work_count b = 1" if "works \<lparr>base = b, spare = Absent\<rparr> x" for x
    using that inv(3) by (auto split: option.splits)
  ultimately show ?thesis using inv(1,4) unfolding twice_ok_def by auto
qed

section \<open>The thread that is left over\<close>

text \<open>The task has been stopped and the second thread has not seen the flag, which is gone.\<close>

definition left_behind :: "bytes \<Rightarrow> twice \<Rightarrow> bool" where
  "left_behind t s \<longleftrightarrow> twice_ok t s \<and> caller (base s) t = Idle \<and> unseen (spare s)"

lemma left_behind_no_flag: "left_behind t s \<Longrightarrow> \<not> stop_requested (conn (base s)) t"
  using twice_okD(2) [of t s] by (auto simp: left_behind_def stop_requested_def)

text \<open>So its loops go on.\<close>

lemma no_flag_no_stop:
  assumes "\<not> stop_requested c t"
  shows "recv_step t c \<noteq> Inr Stopped" and "send_step t c \<noteq> Inr Stopped"
  using assms by (auto simp: recv_step_def send_step_def bindE_eq_Inr split: if_splits)

lemma left_behind_later:
  assumes "later t s s'" and "left_behind t s"
  shows "left_behind t s'"
proof -
  have step: "twice_step t s s'" and idle: "caller (base s') t = Idle" using assms(1) by (simp_all add: later_def)
  have "unseen (spare s')"
    using step assms(2) left_behind_no_flag [OF assms(2)]
    by (cases rule: twice_step.cases)
      (auto simp: left_behind_def unseen_def work_wait_eq no_flag_no_stop start_again_def again_work_def bindE_eq_Inr)
  then show ?thesis using idle twice_ok_step [OF step] assms(2) by (simp add: left_behind_def)
qed

lemma left_behind_always: "(later t)\<^sup>*\<^sup>* s s' \<Longrightarrow> left_behind t s \<Longrightarrow> left_behind t s'"
  by (induction rule: rtranclp_induct) (auto intro: left_behind_later)

lemma left_behind_alone:
  assumes "left_behind t s" and "running (spare s)"
  shows "\<not> running (worker (base s) u)"
  using twice_okD(6) [of t s None "Some u"] assms by (auto simp: left_behind_def works_def)

section \<open>A run to it\<close>

lemma base_steps: "sched_step\<^sup>*\<^sup>* b b' \<Longrightarrow> (twice_step t)\<^sup>*\<^sup>* \<lparr>base = b, spare = w\<rparr> \<lparr>base = b', spare = w\<rparr>"
proof (induction rule: rtranclp_induct)
  case (step x y)
  from Base [of "\<lparr>base = x, spare = w\<rparr>" y t] step(2,3) show ?case by (auto intro: rtranclp.rtrancl_into_rtrancl)
qed simp

lemma reach_left_behind:
  assumes "sched_inv b" and "caller b t = Started" and "running (worker b t)" and "task_mtx b = None"
    and "start_lock t (conn b) = Inr c1" and "connection_stop t c1 = Inr c2"
  shows "\<exists>s. (twice_step t)\<^sup>*\<^sup>* \<lparr>base = b, spare = Absent\<rparr> s \<and> caller (base s) t = Idle \<and> spare s = Running True True \<and>
    (\<forall>u. u \<noteq> t \<longrightarrow> caller (base s) u = caller b u \<and> worker (base s) u = worker b u)"
proof -
  let ?b1 = "b\<lparr>conn := c1\<rparr>"
  have flags: "stop_works c1 = stop_works (conn b)" by (rule lock_keeps_flags(1) [OF assms(5)])
  have inv1: "sched_inv ?b1" by (rule sched_inv_data [OF assms(1) flags])
  have "std_find (stop_works c1) t = Some False"
    using sched_invD(2) [OF assms(1), of t] assms(2) flags by (simp add: task_ok_def)
  then have same: "do_start_insert t c1 = c1"
    using sched_invD(1) [OF assms(1)] flags by (simp add: do_start_insert_def std_insert_present [where w = False])
  have 1: "twice_step t \<lparr>base = b, spare = Absent\<rparr> \<lparr>base = ?b1, spare = Spawned\<rparr>"
    using assms(2,4,5) by (intro Start_Again) (simp_all add: start_again_def)
  have 2: "twice_step t \<lparr>base = ?b1, spare = Spawned\<rparr> \<lparr>base = ?b1, spare = Queued\<rparr>"
    using Again_Queue [of "\<lparr>base = ?b1, spare = Spawned\<rparr>" t] same by simp
  obtain b2 where b2: "sched_step\<^sup>*\<^sup>* ?b1 b2" "conn b2 = c2" "caller b2 t = Idle"
    "\<forall>u. u \<noteq> t \<longrightarrow> caller b2 u = caller b u \<and> worker b2 u = worker b u"
    using connection_stop_runs [OF inv1, of t c2] assms(2,4,6) by auto
  have inv2: "sched_inv b2" by (rule sched_inv_steps [OF b2(1) inv1])
  have t: "worker b2 t = Absent" using sched_invD(2) [OF inv2, of t] b2(3) by (simp add: task_ok_def)
  have none: "\<not> running (worker b2 u)" for u
  proof (cases "u = t")
    case False
    then have "worker b2 u = worker b u" using b2(4) by simp
    moreover have "\<not> running (worker b u)"
      using sched_invD(3) [OF assms(1), of u] sched_invD(3) [OF assms(1,3)] False by auto
    ultimately show ?thesis by simp
  qed (simp add: t(1))
  then have zero: "work_count b2 = 0" using sched_invD(4) [OF inv2] by blast
  let ?s = "again_work t \<lparr>base = b2, spare = Queued\<rparr>"
  have 3: "twice_step t \<lparr>base = b2, spare = Queued\<rparr> ?s" by (rule Again_Work) (simp_all add: work_wait_def zero)
  have "(twice_step t)\<^sup>*\<^sup>* \<lparr>base = b, spare = Absent\<rparr> ?s"
    using 1 2 base_steps [OF b2(1), of t Queued] 3
    by (meson converse_rtranclp_into_rtranclp rtranclp.rtrancl_into_rtrancl)
  then show ?thesis using b2(3,4) by (intro exI [of _ ?s]) (simp add: again_work_def)
qed

section \<open>Properties\<close>

text \<open>C12: the one stop of a task that was started twice on a connection can leave the second thread behind for ever. When the
  lock message of the task is there, some run ends its stop with the second thread at work. And in every run, once the stop
  has returned with the second thread not yet having seen the flag, that thread never ends until the task is started again,
  past the life of its channel, and while it works no other task works on the connection, whatever is started.\<close>

theorem twice_started_task_works_on:
  assumes "sched_step\<^sup>*\<^sup>* (new_sched (new_connection f ev srv p)) b" and "caller b t = Started"
    and "running (worker b t)" and "task_mtx b = None"
    and "start_lock t (conn b) = Inr c1" and "connection_stop t c1 = Inr c2"
  shows "(\<exists>s. (twice_step t)\<^sup>*\<^sup>* \<lparr>base = b, spare = Absent\<rparr> s \<and> caller (base s) t = Idle \<and> spare s = Running True True \<and>
      (\<forall>u. u \<noteq> t \<longrightarrow> caller (base s) u = caller b u)) \<and>
    (\<forall>s s'. (twice_step t)\<^sup>*\<^sup>* \<lparr>base = b, spare = Absent\<rparr> s \<and> caller (base s) t = Idle \<and> unseen (spare s) \<and>
      (later t)\<^sup>*\<^sup>* s s' \<longrightarrow>
      unseen (spare s') \<and> (spare s' = Running True True \<longrightarrow> (\<forall>u. \<not> running (worker (base s') u))))"
proof -
  note inv = sched_inv_reach [OF assms(1)]
  have "unseen (spare s') \<and> (spare s' = Running True True \<longrightarrow> (\<forall>u. \<not> running (worker (base s') u)))"
    if "(twice_step t)\<^sup>*\<^sup>* \<lparr>base = b, spare = Absent\<rparr> s" "caller (base s) t = Idle" "unseen (spare s)" "(later t)\<^sup>*\<^sup>* s s'" for s s'
  proof -
    from twice_ok_steps [OF that(1) twice_ok_sched [OF inv]] that(2,3) have "left_behind t s" by (simp add: left_behind_def)
    from left_behind_always [OF that(4) this] show ?thesis using left_behind_alone [of t s'] by (auto simp: left_behind_def)
  qed
  then show ?thesis using reach_left_behind [OF inv assms(2-6)] by blast
qed

theorem twice_started_task_works_on_witness:
  "\<exists>b s. sched_step\<^sup>*\<^sup>* (new_sched (new_connection 3 0 False ''peer'')) b \<and>
     (twice_step ''a'')\<^sup>*\<^sup>* \<lparr>base = b, spare = Absent\<rparr> s \<and> caller (base s) ''a'' = Idle \<and>
     spare s = Running True True \<and> (\<forall>s'. (later ''a'')\<^sup>*\<^sup>* s s' \<longrightarrow> unseen (spare s'))"
proof (rule reach_lock_received)
  fix b
  let ?t = "''a'' :: bytes" and ?lock = "lock_id ''a''"
  assume b: "sched_step\<^sup>*\<^sup>* (new_sched (new_connection 3 0 False ''peer'')) b" "caller b ?t = Started" "task_mtx b = None"
    "worker b ?t = Running True True" "conn_repr (conn b) [] ((\<lambda>_. [])(?lock := ''1'')) (pack ?lock ''1'')"
  have "conn_repr ((conn b)\<lparr>task_count := task_count (conn b) + 1\<rparr>) [] ((\<lambda>_. [])(?lock := ''1'')) (pack ?lock ''1'')"
    using b(5) by (simp add: conn_repr_def)
  from send_msg_ok [OF this, of ?lock "''1''"] obtain c1 where
    c1: "start_lock ?t (conn b) = Inr c1" "conn_repr c1 [] ((\<lambda>_. [])(?lock := ''1'')) (pack ?lock ''1'' @ pack ?lock ''1'')"
    by (auto simp: start_lock_def lock_id_def cb_limit_def)
  obtain c where "stop_lock ?t (stop_count c1) = Inr c" by (rule stop_lock_ok [OF c1(2), of ?t]) simp
  then have c2: "connection_stop ?t c1 = Inr (do_stop_erase ?t (do_stop_flag ?t c))" by (simp add: connection_stop_def)
  have "running (worker b ?t)" using b(4) by simp
  note left = twice_started_task_works_on [OF b(1,2) this b(3) c1(1) c2]
  then obtain s where s: "(twice_step ?t)\<^sup>*\<^sup>* \<lparr>base = b, spare = Absent\<rparr> s" "caller (base s) ?t = Idle" "spare s = Running True True"
    by blast
  then have "unseen (spare s)" by (simp add: unseen_def)
  with left s(1,2) have "\<forall>s'. (later ?t)\<^sup>*\<^sup>* s s' \<longrightarrow> unseen (spare s')" by blast
  with b(1) s show ?thesis by blast
qed

end
