(* ===== verification/Wakeup.thy ===== *)
theory Wakeup
  imports Duty
begin

text \<open>
  The condition variable of the epoll threads, \<open>listen_cv_\<close> of \<open>server.cpp\<close>, with its sleepers: \<open>loop_main\<close> waits on it,
  a thread that returns calls \<open>notify_one\<close>, \<open>stop\<close> raises \<open>stop_\<close> outside the mutex and then calls \<open>notify_all\<close>
  under it. \<open>Server\<close> has a guard in place of the wait; the lemmas here justify that: the threads with sleepers still follow
  \<open>duty_step\<close>, and no wake-up is lost.
\<close>

section \<open>State\<close>

text \<open>A thread at the wait is awake, about to test the predicate, or sleeps until it is notified.\<close>

datatype cv_pos = Awake | Asleep | Handling | Returned

record cv_thread =
  pos :: cv_pos
  stopping :: bool             \<comment> \<open>\<open>stop_\<close>\<close>
  notified :: bool             \<comment> \<open>\<open>stop\<close> has called \<open>notify_all\<close>\<close>

record cv_system =
  count :: int                 \<comment> \<open>\<open>listen_count_\<close>\<close>
  thrds :: "nat \<Rightarrow> cv_thread option"

definition new_cv :: cv_system where
  "new_cv = \<lparr>count = 0, thrds = Map.empty\<rparr>"

definition wait_over :: "cv_system \<Rightarrow> cv_thread \<Rightarrow> bool" where
  "wait_over s t \<longleftrightarrow> count s = 0 \<or> stopping t"

definition wake :: "cv_thread \<Rightarrow> cv_thread" where
  "wake t = (if pos t = Asleep then t\<lparr>pos := Awake\<rparr> else t)"

lemma wake_simps [simp]:
  "pos (wake t) \<noteq> Asleep" "pos (wake t) = Handling \<longleftrightarrow> pos t = Handling"
  "stopping (wake t) = stopping t" "notified (wake t) = notified t"
  by (simp_all add: wake_def)

definition notify_all :: "(nat \<Rightarrow> cv_thread option) \<Rightarrow> nat \<Rightarrow> cv_thread option" where
  "notify_all m = (\<lambda>k. map_option wake (m k))"

text \<open>\<open>notify_one\<close> wakes any one sleeper, when there is one.\<close>

definition notify_one :: "(nat \<Rightarrow> cv_thread option) \<Rightarrow> (nat \<Rightarrow> cv_thread option) \<Rightarrow> bool" where
  "notify_one m m' \<longleftrightarrow>
    (if \<exists>k t. m k = Some t \<and> pos t = Asleep
     then \<exists>k t. m k = Some t \<and> pos t = Asleep \<and> m' = m(k \<mapsto> t\<lparr>pos := Awake\<rparr>)
     else m' = m)"

section \<open>Steps\<close>

inductive cv_step :: "cv_system \<Rightarrow> cv_system \<Rightarrow> bool" where
  Cv_Start: "thrds s k = None \<Longrightarrow>
    cv_step s (s\<lparr>thrds := (thrds s)(k \<mapsto> \<lparr>pos = Awake, stopping = False, notified = False\<rparr>)\<rparr>)"
| Cv_Sleep: "thrds s k = Some t \<Longrightarrow> pos t = Awake \<Longrightarrow> \<not> wait_over s t \<Longrightarrow>
    cv_step s (s\<lparr>thrds := (thrds s)(k \<mapsto> t\<lparr>pos := Asleep\<rparr>)\<rparr>)"
| Cv_Spurious: "thrds s k = Some t \<Longrightarrow> pos t = Asleep \<Longrightarrow>
    cv_step s (s\<lparr>thrds := (thrds s)(k \<mapsto> t\<lparr>pos := Awake\<rparr>)\<rparr>)"
| Cv_Return: "thrds s k = Some t \<Longrightarrow> pos t = Awake \<Longrightarrow> wait_over s t \<Longrightarrow> stopping t \<Longrightarrow>
    cv_step s (s\<lparr>thrds := (thrds s)(k \<mapsto> t\<lparr>pos := Returned\<rparr>)\<rparr>)"
| Cv_Enter: "thrds s k = Some t \<Longrightarrow> pos t = Awake \<Longrightarrow> wait_over s t \<Longrightarrow> \<not> stopping t \<Longrightarrow>
    cv_step s (s\<lparr>count := count s + 1, thrds := (thrds s)(k \<mapsto> t\<lparr>pos := Handling\<rparr>)\<rparr>)"
| Cv_Exit: "thrds s k = Some t \<Longrightarrow> pos t = Handling \<Longrightarrow>
    notify_one ((thrds s)(k \<mapsto> t\<lparr>pos := Returned\<rparr>)) m \<Longrightarrow>
    cv_step s (s\<lparr>count := count s - 1, thrds := m\<rparr>)"
| Cv_Stop: "thrds s k = Some t \<Longrightarrow> \<not> stopping t \<Longrightarrow>
    cv_step s (s\<lparr>thrds := (thrds s)(k \<mapsto> t\<lparr>stopping := True\<rparr>)\<rparr>)"
| Cv_Notify: "thrds s k = Some t \<Longrightarrow> stopping t \<Longrightarrow> \<not> notified t \<Longrightarrow>
    cv_step s (s\<lparr>thrds := notify_all ((thrds s)(k \<mapsto> t\<lparr>notified := True\<rparr>))\<rparr>)"
| Cv_Gone: "thrds s k = Some t \<Longrightarrow> pos t = Returned \<Longrightarrow> notified t \<Longrightarrow>
    cv_step s (s\<lparr>thrds := (thrds s)(k := None)\<rparr>)"

inductive_cases cv_stepE: "cv_step s s'"

section \<open>Invariant\<close>

definition handling :: "cv_system \<Rightarrow> nat set" where
  "handling s = {k. \<exists>t. thrds s k = Some t \<and> pos t = Handling}"

text \<open>Who will let the sleepers know that the duty is free: a thread that is about to test the predicate and not stopped
  for long, or a \<open>stop\<close> that has not called \<open>notify_all\<close> yet.\<close>

definition vouches :: "cv_thread \<Rightarrow> bool" where
  "vouches t \<longleftrightarrow> pos t = Awake \<and> \<not> notified t \<or> stopping t \<and> \<not> notified t"

definition cv_ok :: "cv_system \<Rightarrow> bool" where
  "cv_ok s \<longleftrightarrow> count s = int (card (handling s)) \<and> finite (handling s) \<and> card (handling s) \<le> 1 \<and>
    (\<forall>k t. thrds s k = Some t \<longrightarrow> (notified t \<longrightarrow> stopping t) \<and> (pos t = Asleep \<longrightarrow> \<not> notified t)) \<and>
    (count s = 0 \<longrightarrow> (\<exists>k t. thrds s k = Some t \<and> pos t = Asleep) \<longrightarrow> (\<exists>k t. thrds s k = Some t \<and> vouches t))"

lemma cv_okD:
  assumes "cv_ok s"
  shows "count s = int (card (handling s))" "finite (handling s)" "card (handling s) \<le> 1"
    and "thrds s k = Some t \<Longrightarrow> notified t \<Longrightarrow> stopping t"
    and "thrds s k = Some t \<Longrightarrow> pos t = Asleep \<Longrightarrow> \<not> notified t"
    and "count s = 0 \<Longrightarrow> thrds s k = Some t \<Longrightarrow> pos t = Asleep \<Longrightarrow> \<exists>k t. thrds s k = Some t \<and> vouches t"
  using assms unfolding cv_ok_def by blast+

lemma cv_ok_new: "cv_ok new_cv"
  by (simp add: cv_ok_def new_cv_def handling_def)

lemma handling_upd:
  "handling (s\<lparr>thrds := (thrds s)(k \<mapsto> t)\<rparr>) = (if pos t = Handling then insert k (handling s) else handling s - {k})"
  "handling (s\<lparr>count := n, thrds := (thrds s)(k \<mapsto> t)\<rparr>) = (if pos t = Handling then insert k (handling s) else handling s - {k})"
  "handling (s\<lparr>thrds := (thrds s)(k := None)\<rparr>) = handling s - {k}"
  by (auto simp: handling_def)

text \<open>A step of one thread that neither begins nor ends to handle events.\<close>

lemma cv_ok_local:
  assumes "cv_ok s" and "thrds s k = Some t" and "pos t \<noteq> Handling \<and> pos t' \<noteq> Handling \<or> pos t = Handling \<and> pos t' = Handling"
    and "notified t' \<longrightarrow> stopping t'" and "pos t' = Asleep \<longrightarrow> \<not> notified t'"
    and "count s = 0 \<Longrightarrow> vouches t \<Longrightarrow> vouches t'" and "pos t' = Asleep \<and> count s = 0 \<Longrightarrow> vouches t' \<or> pos t = Asleep"
  shows "cv_ok (s\<lparr>thrds := (thrds s)(k \<mapsto> t')\<rparr>)"
proof -
  let ?s = "s\<lparr>thrds := (thrds s)(k \<mapsto> t')\<rparr>"
  have "k \<in> handling s \<longleftrightarrow> pos t = Handling" using assms(2) by (simp add: handling_def)
  then have same: "handling ?s = handling s" using assms(3) unfolding handling_upd by auto
  have "\<exists>j u. thrds ?s j = Some u \<and> vouches u" if sl: "count s = 0" "thrds ?s j = Some u" "pos u = Asleep" for j u
  proof (cases "vouches t'")
    case False
    then have "\<exists>i v. thrds s i = Some v \<and> pos v = Asleep" using sl assms(2,7) by (auto split: if_splits)
    then obtain i v where v: "thrds s i = Some v" "vouches v" using cv_okD(6) [OF assms(1) sl(1)] by blast
    then have "i \<noteq> k" using False assms(2,6) sl(1) by auto
    with v show ?thesis by auto
  qed auto
  moreover have "count ?s = count s" by simp
  ultimately have vouched: "count ?s = 0 \<longrightarrow> (\<exists>k t. thrds ?s k = Some t \<and> pos t = Asleep) \<longrightarrow> (\<exists>k t. thrds ?s k = Some t \<and> vouches t)"
    by metis
  have each: "(notified u \<longrightarrow> stopping u) \<and> (pos u = Asleep \<longrightarrow> \<not> notified u)" if "thrds ?s j = Some u" for j u
    using that cv_okD(4,5) [OF assms(1), of j u] assms(4,5) by (cases "j = k") auto
  have "count ?s = int (card (handling ?s))" "finite (handling ?s)" "card (handling ?s) \<le> 1"
    unfolding same using cv_okD(1-3) [OF assms(1)] by simp_all
  with vouched each show ?thesis unfolding cv_ok_def by blast
qed

text \<open>A state in which nobody handles events.\<close>

lemma cv_ok_free:
  assumes "\<And>j u. m j = Some u \<Longrightarrow> pos u \<noteq> Handling \<and> (notified u \<longrightarrow> stopping u) \<and> (pos u = Asleep \<longrightarrow> \<not> notified u)"
    and "(\<exists>j u. m j = Some u \<and> pos u = Asleep) \<Longrightarrow> \<exists>j u. m j = Some u \<and> vouches u" and "n = 0"
  shows "cv_ok (s\<lparr>count := n, thrds := m\<rparr>)"
proof -
  have "handling (s\<lparr>count := n, thrds := m\<rparr>) = {}" using assms(1) by (auto simp: handling_def)
  then show ?thesis using assms unfolding cv_ok_def by auto
qed

lemma cv_ok_step:
  assumes "cv_step s s'" and "cv_ok s"
  shows "cv_ok s'"
  using assms
proof (induction rule: cv_step.induct)
  case (Cv_Start s k)
  let ?t = "\<lparr>pos = Awake, stopping = False, notified = False\<rparr>"
  have "handling (s\<lparr>thrds := (thrds s)(k \<mapsto> ?t)\<rparr>) = handling s"
    unfolding handling_upd using Cv_Start(1) by (auto simp: handling_def)
  moreover have "vouches ?t" by (simp add: vouches_def)
  ultimately show ?case using Cv_Start(2) unfolding cv_ok_def by auto
next
  case (Cv_Sleep s k t)
  then show ?case using cv_okD(4) [OF Cv_Sleep(4,1)]
    by (intro cv_ok_local [of s k t]) (auto simp: wait_over_def vouches_def)
next
  case (Cv_Spurious s k t)
  then show ?case using cv_okD(4,5) [OF Cv_Spurious(3,1)]
    by (intro cv_ok_local [of s k t]) (auto simp: vouches_def)
next
  case (Cv_Return s k t)
  then show ?case using cv_okD(4) [OF Cv_Return(5,1)]
    by (intro cv_ok_local [of s k t]) (auto simp: vouches_def)
next
  case (Cv_Stop s k t)
  then show ?case using cv_okD(4,5) [OF Cv_Stop(3,1)]
    by (intro cv_ok_local [of s k t]) (auto simp: vouches_def)
next
  case (Cv_Enter s k t)
  let ?s = "s\<lparr>count := count s + 1, thrds := (thrds s)(k \<mapsto> t\<lparr>pos := Handling\<rparr>)\<rparr>"
  note ok = cv_okD [OF Cv_Enter(5)]
  have "count s = 0" using Cv_Enter(3,4) by (simp add: wait_over_def)
  then have none: "handling s = {}" using ok(1,2) by simp
  then have "handling ?s = {k}" unfolding handling_upd by simp
  moreover have "(notified u \<longrightarrow> stopping u) \<and> (pos u = Asleep \<longrightarrow> \<not> notified u)" if "thrds ?s j = Some u" for j u
    using that ok(4,5) [of j u] ok(4,5) [OF Cv_Enter(1)] by (cases "j = k") auto
  ultimately show ?case using \<open>count s = 0\<close> unfolding cv_ok_def by simp
next
  case (Cv_Exit s k t m)
  let ?m = "(thrds s)(k \<mapsto> t\<lparr>pos := Returned\<rparr>)"
  note ok = cv_okD [OF Cv_Exit(4)]
  have "k \<in> handling s" using Cv_Exit(1,2) by (simp add: handling_def)
  then have one: "handling s = {k}" using ok(2,3) card_le_Suc0_iff_eq [of "handling s"] by auto
  have free: "pos u \<noteq> Handling" "notified u \<longrightarrow> stopping u" "pos u = Asleep \<longrightarrow> \<not> notified u" if "?m j = Some u" for j u
    using that one ok(4,5) [of j u] ok(4) [OF Cv_Exit(1)] by (auto simp: handling_def split: if_splits)
  show ?case
  proof (cases "\<exists>j u. ?m j = Some u \<and> pos u = Asleep")
    case True
    then obtain j u where j: "?m j = Some u" "pos u = Asleep" "m = ?m(j \<mapsto> u\<lparr>pos := Awake\<rparr>)"
      using Cv_Exit(3) by (auto simp: notify_one_def)
    have "vouches (u\<lparr>pos := Awake\<rparr>)" using free(3) [OF j(1)] j(2) by (simp add: vouches_def)
    then have "\<exists>i v. m i = Some v \<and> vouches v" unfolding j(3) by (intro exI [of _ j] exI [of _ "u\<lparr>pos := Awake\<rparr>"]) simp
    moreover have "pos v \<noteq> Handling \<and> (notified v \<longrightarrow> stopping v) \<and> (pos v = Asleep \<longrightarrow> \<not> notified v)" if "m i = Some v" for i v
      using that free [of i v] free [OF j(1)] unfolding j(3) by (cases "i = j") auto
    ultimately show ?thesis using one ok(1) by (intro cv_ok_free) simp_all
  next
    case False
    then have "m = ?m" using Cv_Exit(3) unfolding notify_one_def by meson
    then have "\<not> (\<exists>j u. m j = Some u \<and> pos u = Asleep)" using False by blast
    moreover have "count s - 1 = 0" using one ok(1) by simp
    ultimately show ?thesis using free \<open>m = ?m\<close> by (intro cv_ok_free) blast+
  qed
next
  case (Cv_Notify s k t)
  let ?m = "notify_all ((thrds s)(k \<mapsto> t\<lparr>notified := True\<rparr>))" and ?s = "s\<lparr>thrds := notify_all ((thrds s)(k \<mapsto> t\<lparr>notified := True\<rparr>))\<rparr>"
  note ok = cv_okD [OF Cv_Notify(4)]
  have awake: "pos u \<noteq> Asleep" if "?m j = Some u" for j u
    using that by (auto simp: notify_all_def split: if_splits)
  have flags: "notified u \<longrightarrow> stopping u" if "?m j = Some u" for j u
    using that ok(4) [of j] Cv_Notify(2) by (auto simp: notify_all_def split: if_splits)
  have "handling ?s = handling s"
    using Cv_Notify(1) by (auto simp: handling_def notify_all_def)
  with ok(1-3) awake flags show ?case unfolding cv_ok_def by auto
next
  case (Cv_Gone s k t)
  let ?s = "s\<lparr>thrds := (thrds s)(k := None)\<rparr>"
  note ok = cv_okD [OF Cv_Gone(4)]
  have same: "handling ?s = handling s" unfolding handling_upd using Cv_Gone(1,2) by (auto simp: handling_def)
  have no: "\<not> vouches t" using Cv_Gone(2,3) by (simp add: vouches_def)
  have "\<exists>j u. thrds ?s j = Some u \<and> vouches u" if sl: "count s = 0" "thrds ?s j = Some u" "pos u = Asleep" for j u
  proof -
    have "thrds s j = Some u" using sl(2) by (auto split: if_splits)
    from ok(6) [OF sl(1) this sl(3)] obtain i v where v: "thrds s i = Some v" "vouches v" by blast
    then have "i \<noteq> k" using Cv_Gone(1) no by auto
    with v show ?thesis by auto
  qed
  moreover have "count ?s = count s" by simp
  moreover have "(notified u \<longrightarrow> stopping u) \<and> (pos u = Asleep \<longrightarrow> \<not> notified u)" if "thrds ?s j = Some u" for j u
    using that ok(4,5) [of j u] by (auto split: if_splits)
  ultimately show ?case using ok(1-3) same unfolding cv_ok_def by metis
qed

section \<open>The threads with sleepers follow the protocol\<close>

definition cv_thread_duty :: "cv_thread \<Rightarrow> loop_thread" where
  "cv_thread_duty t = (case pos t of Awake \<Rightarrow> Loop_Waiting | Asleep \<Rightarrow> Loop_Waiting | Handling \<Rightarrow> Looping | Returned \<Rightarrow> Loop_Done)"

definition cv_duty :: "cv_system \<Rightarrow> nat duty" where
  "cv_duty s = (\<lambda>k. map_option cv_thread_duty (thrds s k))"

lemma cv_duty_at: "cv_duty s k = map_option cv_thread_duty (thrds s k)"
  by (simp add: cv_duty_def)

lemma cv_duty_upd: "cv_duty (s\<lparr>thrds := (thrds s)(k \<mapsto> t)\<rparr>) = (cv_duty s)(k \<mapsto> cv_thread_duty t)"
  "cv_duty (s\<lparr>count := n, thrds := m\<rparr>) = cv_duty (s\<lparr>thrds := m\<rparr>)"
  by (auto simp: cv_duty_def)

lemma cv_duty_same:
  "thrds s k = Some t \<Longrightarrow> cv_thread_duty t' = cv_thread_duty t \<Longrightarrow> cv_duty (s\<lparr>thrds := (thrds s)(k \<mapsto> t')\<rparr>) = cv_duty s"
  by (auto simp: cv_duty_def)

lemma cv_duty_wake: "cv_thread_duty (wake t) = cv_thread_duty t"
  by (simp add: wake_def cv_thread_duty_def)

lemma cv_duty_notify_all: "cv_duty (s\<lparr>thrds := notify_all m\<rparr>) = cv_duty (s\<lparr>thrds := m\<rparr>)"
  by (simp add: cv_duty_def notify_all_def option.map_comp comp_def cv_duty_wake)

lemma cv_duty_notify_one:
  assumes "notify_one m m'"
  shows "cv_duty (s\<lparr>thrds := m'\<rparr>) = cv_duty (s\<lparr>thrds := m\<rparr>)"
proof (cases "m' = m")
  case False
  then obtain k t where "m k = Some t" "pos t = Asleep" "m' = m(k \<mapsto> t\<lparr>pos := Awake\<rparr>)"
    using assms unfolding notify_one_def by metis
  then show ?thesis by (auto simp: cv_duty_def cv_thread_duty_def)
qed simp

lemma cv_step_duty:
  assumes "cv_step s s'" and "cv_ok s"
  shows "duty_step\<^sup>*\<^sup>* (cv_duty s) (cv_duty s')"
  using assms
proof (induction rule: cv_step.induct)
  case (Cv_Start s k)
  then have "duty_step (cv_duty s) ((cv_duty s)(k \<mapsto> Loop_Waiting))" by (intro Appear) (simp_all add: cv_duty_at)
  then show ?case by (simp only: cv_duty_upd) (simp add: cv_thread_duty_def r_into_rtranclp del: fun_upd_apply)
next
  case (Cv_Return s k t)
  then have "duty_step (cv_duty s) ((cv_duty s)(k \<mapsto> Loop_Done))" by (intro Decline) (simp add: cv_duty_at cv_thread_duty_def)
  then show ?case by (simp only: cv_duty_upd) (simp add: cv_thread_duty_def r_into_rtranclp del: fun_upd_apply)
next
  case (Cv_Enter s k t)
  then have "handling s = {}" using cv_okD(1,2) [OF Cv_Enter(5)] by (simp add: wait_over_def)
  then have "\<forall>j. cv_duty s j \<noteq> Some Looping"
    by (auto simp: cv_duty_at cv_thread_duty_def handling_def split: cv_pos.splits)
  then have "duty_step (cv_duty s) ((cv_duty s)(k \<mapsto> Looping))"
    using Cv_Enter(1,2) by (intro Take_Duty) (simp_all add: cv_duty_at cv_thread_duty_def)
  then show ?case by (simp only: cv_duty_upd) (simp add: cv_thread_duty_def r_into_rtranclp del: fun_upd_apply)
next
  case (Cv_Exit s k t m)
  then have "duty_step (cv_duty s) ((cv_duty s)(k \<mapsto> Loop_Done))" by (intro Hand_Over) (simp add: cv_duty_at cv_thread_duty_def)
  moreover have "cv_thread_duty (t\<lparr>pos := Returned\<rparr>) = Loop_Done" by (simp add: cv_thread_duty_def)
  ultimately show ?case unfolding cv_duty_upd cv_duty_notify_one [OF Cv_Exit(3)]
    by (simp only: r_into_rtranclp)
next
  case (Cv_Gone s k t)
  let ?d = "(cv_duty s)(k \<mapsto> Joined)"
  have "duty_step (cv_duty s) ?d" using Cv_Gone(1,2) by (intro Join) (simp add: cv_duty_at cv_thread_duty_def)
  moreover have "duty_step ?d (?d(k := None))" by (rule Leave) simp
  moreover have "?d(k := None) = cv_duty (s\<lparr>thrds := (thrds s)(k := None)\<rparr>)" by (auto simp: cv_duty_def)
  ultimately show ?case by (metis (no_types) converse_rtranclp_into_rtranclp rtranclp.rtrancl_refl)
next
  case (Cv_Notify s k t)
  then show ?case using cv_duty_same [OF Cv_Notify(1), of "t\<lparr>notified := True\<rparr>"]
    by (simp add: cv_duty_notify_all cv_thread_duty_def)
qed (simp_all add: cv_duty_same cv_thread_duty_def)

interpretation cv: simulation cv_step cv_ok duty_step cv_duty
  by unfold_locales (auto intro: cv_ok_step cv_step_duty)

section \<open>Properties\<close>

text \<open>C18: no wake-up of the epoll threads is lost: with \<open>listen_cv_\<close> and its sleepers made explicit, every run follows
  the hand-over protocol; and in every reachable state in which a thread sleeps although the duty is free, some thread
  has been woken and not yet tested the predicate, or some \<open>stop\<close> has still to call \<open>notify_all\<close>.\<close>

theorem no_wakeup_is_lost:
  assumes "cv_step\<^sup>*\<^sup>* new_cv s"
  shows "duty_step\<^sup>*\<^sup>* Map.empty (cv_duty s) \<and>
    (thrds s k = Some t \<and> pos t = Asleep \<and> wait_over s t \<longrightarrow>
      (\<exists>j u. thrds s j = Some u \<and> (pos u = Awake \<or> stopping u \<and> \<not> notified u)))"
proof -
  have ok: "cv_ok s" by (rule cv.run_inv [OF assms cv_ok_new])
  have "cv_duty new_cv = Map.empty" by (simp add: cv_duty_def new_cv_def)
  then have "duty_step\<^sup>*\<^sup>* Map.empty (cv_duty s)" using cv.run_sim [OF assms cv_ok_new] by simp
  moreover have "\<exists>j u. thrds s j = Some u \<and> (pos u = Awake \<or> stopping u \<and> \<not> notified u)"
    if t: "thrds s k = Some t" "pos t = Asleep" "wait_over s t"
  proof (cases "count s = 0")
    case True
    from cv_okD(6) [OF ok this t(1,2)] show ?thesis by (auto simp: vouches_def)
  next
    case False
    then show ?thesis using t cv_okD(5) [OF ok t(1,2)] by (auto simp: wait_over_def)
  qed
  ultimately show ?thesis by blast
qed

text \<open>A thread that falls asleep while another has the duty, and is left asleep with the duty free until it is woken.\<close>

lemma reach_asleep:
  obtains s where "cv_step\<^sup>*\<^sup>* new_cv s" "thrds s 2 = Some \<lparr>pos = Asleep, stopping = True, notified = False\<rparr>"
proof -
  let ?n = "\<lparr>pos = Awake, stopping = False, notified = False\<rparr>"
  let ?s1 = "new_cv\<lparr>thrds := (thrds new_cv)(1 \<mapsto> ?n)\<rparr>"
  let ?s2 = "?s1\<lparr>count := count ?s1 + 1, thrds := (thrds ?s1)(1 \<mapsto> ?n\<lparr>pos := Handling\<rparr>)\<rparr>"
  let ?s3 = "?s2\<lparr>thrds := (thrds ?s2)(2 \<mapsto> ?n)\<rparr>"
  let ?s4 = "?s3\<lparr>thrds := (thrds ?s3)(2 \<mapsto> ?n\<lparr>pos := Asleep\<rparr>)\<rparr>"
  let ?s5 = "?s4\<lparr>thrds := (thrds ?s4)(2 \<mapsto> ?n\<lparr>pos := Asleep, stopping := True\<rparr>)\<rparr>"
  have "cv_step new_cv ?s1" by (rule Cv_Start) (simp add: new_cv_def)
  moreover have "cv_step ?s1 ?s2" by (rule Cv_Enter) (simp_all add: new_cv_def wait_over_def)
  moreover have "cv_step ?s2 ?s3" by (rule Cv_Start) (simp add: new_cv_def)
  moreover have "cv_step ?s3 ?s4" by (rule Cv_Sleep) (simp_all add: new_cv_def wait_over_def)
  moreover have "cv_step ?s4 ?s5" using Cv_Stop [of ?s4 2 "?n\<lparr>pos := Asleep\<rparr>"] by simp
  ultimately have "cv_step\<^sup>*\<^sup>* new_cv ?s5" by (meson converse_rtranclp_into_rtranclp rtranclp.rtrancl_refl)
  then show thesis by (rule that) simp
qed

theorem no_wakeup_is_lost_witness:
  "\<exists>s j u. cv_step\<^sup>*\<^sup>* new_cv s \<and> thrds s j = Some u \<and> (pos u = Awake \<or> stopping u \<and> \<not> notified u)"
proof (rule reach_asleep)
  fix s
  let ?t = "\<lparr>pos = Asleep, stopping = True, notified = False\<rparr>"
  assume s: "cv_step\<^sup>*\<^sup>* new_cv s" "thrds s 2 = Some ?t"
  from no_wakeup_is_lost [OF s(1), of 2 ?t] s show ?thesis by (auto simp: wait_over_def)
qed

end
