(* ===== verification/TLS.thy ===== *)
theory TLS
  imports Server
begin

text \<open>
  What the program itself does around OpenSSL: \<open>SSLConnection\<close> (\<open>connection.h\<close>, \<open>connection.cpp\<close>), the set-up
  of a context (\<open>ssl_socket.cpp\<close>, \<open>ssl_client.cpp\<close>, \<open>ssl_server.cpp\<close>), which server has one, and the lock callbacks
  of \<open>ssl_lock.cpp\<close>.

  OpenSSL is not part of the repository: whether a call succeeds and what a handshake returns are
  arguments. What the program does to the outside is recorded in \<open>trace\<close>.
\<close>

section \<open>The connection\<close>

datatype ssl_effect = Ssl_Shutdown | Ssl_Free | Close_Fd int | Written bytes

record ssl_connection =
  tcp :: connection
  ctx :: "nat option"                \<comment> \<open>\<open>ctx_\<close>, \<open>None\<close> for the null pointer\<close>
  has_ssl :: bool                    \<comment> \<open>\<open>ssl_\<close> is not null\<close>
  trace :: "ssl_effect list"

definition new_ssl_connection :: "int \<Rightarrow> int \<Rightarrow> bool \<Rightarrow> bytes \<Rightarrow> ssl_connection" where
  "new_ssl_connection sock ev srv node = \<lparr>tcp = new_connection sock ev srv node, ctx = None, has_ssl = False, trace = []\<rparr>"

text \<open>\<open>SSLConnection::close()\<close>, which the destructor calls.\<close>

definition ssl_close :: "ssl_connection \<Rightarrow> ssl_connection" where
  "ssl_close c =
    c\<lparr>tcp := (tcp c)\<lparr>state := Closed\<rparr>, has_ssl := False,
      trace := trace c @ (if has_ssl c then [Ssl_Shutdown, Ssl_Free] else []) @ [Close_Fd (fd (tcp c))]\<rparr>"

text \<open>It does not override \<open>Connection::close(task_id)\<close>, which has an argument: the server and the client
  call that one, on every connection.\<close>

definition ssl_task_close :: "ssl_connection \<Rightarrow> ssl_connection res" where
  "ssl_task_close c =
    bindE (close_connection (tcp c)) (\<lambda>(data, closed, t).
      Inr (c\<lparr>tcp := t, trace := trace c @ (if closed then [Written data, Close_Fd (fd (tcp c))] else [])\<rparr>))"

section \<open>The handshake\<close>

text \<open>What \<open>SSL_do_handshake\<close> returns: 1, an error that asks to try again, another error.\<close>

datatype hs_ret = Hs_Done | Hs_Want | Hs_Error

fun handshake_loop :: "int \<Rightarrow> hs_ret list \<Rightarrow> bool option" where
  "handshake_loop fail_retries [] = None"
| "handshake_loop fail_retries (Hs_Done # rs) = Some True"
| "handshake_loop fail_retries (Hs_Want # rs) = handshake_loop fail_retries rs"
| "handshake_loop fail_retries (Hs_Error # rs) =
     (if fail_retries \<le> 0 then Some False else handshake_loop (fail_retries - 1) rs)"

text \<open>Every context that \<open>init_ssl\<close> sets up has \<open>SSL_VERIFY_PEER\<close> and no callback (\<open>init_ssl_ok\<close> below), and \<open>is_inited_\<close> is not
  set by a server whose context it did not set up. OpenSSL documents that a handshake is then ended with an error as soon as
  the certificate of the peer is rejected: it is never done for a peer that is not \<open>verified\<close>.\<close>

fun do_handshake :: "bool \<Rightarrow> hs_ret \<Rightarrow> hs_ret" where
  "do_handshake verified Hs_Done = (if verified then Hs_Done else Hs_Error)"
| "do_handshake verified Hs_Want = Hs_Want"
| "do_handshake verified Hs_Error = Hs_Error"

text \<open>\<open>show_certs\<close> with an empty client address.\<close>

definition show_certs :: "bool \<Rightarrow> bool" where
  "show_certs verified = verified"

text \<open>\<open>handshake\<close>: \<open>new_ok\<close> is whether \<open>SSL_new\<close> gave an object, which it never does for a null context, \<open>finished\<close>
  the result of \<open>SSL_is_init_finished\<close>, \<open>rs\<close> what \<open>SSL_do_handshake\<close> would return for a peer whose certificate it
  accepts. \<open>owned\<close> are the contexts the program has created and not given back: \<open>SSL_new\<close>
  may not be called on another, which OpenSSL keeps only as long as some connection it made uses it. An object that was
  made before keeps its context alive. \<open>None\<close>: the loop goes on.\<close>

definition handshake :: "nat set \<Rightarrow> bool \<Rightarrow> hs_ret list \<Rightarrow> bool \<Rightarrow> bool \<Rightarrow> ssl_connection \<Rightarrow>
    (bool \<times> ssl_connection) res option" where
  "handshake owned new_ok rs verified finished c =
    (if state (tcp c) = Connected then Some (Inr (True, c))
     else if \<not> has_ssl c then
       (case ctx c of
          None \<Rightarrow> Some (Inr (False, c))
        | Some k \<Rightarrow>
            if k \<notin> owned then Some (Inl Mem_Fault)
            else if \<not> new_ok then Some (Inr (False, c))
            else let c1 = c\<lparr>has_ssl := True\<rparr> in
              case handshake_loop 0 (map (do_handshake verified) rs) of
                None \<Rightarrow> None
              | Some False \<Rightarrow> Some (Inr (False, c1))
              | Some True \<Rightarrow> Some (Inr (show_certs verified, c1\<lparr>tcp := (tcp c1)\<lparr>state := Connected\<rparr>\<rparr>)))
     else Some (Inr (finished, c)))"

section \<open>Reading and writing\<close>

text \<open>\<open>readImpl\<close> and \<open>writeImpl\<close>: an \<open>int\<close> comes back from OpenSSL, with the error \<open>SSL_get_error\<close> gives for it. A negative one
  is returned at once, logged unless it asks to try again; another one goes through a \<open>size_t\<close>. The second
  component says whether the error was logged.\<close>

datatype ssl_error = Error_None | Error_Want_Read | Error_Want_Write | Error_Other int

definition ssl_readImpl :: "32 word \<Rightarrow> ssl_error \<Rightarrow> int \<times> bool" where
  "ssl_readImpl ret e =
    (let rd = scast ret :: u64 in
     if ret <s 0 then
       (if e = Error_Want_Read \<or> e = Error_Want_Write then (sint ret, False) else (sint ret, True))
     else (sint rd, False))"

definition ssl_writeImpl :: "32 word \<Rightarrow> ssl_error \<Rightarrow> int \<times> bool" where
  "ssl_writeImpl ret e =
    (let wr = scast ret :: u64 in
     if ret <s 0 then
       (if e = Error_Want_Read \<or> e = Error_Want_Write then (sint ret, False) else (sint ret, True))
     else (sint wr, False))"

section \<open>Contexts\<close>

datatype ssl_call =
    Ctx_New string
  | Set_Mode_Auto_Retry
  | Set_Verify_Peer bool             \<comment> \<open>with \<open>SSL_VERIFY_FAIL_IF_NO_PEER_CERT\<close>\<close>
  | Set_Password string
  | Load_Verify_Locations string
  | Use_Certificate string
  | Use_Private_Key string
  | Check_Private_Key
  | Use_Enc_Certificate string
  | Use_Enc_Private_Key string
  | Check_Enc_Private_Key
  | Set_Cipher_List string
  | Set_Verify_Depth nat

fun checked :: "ssl_call \<Rightarrow> bool" where
  "checked (Set_Verify_Peer _) = False"
| "checked (Set_Password _) = False"
| "checked (Set_Verify_Depth _) = False"
| "checked _ = True"

text \<open>The calls in order, up to the first whose result is tested and bad: the result and the calls made.\<close>

fun run_calls :: "(ssl_call \<Rightarrow> bool) \<Rightarrow> ssl_call list \<Rightarrow> int \<times> ssl_call list" where
  "run_calls ok [] = (0, [])"
| "run_calls ok (c # cs) =
     (if checked c \<and> \<not> ok c then (-1, [c]) else let (r, made) = run_calls ok cs in (r, c # made))"

text \<open>\<open>gmtassl\<close> is \<open>USE_GMTASSL\<close>: a second pair of certificate and key, and a fixed cipher for a client.\<close>

definition gmtassl_init_ssl_ctx :: "(ssl_call \<Rightarrow> bool) \<Rightarrow> bool \<Rightarrow> bool \<Rightarrow> string \<Rightarrow> string \<Rightarrow> string \<Rightarrow> string \<Rightarrow> string \<Rightarrow>
    string \<Rightarrow> int \<times> ssl_call list" where
  "gmtassl_init_ssl_ctx ok gmtassl as_server root cert prik enc_cert enc_prik pass =
    run_calls ok
     ([Ctx_New (if as_server then ''SSLv23_server_method''
                else if gmtassl then ''CNTLS_client_method'' else ''SSLv23_client_method''),
       Set_Mode_Auto_Retry, Set_Verify_Peer as_server] @
      (if pass \<noteq> [] then [Set_Password pass] else []) @
      [Load_Verify_Locations root, Use_Certificate cert, Use_Private_Key prik, Check_Private_Key] @
      (if gmtassl then [Use_Enc_Certificate enc_cert, Use_Enc_Private_Key enc_prik, Check_Enc_Private_Key] @
         (if \<not> as_server then [Set_Cipher_List ''ECC-SM4-SM3''] else [])
       else []) @
      [Set_Verify_Depth 10])"

definition openssl_init_ssl_ctx :: "(ssl_call \<Rightarrow> bool) \<Rightarrow> bool \<Rightarrow> bool \<Rightarrow> string \<Rightarrow> string \<Rightarrow> string \<Rightarrow> string \<Rightarrow>
    int \<times> ssl_call list" where
  "openssl_init_ssl_ctx ok gmtassl as_server root cert prik pass =
    gmtassl_init_ssl_ctx ok gmtassl as_server root cert prik [] [] pass"

text \<open>\<open>init_ssl\<close> of \<open>SSLClient\<close> and \<open>SSLServer\<close>, which compile without \<open>USE_GMTASSL\<close> only.\<close>

definition client_init_ssl :: "(ssl_call \<Rightarrow> bool) \<Rightarrow> bool \<times> ssl_call list" where
  "client_init_ssl ok =
    (let (r, made) = openssl_init_ssl_ctx ok False False ''certs/Root.crt'' ''certs/Client.crt'' ''certs/Client.key'' ''123456''
     in (r = 0, made))"

definition server_init_ssl :: "(ssl_call \<Rightarrow> bool) \<Rightarrow> bool \<times> ssl_call list" where
  "server_init_ssl ok =
    (let (r, made) = openssl_init_ssl_ctx ok False True ''certs/Root.crt'' ''certs/Server.crt'' ''certs/Server.key'' ''123456''
     in (r = 0, made))"

section \<open>The server\<close>

text \<open>\<open>ctx_\<close> is a member of each server, while \<open>is_inited_\<close> is shared by all of them.\<close>

record ssl_server =
  tcp_srv :: tcp_server
  srv_ctx :: "nat option"

definition new_ssl_server :: "bytes list \<Rightarrow> ssl_server" where
  "new_ssl_server cids = \<lparr>tcp_srv = new_tcp_server cids, srv_ctx = None\<rparr>"

text \<open>\<open>start\<close> calls \<open>init_ssl\<close>, which creates the context \<open>k\<close>, for the first task only.\<close>

definition ssl_server_start :: "bytes \<Rightarrow> (ssl_call \<Rightarrow> bool) \<Rightarrow> bool \<Rightarrow> nat \<Rightarrow> ssl_server \<Rightarrow> server_static \<Rightarrow> nat set \<Rightarrow>
    bool \<times> ssl_server \<times> server_static \<times> nat set" where
  "ssl_server_start task ok init_ok k srv st owned =
    (let (ssl_ok, made) = server_init_ssl ok;
         (r, s, st') = server_start task ssl_ok init_ok (tcp_srv srv) st;
         created = (\<not> is_inited st \<and> ok (hd made))
     in (r, \<lparr>tcp_srv = s, srv_ctx = if created then Some k else srv_ctx srv\<rparr>, st',
         if created then insert k owned else owned))"

text \<open>What \<open>handle_accept\<close> creates for a client, in the server whose thread handles the event.\<close>

definition ssl_accepted :: "ssl_server \<Rightarrow> int \<Rightarrow> bytes \<Rightarrow> ssl_connection" where
  "ssl_accepted srv cfd cid = (new_ssl_connection cfd EPOLL_EVENTS True cid)\<lparr>ctx := srv_ctx srv\<rparr>"

text \<open>The destructor: \<open>stop\<close>, then the context of this server is freed.\<close>

definition ssl_server_destroy :: "ssl_server \<Rightarrow> server_static \<Rightarrow> nat set \<Rightarrow> (ssl_server \<times> server_static \<times> nat set) res" where
  "ssl_server_destroy srv st owned =
    bindE (server_stop (tcp_srv srv) st) (\<lambda>(s, st').
      Inr (\<lparr>tcp_srv = s, srv_ctx = None\<rparr>, st', owned - set_option (srv_ctx srv)))"

section \<open>Locks\<close>

record ssl_locking =
  lock_inited :: bool
  num_locks :: nat
  locks :: "(nat \<Rightarrow> bool) option"    \<comment> \<open>\<open>None\<close>: a null pointer; else which are held\<close>

definition init_ssl_locking :: "bool \<Rightarrow> nat \<Rightarrow> ssl_locking \<Rightarrow> int \<times> ssl_locking" where
  "init_ssl_locking malloc_ok n s =
    (if lock_inited s then (0, s)
     else if \<not> malloc_ok then (-1, s\<lparr>lock_inited := True, num_locks := n, locks := None\<rparr>)
     else (0, s\<lparr>lock_inited := True, num_locks := n, locks := Some (\<lambda>_. False)\<rparr>))"

definition thread_lock_cb :: "bool \<Rightarrow> nat \<Rightarrow> ssl_locking \<Rightarrow> ssl_locking res" where
  "thread_lock_cb lock which s =
    (if which < num_locks s then
       (case locks s of
          None \<Rightarrow> Inl Null_Deref
        | Some held \<Rightarrow>
            if lock \<and> held which then Inl Would_Block
            else Inr (s\<lparr>locks := Some (held(which := lock))\<rparr>))
     else Inr s)"

section \<open>Lemmas\<close>

text \<open>A context that was set up verifies the peer against the root certificate and has a matching key.\<close>

lemma run_calls_ok: "run_calls ok cs = (0, made) \<longleftrightarrow> made = cs \<and> (\<forall>c \<in> set cs. checked c \<longrightarrow> ok c)"
proof (induction cs arbitrary: made)
  case (Cons c cs)
  obtain r m where "run_calls ok cs = (r, m)" by fastforce
  then show ?case using Cons.IH [of cs] Cons.IH [of m] by auto
qed auto

lemma init_ssl_ok:
  assumes "gmtassl_init_ssl_ctx ok gmtassl as_server root cert prik enc_cert enc_prik pass = (0, made)"
  shows "Set_Verify_Peer as_server \<in> set made" "Load_Verify_Locations root \<in> set made" "ok (Load_Verify_Locations root)"
    "ok (Use_Certificate cert)" "ok (Use_Private_Key prik)" "ok Check_Private_Key"
    "gmtassl \<Longrightarrow> ok (Use_Enc_Certificate enc_cert) \<and> ok (Use_Enc_Private_Key enc_prik) \<and> ok Check_Enc_Private_Key"
  using assms unfolding gmtassl_init_ssl_ctx_def run_calls_ok by auto

text \<open>The detour through \<open>size_t\<close> loses nothing: the callers see the result of OpenSSL.\<close>

lemma ssl_impls: "fst (ssl_readImpl ret e) = sint ret" "fst (ssl_writeImpl ret e) = sint ret"
  by (simp_all add: ssl_readImpl_def ssl_writeImpl_def Let_def sint_up_scast is_up)

text \<open>Once the sockets are open a server that starts gets no context, and without one a handshake never succeeds.\<close>

lemma started_without_ctx:
  "is_inited st \<Longrightarrow> ssl_server_start task ok init_ok k (new_ssl_server cids) st owned = (r, srv, st', owned') \<Longrightarrow>
     r \<and> srv_ctx srv = None \<and> loop_thread (tcp_srv srv) = Loop_Waiting"
  by (auto simp: ssl_server_start_def server_start_def new_ssl_server_def Let_def split: prod.splits)

lemma no_ctx_no_handshake:
  "ctx c = None \<Longrightarrow> state (tcp c) \<noteq> Connected \<Longrightarrow> \<not> has_ssl c \<Longrightarrow>
     handshake owned new_ok rs verified fin c = Some (Inr (False, c))"
  by (simp add: handshake_def)

text \<open>A peer that is not verified never gets in: no call of the handshake succeeds and none connects, so that the next one begins
  where this one left off. The test of \<open>show_certs\<close> never decides.\<close>

lemma rejected_handshake: "handshake_loop n (map (do_handshake False) rs) \<noteq> Some True"
proof (induction rs arbitrary: n)
  case (Cons r rs)
  then show ?case by (cases r) auto
qed simp

lemma rejected_peer_stays_out:
  assumes "handshake owned new_ok rs False False c = Some (Inr (ok, c'))" and "state (tcp c) \<noteq> Connected"
  shows "\<not> ok" "state (tcp c') \<noteq> Connected"
  using assms by (auto simp: handshake_def Let_def rejected_handshake split: option.splits if_splits bool.splits)

lemma accepted_peer_is_verified:
  assumes "handshake owned new_ok rs verified fin c = Some (Inr (True, c'))" and "state (tcp c) \<noteq> Connected" and "\<not> has_ssl c"
  shows "verified" "state (tcp c') = Connected"
  using assms rejected_handshake
  by (cases verified; auto simp: handshake_def show_certs_def Let_def split: option.splits if_splits bool.splits)+

text \<open>After the server of a context is gone the handshake of a connection it accepted is a fault when it had not begun, and
  no fault when it had.\<close>

lemma handshake_after_destroy:
  assumes "ssl_server_destroy srv st owned = Inr (srv', st', owned')" and "srv_ctx srv = Some k"
    and "ctx c = Some k" and "state (tcp c) \<noteq> Connected"
  shows "\<not> has_ssl c \<Longrightarrow> handshake owned' new_ok rs verified fin c = Some (Inl Mem_Fault)"
    and "has_ssl c \<Longrightarrow> handshake owned' new_ok rs verified fin c = Some (Inr (fin, c))"
  using assms by (auto simp: ssl_server_destroy_def handshake_def bindE_eq_Inr)

text \<open>When the locks could not be allocated, the second initialisation succeeds and the callback fails.\<close>

lemma failed_lock_init_is_forgotten:
  assumes "\<not> lock_inited s" and "which < n" and "init_ssl_locking False n s = (r, s')"
  shows "r = -1" "init_ssl_locking ok m s' = (0, s')" "thread_lock_cb True which s' = Inl Null_Deref"
  using assms by (auto simp: init_ssl_locking_def thread_lock_cb_def)

section \<open>Properties\<close>

text \<open>The descriptor of a TLS connection is closed twice: \<open>close\<close> as the server and the client call it
  flushes the send buffer and closes the descriptor without shutting TLS down; the destructor then shuts
  TLS down over the closed descriptor and closes it again.\<close>

theorem tls_descriptor_closed_twice:
  assumes "conn_repr (tcp c) rq ms sq" and "state (tcp c) \<noteq> Closed"
  shows "\<exists>c'. ssl_task_close c = Inr c' \<and>
    trace (ssl_close c') = trace c @ [Written sq, Close_Fd (fd (tcp c))] @
      (if has_ssl c then [Ssl_Shutdown, Ssl_Free] else []) @ [Close_Fd (fd (tcp c))]"
proof -
  have "conn_repr ((tcp c)\<lparr>state := Closing\<rparr>) rq ms sq" using assms(1) by (simp add: conn_repr_def)
  then obtain t where t: "flush_send_buffer ((tcp c)\<lparr>state := Closing\<rparr>) = Inr (sq, t)"
    using flush_send_buffer_ok by blast
  then have "fd t = fd (tcp c)"
    by (auto simp: flush_send_buffer_def bindE_eq_Inr split: if_splits)
  with t assms(2) show ?thesis
    by (simp add: ssl_task_close_def close_connection_def ssl_close_def)
qed

theorem tls_descriptor_closed_twice_witness:
  "\<exists>c'. ssl_task_close (new_ssl_connection 5 0 True ''P1'') = Inr c' \<and>
     trace (ssl_close c') = [Written [], Close_Fd 5, Close_Fd 5]"
proof -
  have "conn_repr (tcp (new_ssl_connection 5 0 True ''P1'')) [] (\<lambda>_. []) []"
    by (simp add: new_ssl_connection_def new_connection_repr)
  moreover have "state (tcp (new_ssl_connection 5 0 True ''P1'')) \<noteq> Closed"
    by (simp add: new_ssl_connection_def new_connection_def)
  ultimately show ?thesis
    using tls_descriptor_closed_twice [of "new_ssl_connection 5 0 True ''P1''" "[]" "\<lambda>_. []" "[]"]
    by (simp add: new_ssl_connection_def new_connection_def)
qed

text \<open>C31: with TLS only the first task can accept clients: when the server of a task starts while the sockets are open
  already, it starts successfully and its thread can take over the events, but it has no context; every handshake on a
  connection that it accepts fails, whatever the peer does, and \<open>handle_read\<close> reads nothing from it.\<close>

theorem later_servers_accept_in_vain:
  assumes "is_inited st" and "ssl_server_start task ok init_ok k (new_ssl_server cids) st owned = (r, srv, st', owned')"
  shows "r \<and> loop_thread (tcp_srv srv) = Loop_Waiting \<and>
    handshake owned' new_ok rs verified fin (ssl_accepted srv cfd cid) = Some (Inr (False, ssl_accepted srv cfd cid)) \<and>
    handle_read reads ptr False (register_connection ptr cfd cid st') = Some (Inr (register_connection ptr cfd cid st'))"
proof -
  have start: "r" "srv_ctx srv = None" "loop_thread (tcp_srv srv) = Loop_Waiting"
    using started_without_ctx [OF assms] by simp_all
  have "handshake owned' new_ok rs verified fin (ssl_accepted srv cfd cid) = Some (Inr (False, ssl_accepted srv cfd cid))"
    by (rule no_ctx_no_handshake) (simp_all add: ssl_accepted_def new_ssl_connection_def new_connection_def start(2))
  moreover have "objs (register_connection ptr cfd cid st') ptr = Some (new_connection cfd EPOLL_EVENTS True cid)"
    by (simp add: register_connection_def Let_def)
  ultimately show ?thesis using start by (simp add: handle_read_def)
qed

theorem later_servers_accept_in_vain_witness:
  "\<exists>srv st. ssl_server_start ''t1'' (\<lambda>_. True) True 0 (new_ssl_server [''P1'']) new_server_static {} = (True, srv, st, {0}) \<and>
     srv_ctx srv = Some 0 \<and>
     (\<exists>srv2 st2. ssl_server_start ''t2'' (\<lambda>_. True) True 1 (new_ssl_server [''P1'']) st {0} = (True, srv2, st2, {0}) \<and>
        handshake {0} True [Hs_Done] True True (ssl_accepted srv2 7 ''P1'') = Some (Inr (False, ssl_accepted srv2 7 ''P1'')))"
proof -
  let ?ok = "\<lambda>_ :: ssl_call. True"
  obtain srv st where one: "ssl_server_start ''t1'' ?ok True 0 (new_ssl_server [''P1'']) new_server_static {} = (True, srv, st, {0})"
    "srv_ctx srv = Some 0" "is_inited st"
    by (auto simp: ssl_server_start_def server_start_def new_ssl_server_def new_server_static_def server_init_ssl_def
        openssl_init_ssl_ctx_def gmtassl_init_ssl_ctx_def Let_def)
  obtain r srv2 st2 owned where two: "ssl_server_start ''t2'' ?ok True 1 (new_ssl_server [''P1'']) st {0} = (r, srv2, st2, owned)"
    by (meson prod_cases4)
  have "owned = {0}" using two one(3) by (auto simp: ssl_server_start_def Let_def split: prod.splits)
  with later_servers_accept_in_vain [OF one(3) two, of True "[Hs_Done]" True True 7 "''P1''"] one two show ?thesis
    by auto
qed

end
