(* ===== verification/Spec2Isabelle.thy ===== *)
theory Spec2Isabelle
  imports Channel_Link Channel_Registry Config_Check Epoll_Watch Many_Nodes Session_Safety Started_Twice Wakeup Stop_Refinement TLS Emp_Channel
begin

text \<open>
  Rosetta-IO is the network layer of a privacy-computing framework: it connects the nodes of a task over
  TCP and carries messages between them, each under an id chosen by the client. This development models the
  C++ library (\<open>src/src\<close>, \<open>src/include/io\<close>) and proves what makes it correct.

  \<^bold>\<open>The program and its parts.\<close> \<open>CreateChannel\<close> reads a configuration (\<open>Config\<close>), decides which nodes to
  dial and which to wait for (\<open>Topology\<close>), makes a \<open>BasicIO\<close> of one server and a client per node to dial
  (\<open>Net_IO\<close>, \<open>Server\<close>, \<open>Client\<close>, \<open>Socket\<close>, \<open>TLS\<close>) and puts the channel into the pool of the process
  (\<open>Channel_Registry\<close>). Connections are shared by all tasks of the process (\<open>Task_Scheduling\<close>). \<open>Send\<close> turns
  the hexadecimal id into bytes (\<open>Hex_Codec\<close>), packs the message (\<open>Framing\<close>) and puts it into the send
  buffer of the connection (\<open>Connection\<close>), which a thread writes to the socket (\<open>Socket_IO\<close>); the peer's epoll
  thread fills the receive buffer, a second thread takes the messages apart into one buffer per id, and
  \<open>Recv\<close> reads from that one. All buffers are growing rings (\<open>Cycle_Buffer\<close>).

  \<^bold>\<open>Theories.\<close>
  \<^item> \<open>IO_Prelude\<close>: bytes, words, the error values and their sequencing, blocks of memory. \<open>Ring\<close>: reading and
    writing a block around its end. \<open>Std_Map\<close>: \<open>std::map\<close> as a sorted association list, with the locale
    \<open>keyed_store\<close> of what its users rely on. \<open>Support\<close>: \<open>rtt_exceptions.h\<close>, \<open>simple_timer.cpp\<close>, \<open>stat.cpp\<close>.
  \<^item> \<open>Byte_Queue\<close>, \<open>Cycle_Buffer\<close>: the locale \<open>byte_queue\<close> is the contract of a first-in-first-out queue of bytes;
    \<open>cycle_buffer.cpp\<close> is an instance, with \<open>uint64_t\<close> positions, at every position of the content in the ring.
  \<^item> \<open>Framing\<close>: \<open>simple_buffer.h\<close> and the message overloads of \<open>cycle_buffer.cpp\<close>: packing and unpacking are
    inverse, part of a message is left alone, and what ids that are too long or a bad length byte do.
  \<^item> \<open>Hex_Codec\<close>: \<open>helper.h\<close> and the id conversion of \<open>io_channel_impl.cpp\<close>. \<open>C_Encode\<close>: the structures of
    \<open>channel.h\<close> with \<open>channel_encode.h\<close> and \<open>channel_decode.h\<close>.
  \<^item> \<open>Config\<close>: \<open>config.cpp\<close> over a JSON value. \<open>Topology\<close>: \<open>CreateInternalChannel\<close> of \<open>channel.cpp\<close>; two nodes come
    to matching conclusions.
  \<^item> \<open>Socket_IO\<close>: \<open>readn\<close> and \<open>writen\<close> of \<open>connection.cpp\<close>. \<open>Connection\<close>: the class \<open>Connection\<close>, every critical
    section a definition. \<open>Delivery\<close>: two connections and the stream between them as the step relation \<open>link_step\<close>;
    its invariant relates each reachable state to the messages sent.
  \<^item> \<open>Task_Scheduling\<close>: \<open>start\<close>, \<open>do_start\<close>, \<open>stop\<close>, \<open>do_stop\<close> of \<open>connection.cpp\<close> for all tasks of a connection
    (\<open>sched_step\<close>): one task works at a time, and a stop runs to its end.
  \<^item> \<open>Session\<close>, \<open>Session_Tasks\<close>: both ends of a connection with all their tasks (\<open>session_step\<close>), the rounds of the
    threads split into their critical sections, writes that fail, resets and the end by \<open>close\<close>, which resets the connection
    (\<open>SO_LINGER\<close>). The data stay in order although the threads of one task take over from those of another; the starts and
    stops of the two nodes keep in step; two stops can block each other. \<open>Session_Progress\<close>: how the threads go on
    in any relation that contains their steps, and what a close throws away.
    \<open>Session_Safety\<close>: buffers and maps stay well formed and nothing has a fault.
  \<^item> \<open>Server\<close>, \<open>Client\<close>: \<open>server.cpp\<close> and \<open>client.cpp\<close> with the state shared by tasks (\<open>server_step\<close>,
    \<open>client_step\<close>): sockets stay while a server runs, one thread handles events, one attempt per address, what
    a client announces is what the server registers; a client whose connect failed blocks its address, and when the handshake
    failed it can never be closed. \<open>Stop_Refinement\<close>: their starts and stops of a connection are runs
    of \<open>Task_Scheduling\<close>. \<open>Started_Twice\<close>: a node listed twice is started twice and stopped once (\<open>twice_step\<close>); once
    the stop has returned before the thread of the second start saw the flag, that thread never ends. \<open>Epoll_Watch\<close>: dialled connections in the epoll set of the servers (\<open>io_step\<close>);
    one that outlives the servers is never read again.
  \<^item> \<open>Refinement\<close>: the locale \<open>simulation\<close> of a step relation that implements another. \<open>Duty\<close>: the epoll threads of
    \<open>loop_main\<close> hand the duty to handle events on (\<open>duty_step\<close>), implemented by \<open>server_step\<close>. \<open>Wakeup\<close>: the same for
    \<open>listen_cv_\<close> with its sleepers and notifications (\<open>cv_step\<close>), none of which is lost.
  \<^item> \<open>Network\<close>: a session with the epoll threads and epoll sets of both nodes, in the order \<open>BasicIO\<close> and \<open>TCPServer\<close> start and
    stop them (\<open>net_step\<close>): bytes arrive only while a thread reads and the connection is in the set. Agreed stops
    return, what was sent and not lost arrives; a node that accepted can stop reading too early.
    \<open>Many_Nodes\<close>: any number of nodes and connections that share the epoll threads of a node (\<open>nodes_step\<close>); one thread reads
    for all peers, and a stop that hangs holds up those of the connections behind it.
  \<^item> \<open>Socket\<close>: \<open>socket.cpp\<close>, with \<open>create_server\<close> and \<open>init\<close> of \<open>server.cpp\<close>; the pattern of a numeric address
    agrees with a direct definition. \<open>TLS\<close>: \<open>SSLConnection\<close>, \<open>ssl_socket.cpp\<close>, \<open>ssl_client.cpp\<close>,
    \<open>ssl_server.cpp\<close>, \<open>ssl_lock.cpp\<close>; which server has a context and how long; a handshake succeeds for
    verified peers only.
  \<^item> \<open>Net_IO\<close>: \<open>net_io.cpp\<close> and \<open>Send\<close>, \<open>Recv\<close> of \<open>io_channel_impl.cpp\<close>. \<open>Channel_Registry\<close>: the pool of
    \<open>channel.cpp\<close>, creation and destruction in their critical sections (\<open>registry_step\<close>), the caches of encoded ids with the locale
    \<open>id_cache\<close>, and \<open>TCPChannel\<close> of \<open>io_channel_impl.h\<close>. \<open>Emp_Channel\<close>: its variant for emp-toolkit, where both ends agree
    on a port for every id.
  \<^item> \<open>Channel_Link\<close>: two channels over a connection (\<open>channel_step\<close>). \<open>Config_Check\<close>: \<open>example/check_config_json.cpp\<close>, a client
    of the library that exchanges the configurations of all nodes. This theory holds what spans components:
    channels deliver per id, and the initialisations of two nodes fit together.

  \<^bold>\<open>Conventions.\<close> A \<open>char\<close> is a \<open>char\<close>, strings and buffers are lists of them; \<open>uint64_t\<close> and \<open>uint8_t\<close>
  are words, so that sums wrap. A fallible operation has the type \<open>'a res\<close>: an exception, an access out of bounds, a
  null pointer or a wait whose predicate is false is an error value. A condition-variable wait in a step
  relation is a guard of the step. What the kernel, OpenSSL, the JSON parser and the resolver answer is an
  argument (for OpenSSL with \<open>SSL_VERIFY_PEER\<close> as documented: a rejected certificate ends the handshake): a list of answers is consumed from its head, and an empty list stands for a loop that goes on.
  \<open>loop_recv\<close> and \<open>find_port\<close> may not end and are a \<open>partial_function\<close>; \<open>receive_loop_delivers\<close>,
  \<open>empty_message_wedges_receiver\<close> and \<open>emp_ends_agree\<close> say when they do. A wait is a guard because every change of what
  it waits for is followed by a notification under its mutex; for \<open>listen_cv_\<close>, whose flag \<open>stop_\<close> changes outside it,
  that is \<open>no_wakeup_is_lost\<close>.

  \<^bold>\<open>Bounds.\<close> Doubling the size of a ring does not wrap as long as the content stays within \<open>cb_limit\<close>, which is
  \<open>2 ^ 61\<close> bytes; the size then stays within \<open>cb_max\<close>, \<open>3 * 2 ^ 61\<close>. \<open>std::string\<close> is limited to \<open>string_max_size\<close>,
  \<open>2 ^ 62 - 1\<close>. Ids of plain messages have at most 254 bytes, because the length is kept in eight bits.

  \<^bold>\<open>Not modelled.\<close> The inside of OpenSSL, GMTASSL (the build option \<open>USE_GMTASSL\<close>) and emp-toolkit (\<open>USE_EMP_IO\<close>,
  0 in the source); logging and printing; the text parser of RapidJSON, whose result is a parameter; the
  error callback; sleeps and time-outs other than where a result depends on them; weak memory (a critical section is
  atomic); a \<open>write\<close> to a non-blocking socket that a signal interrupts or that
  takes nothing without an error; in \<open>Session\<close> and what builds on it, the close by an epoll thread that reads the end of the stream
  while tasks run (\<open>Server\<close> has it); two threads that use a new id of the emp-toolkit variant at once. The programs under \<open>src/examples\<close> and
  \<open>src/tests\<close> call constructors and methods that \<open>BasicIO\<close> no longer has (party numbers, broadcast, synchronisation) and are
  commented out of the build, so their calls have no meaning under \<open>src\<close>.

  \<^bold>\<open>Still open.\<close> \<open>TLS\<close> knows which contexts the program still owns, and that a handshake that begins after the server of its
  context is gone is a fault (\<open>handshake_after_destroy\<close>); which connections are in that state when a server ends depends on the
  threads of all tasks together, and \<open>server_step\<close> does not follow the handshakes.
\<close>

section \<open>Two nodes of a task\<close>

definition sample_io :: basic_io where
  "sample_io = (new_basic_io ''t'' \<lparr>nid = ''A'', address = [], port = 0\<rparr> [] [])
     \<lparr>connection_map := [(''B'', Some 1)]\<rparr>"

lemma reach_sent:
  obtains s where "(channel_step sample_io sample_io ''A'' ''B'' ''t'')\<^sup>*\<^sup>*
      (new_pair (new_connection 3 0 False ''peer'') (new_connection 3 0 False ''peer'')) s"
    "sent_log s = [(''0a'', ''v'')]"
proof -
  let ?s0 = "new_pair conn0 conn0" and ?i = "[CHR 0x0A]"
  obtain c n where c: "send_msg conn0 ?i ''v'' = Inr (n, c)"
    using send_msg_ok [OF conn0_repr, of ?i "''v''"] by (auto simp: cb_limit_def)
  have hex: "get_string ''0a'' = Inr ?i" by code_simp
  have ok: "hex_msg_ok ''0a'' ''v''"
    by (simp add: hex_msg_ok_def is_hex_id_def lower_hex_def cb_limit_def)
  have room: "length (frames (sent (lnk ?s0))) + 9 + length ''0a'' div 2 + length ''v'' \<le> cb_limit"
    by (simp add: new_pair_def new_link_def cb_limit_def)
  have send: "Send sample_io [1 \<mapsto> tx (lnk ?s0)] ''B'' ''0a'' ''v'' = Inr (sint n, [1 \<mapsto> c])"
    using c hex by (simp add: Send_def basic_send_def node_connection_def sample_io_def new_pair_def new_link_def)
  have "([1 \<mapsto> c] :: conn_heap) 1 = Some c" by simp
  from Channel_Send [OF ok room send this hex]
  show thesis by (intro that [OF r_into_rtranclp]) (auto simp: conn0_def new_pair_def)
qed

text \<open>C1: two channels deliver per id: whatever \<open>Recv\<close> of one channel has returned for a hexadecimal message id
  is a prefix of what \<open>Send\<close> of its peer was given for that id, in every state the two can reach, with other
  ids and the lock messages of tasks sharing the connection.\<close>

theorem channel_delivers_per_id:
  assumes "(channel_step ioA ioB a b task)\<^sup>*\<^sup>* (new_pair (new_connection f ev srv p) (new_connection f' ev' srv' p')) s"
    and "plain_id h"
  shows "\<exists>rest. payloads (sent_log s) h = received s h @ rest"
  by (rule pair_ok_prefix [OF pair_ok_reach [OF assms(1)] assms(2)])

theorem channel_delivers_per_id_witness:
  "\<exists>(s :: channel_pair) rest. sent_log s = [(''0a'', ''v'')] \<and> ''v'' = received s ''0a'' @ rest"
proof (rule reach_sent)
  fix s
  assume s: "(channel_step sample_io sample_io ''A'' ''B'' ''t'')\<^sup>*\<^sup>*
      (new_pair (new_connection 3 0 False ''peer'') (new_connection 3 0 False ''peer'')) s"
    "sent_log s = [(''0a'', ''v'')]"
  have "get_string ''0a'' = Inr [CHR 0x0A]" by code_simp
  then have "plain_id ''0a''" by (simp add: plain_id_def bin_id_def is_hex_id_def lower_hex_def)
  from channel_delivers_per_id [OF s(1) this] obtain rest
    where "payloads (sent_log s) ''0a'' = received s ''0a'' @ rest" ..
  with s(2) show ?thesis by (intro exI [of _ s] exI [of _ rest]) simp
qed

text \<open>C20: the network initialisations of two nodes fit together: for two peers of a parsed configuration of
  which at least one has a listening port, either the threads of the first include one that dials the
  second at its address and port while the server of the second expects the first and a thread awaits
  it, or the other way round, and never both.\<close>

theorem peers_dial_and_await:
  assumes "parse_doc doc new_config = Inr (ok, cfg)"
    and "channel_peers cfg a = Inr (ia, clients_a, servers_a)" and "GetNode cfg a = Inr na"
    and "channel_peers cfg b = Inr (ib, clients_b, servers_b)" and "GetNode cfg b = Inr nb"
    and "0 < PORT na \<or> 0 < PORT nb" and "b \<in> set (connected_node_ids clients_a servers_a)"
    and "ioA = new_basic_io task ia clients_a servers_a" and "ioB = new_basic_io task ib clients_b servers_b"
  shows "\<exists>as bs. conn_actions ioA (expected_ids ioA) 0 = Inr as \<and> conn_actions ioB (expected_ids ioB) 0 = Inr bs \<and>
    (Connect_To (CopyNodeInfo nb) \<in> set as \<and> Await_Client a \<in> set bs \<and> a \<in> set (init_cids ioB)) \<noteq>
    (Connect_To (CopyNodeInfo na) \<in> set bs \<and> Await_Client b \<in> set as \<and> b \<in> set (init_cids ioA))"
proof -
  have acts: "conn_actions ioA (expected_ids ioA) 0 = Inr (map Connect_To servers_a @ map Await_Client (map nid clients_a))"
    "conn_actions ioB (expected_ids ioB) 0 = Inr (map Connect_To servers_b @ map Await_Client (map nid clients_b))"
    using conn_actions_all [of ioA] conn_actions_all [of ioB] channel_peers_disjoint [OF assms(1,2)]
      channel_peers_disjoint [OF assms(1,4)] assms(8,9)
    by (simp_all add: new_basic_io_def init_cids_def init_sids_def)
  have dial: "Connect_To (CopyNodeInfo nb) \<in> set (map Connect_To servers_a) \<longleftrightarrow> b \<in> nid ` set servers_a"
    "Connect_To (CopyNodeInfo na) \<in> set (map Connect_To servers_b) \<longleftrightarrow> a \<in> nid ` set servers_b"
    using dialled_info [OF assms(1,2,5)] dialled_info [OF assms(1,4,3)] by (simp_all add: image_iff)
  have cids: "i \<in> set (init_cids ioA) \<longleftrightarrow> i \<in> nid ` set clients_a"
    "i \<in> set (init_cids ioB) \<longleftrightarrow> i \<in> nid ` set clients_b" for i
    using assms(8,9) by (simp_all add: new_basic_io_def init_cids_def)
  have await: "Await_Client i \<in> set (map Connect_To sv @ map Await_Client (map nid cl)) \<longleftrightarrow> i \<in> nid ` set cl"
    and connect: "Connect_To x \<in> set (map Connect_To sv @ map Await_Client (map nid cl)) \<longleftrightarrow>
      Connect_To x \<in> set (map Connect_To sv)" for i x cl sv
    by auto
  have one: "(b \<in> nid ` set servers_a \<and> a \<in> nid ` set clients_b \<and> a \<in> nid ` set clients_b) \<noteq>
      (a \<in> nid ` set servers_b \<and> b \<in> nid ` set clients_a \<and> b \<in> nid ` set clients_a)"
    using exactly_one_side_dials [OF assms(1-7), THEN conjunct1] by (simp only: conj_absorb not_False_eq_True)
  let ?as = "map Connect_To servers_a @ map Await_Client (map nid clients_a)"
    and ?bs = "map Connect_To servers_b @ map Await_Client (map nid clients_b)"
  have "(Connect_To (CopyNodeInfo nb) \<in> set ?as \<and> Await_Client a \<in> set ?bs \<and> a \<in> set (init_cids ioB)) \<noteq>
    (Connect_To (CopyNodeInfo na) \<in> set ?bs \<and> Await_Client b \<in> set ?as \<and> b \<in> set (init_cids ioA))"
    using one by (simp only: await connect dial cids not_False_eq_True)
  with acts show ?thesis by (intro exI conjI)
qed

theorem peers_dial_and_await_witness:
  "\<exists>cfg i0 cl0 sv0 i1 cl1 sv1 as bs. channel_peers cfg ''p0'' = Inr (i0, cl0, sv0) \<and>
     channel_peers cfg ''p1'' = Inr (i1, cl1, sv1) \<and>
     conn_actions (new_basic_io ''t'' i0 cl0 sv0) (expected_ids (new_basic_io ''t'' i0 cl0 sv0)) 0 = Inr as \<and>
     conn_actions (new_basic_io ''t'' i1 cl1 sv1) (expected_ids (new_basic_io ''t'' i1 cl1 sv1)) 0 = Inr bs \<and>
     (Await_Client ''p0'' \<in> set bs \<or> Await_Client ''p1'' \<in> set as)"
proof (rule sample_channels)
  fix cfg i0 cl0 sv0 i1 cl1 sv1
  assume a: "parse_doc sample_doc new_config = Inr (True, cfg)"
    "channel_peers cfg ''p0'' = Inr (i0, cl0, sv0)" "map nid sv0 = [''p1'', ''r0'']"
    "channel_peers cfg ''p1'' = Inr (i1, cl1, sv1)"
    and p: "map_sum (\<lambda>e. e) PORT (GetNode cfg ''p0'') = Inr 11121"
      "map_sum (\<lambda>e. e) PORT (GetNode cfg ''p1'') = Inr 11122"
  obtain n0 n1 where n: "GetNode cfg ''p0'' = Inr n0" "PORT n0 = 11121" "GetNode cfg ''p1'' = Inr n1"
    using p by (cases "GetNode cfg ''p0''"; cases "GetNode cfg ''p1''") auto
  have m: "''p1'' \<in> set (connected_node_ids cl0 sv0)" using a(3) by (simp add: connected_node_ids_def)
  have pos: "0 < PORT n0 \<or> 0 < PORT n1" using n(2) by simp
  from peers_dial_and_await [OF a(1,2) n(1) a(4) n(3) pos m refl refl, of "''t''"] a(2,4) show ?thesis by blast
qed

end
